(* ===== verification/Prelude.thy ===== *)
theory Prelude
  imports Main "HOL-Library.Monad_Syntax"
begin

text \<open>
  Shared vocabulary of the development: the type synonyms of the model, the collections of
  simplification rules that the component theories fill, and the generic facts on lists, maps
  and options that several components use.

  Microsecond timestamps (\<^verbatim>\<open>std::chrono::microseconds\<close>) are unbounded integers: the code only
  compares them, adds one to them and stores them.  Code that can hit undefined behaviour (a read
  through a dangling pointer, or the use of an \<^verbatim>\<open>end()\<close> iterator right after a failed
  \<^verbatim>\<open>CURRENT_ASSERT\<close>, which only prints a message) returns \<^const>\<open>None\<close> at that point.
\<close>

type_synonym microseconds = int

named_theorems journal_simps \<open>unfolding rules of the mutation journal\<close>
named_theorems container_simps \<open>unfolding rules of the storage containers\<close>

subsection \<open>Lists\<close>

lemma fold_append_rev: "fold f (rev (xs @ ys)) s = fold f (rev xs) (fold f (rev ys) s)"
  by simp

lemma sorted_wrt_less_snoc:
  "sorted_wrt (<) (xs @ [x]) \<longleftrightarrow> sorted_wrt (<) xs \<and> (\<forall>y \<in> set xs. y < (x::int))"
  by (auto simp: sorted_wrt_append)

subsection \<open>Maps\<close>

lemma map_upd_None_absent: "m k = None \<Longrightarrow> m(k := None) = m"
  by (simp add: fun_upd_idem)

lemma map_upd_undo: "m k = None \<Longrightarrow> (m(k \<mapsto> v))(k := None) = m"
  by (simp add: fun_upd_idem)

lemma map_upd_redo: "m k = Some v \<Longrightarrow> (m(k := w))(k \<mapsto> v) = m"
  by (simp add: fun_upd_idem)

lemmas map_undo = map_upd_None_absent map_upd_undo map_upd_redo

end
