(* ===== verification/Chrono.thy ===== *)
theory Chrono
  imports Prelude
begin

text \<open>
  The clock of \<^verbatim>\<open>src/bricks/time/chrono.h\<close>: the wrapper that turns the system clock into a strictly
  increasing one (\<^verbatim>\<open>EpochClockGuaranteeingMonotonicity\<close>), seen by one thread as the function
  \<open>Now\<close> and by many threads as the compare-and-exchange step relation \<open>cas_step\<close>; and the mock
  clock that replaces it under \<^verbatim>\<open>CURRENT_MOCK_TIME\<close>.
\<close>

subsection \<open>The strictly increasing clock, one caller\<close>

text \<open>
  The readings of the system clock are the environment's: reading number \<open>i\<close> is \<open>readings i\<close>, and
  nothing is assumed of them.
\<close>

record clock =
  monotonic_now_us :: microseconds
  readings :: "nat \<Rightarrow> microseconds"
  ticks :: nat

definition Now :: "clock \<Rightarrow> microseconds \<times> clock" where
  "Now c =
     (let raw = readings c (ticks c);
          previous_now = monotonic_now_us c;
          now = (if \<not> raw > previous_now then previous_now + 1 else raw)
      in (now, c\<lparr>monotonic_now_us := now, ticks := Suc (ticks c)\<rparr>))"

lemma Now_greater: "Now c = (now, c') \<Longrightarrow> monotonic_now_us c < now"
  by (auto simp: Now_def Let_def split: if_splits)

lemma Now_stored: "Now c = (now, c') \<Longrightarrow> monotonic_now_us c' = now"
  by (auto simp: Now_def Let_def)

subsection \<open>The strictly increasing clock, many callers\<close>

text \<open>
  One pass of the loop of \<^verbatim>\<open>EpochClockGuaranteeingMonotonicity::Now\<close> is a read of the system clock
  and of the shared atomic (rule \<open>load\<close>), then a \<^verbatim>\<open>compare_exchange_strong\<close> that either stores the
  new value and returns it (rule \<open>cas_succeeds\<close>) or starts the next pass (rule \<open>cas_fails\<close>).
  The field \<open>returned\<close> is the history of returned values.
\<close>

record clock_system =
  shared_now_us :: microseconds
  pending :: "nat \<Rightarrow> (microseconds \<times> microseconds) option"
  returned :: "microseconds list"

definition clock_system_init :: clock_system where
  "clock_system_init = \<lparr>shared_now_us = 0, pending = (\<lambda>_. None), returned = []\<rparr>"

inductive cas_step :: "clock_system \<Rightarrow> clock_system \<Rightarrow> bool" where
  load: "pending s i = None \<Longrightarrow>
     cas_step s (s\<lparr>pending := (pending s)(i \<mapsto>
       (if \<not> raw > shared_now_us s then shared_now_us s + 1 else raw, shared_now_us s))\<rparr>)"
| cas_succeeds: "pending s i = Some (now, previous_now) \<Longrightarrow> shared_now_us s = previous_now \<Longrightarrow>
     cas_step s (s\<lparr>shared_now_us := now, pending := (pending s)(i := None),
                   returned := returned s @ [now]\<rparr>)"
| cas_fails: "pending s i = Some (now, previous_now) \<Longrightarrow> shared_now_us s \<noteq> previous_now \<Longrightarrow>
     cas_step s (s\<lparr>pending := (pending s)(i := None)\<rparr>)"

inductive cas_reachable :: "clock_system \<Rightarrow> bool" where
  start: "cas_reachable clock_system_init"
| step: "cas_reachable s \<Longrightarrow> cas_step s t \<Longrightarrow> cas_reachable t"

definition cas_inv :: "clock_system \<Rightarrow> bool" where
  "cas_inv s \<longleftrightarrow>
     sorted_wrt (<) (returned s) \<and> (\<forall>x \<in> set (returned s). x \<le> shared_now_us s) \<and>
     (\<forall>i now previous_now. pending s i = Some (now, previous_now) \<longrightarrow> previous_now < now)"

lemma cas_inv_init: "cas_inv clock_system_init"
  by (simp add: cas_inv_def clock_system_init_def)

lemma cas_step_inv: "cas_step s t \<Longrightarrow> cas_inv s \<Longrightarrow> cas_inv t"
proof (induction rule: cas_step.induct)
  case (cas_succeeds s i now previous_now)
  then have "previous_now < now" and "\<forall>x \<in> set (returned s). x \<le> previous_now"
    by (auto simp: cas_inv_def)
  with cas_succeeds show ?case
    by (fastforce simp: cas_inv_def sorted_wrt_less_snoc)
qed (auto simp: cas_inv_def)

lemma cas_reachable_inv: "cas_reachable s \<Longrightarrow> cas_inv s"
  by (induction rule: cas_reachable.induct) (auto intro: cas_inv_init cas_step_inv)

subsection \<open>The mock clock\<close>

record mock_now_impl =
  mock_now_value :: microseconds
  max_mock_now_value :: microseconds

definition MockNow :: "mock_now_impl \<Rightarrow> microseconds \<times> mock_now_impl" where
  "MockNow m =
     (let now = mock_now_value m
      in (now, if mock_now_value m < max_mock_now_value m
               then m\<lparr>mock_now_value := mock_now_value m + 1\<rparr> else m))"

text \<open>\<^const>\<open>None\<close> is \<^verbatim>\<open>InconsistentSetNowException\<close>.\<close>

definition SetNow :: "microseconds \<Rightarrow> microseconds \<Rightarrow> mock_now_impl \<Rightarrow> mock_now_impl option" where
  "SetNow us max_us m =
     (if us \<ge> mock_now_value m then Some (m\<lparr>mock_now_value := us, max_mock_now_value := max_us\<rparr>)
      else None)"

definition ResetToZero :: "mock_now_impl \<Rightarrow> mock_now_impl" where
  "ResetToZero m = m\<lparr>mock_now_value := 0, max_mock_now_value := 1000 * 1000 * 1000\<rparr>"

fun MockNows :: "nat \<Rightarrow> mock_now_impl \<Rightarrow> microseconds list" where
  "MockNows 0 m = []"
| "MockNows (Suc n) m = (case MockNow m of (now, m') \<Rightarrow> now # MockNows n m')"

subsection \<open>Properties\<close>

lemma cas_run:
  assumes "cas_reachable s" "pending s = (\<lambda>_. None)" "shared_now_us s < raw"
  shows "cas_reachable (s\<lparr>shared_now_us := raw, returned := returned s @ [raw]\<rparr>)"
proof -
  let ?s1 = "s\<lparr>pending := [0 \<mapsto> (raw, shared_now_us s)]\<rparr>"
  have "cas_step s ?s1" using cas_step.load [of s 0 raw] assms by simp
  with assms(1) have "cas_reachable ?s1" by (rule cas_reachable.step)
  moreover have "cas_step ?s1 (s\<lparr>shared_now_us := raw, returned := returned s @ [raw]\<rparr>)"
    using cas_step.cas_succeeds [of ?s1 0 raw "shared_now_us s"] assms(2)
    by (cases s) (simp add: fun_upd_idem)
  ultimately show ?thesis by (rule cas_reachable.step)
qed

text \<open>
  C10: However many threads call \<^verbatim>\<open>Now()\<close> and however their loads and compare-exchanges interleave,
  the values returned, in the order of the successful exchanges, are strictly increasing, for
  arbitrary readings of the system clock.
\<close>

theorem clock_strictly_increasing: "cas_reachable s \<Longrightarrow> sorted_wrt (<) (returned s)"
  using cas_reachable_inv by (auto simp: cas_inv_def)

theorem clock_strictly_increasing_witness:
  "\<exists>s. cas_reachable s \<and> returned s = [5, 9] \<and> sorted_wrt (<) (returned s)"
proof -
  let ?s1 = "clock_system_init\<lparr>shared_now_us := 5, returned := returned clock_system_init @ [5]\<rparr>"
  let ?s2 = "?s1\<lparr>shared_now_us := 9, returned := returned ?s1 @ [9]\<rparr>"
  have "cas_reachable ?s1" by (rule cas_run [OF cas_reachable.start]) (simp_all add: clock_system_init_def)
  then have s2: "cas_reachable ?s2" by (rule cas_run) (simp_all add: clock_system_init_def)
  with clock_strictly_increasing [OF s2] show ?thesis
    by (intro exI [of _ ?s2]) (simp add: clock_system_init_def)
qed

lemma MockNow_simps:
  assumes "MockNow m = (now, m')"
  shows "now = mock_now_value m" "max_mock_now_value m' = max_mock_now_value m"
    "mock_now_value m' = (if mock_now_value m < max_mock_now_value m then mock_now_value m + 1 else mock_now_value m)"
  using assms by (auto simp: MockNow_def Let_def split: if_splits)

text \<open>
  The mock clock ticks by one microsecond per call from the value it was set to until it reaches its
  maximum, and stays there; in particular it is frozen after \<^verbatim>\<open>SetNow(us)\<close> with the default maximum.
\<close>

theorem mock_now_values:
  "MockNows n m = map (\<lambda>i. if mock_now_value m + int i \<le> max_mock_now_value m then mock_now_value m + int i
     else max (mock_now_value m) (max_mock_now_value m)) [0..<n]"
proof (induction n arbitrary: m)
  case (Suc n)
  obtain now m' where m': "MockNow m = (now, m')" by (cases "MockNow m")
  show ?case
    unfolding upt_conv_Cons [OF zero_less_Suc] map_Suc_upt [symmetric]
    using Suc.IH [of m'] MockNow_simps [OF m'] by (auto simp: m')
qed simp

end
