(* ===== verification/Strings.thy ===== *)
theory Strings
  imports Prelude "HOL-Library.Char_ord"
begin

text \<open>
  Text primitives that the persisters and the rest of the system build on: decimal printing
  (\<^verbatim>\<open>std::to_string\<close>, \<^verbatim>\<open>ToString\<close>, the format \<^verbatim>\<open>%020lld\<close>) and reading (\<^verbatim>\<open>FromString\<close> of
  \<^verbatim>\<open>src/bricks/strings/util.h\<close> over \<^verbatim>\<open>std::istringstream\<close>), and \<^verbatim>\<open>std::getline\<close>.
\<close>

abbreviation newline :: char where "newline \<equiv> CHR 0x0A"
abbreviation tab :: char where "tab \<equiv> CHR 0x09"

definition isspace :: "char \<Rightarrow> bool" where
  "isspace c \<longleftrightarrow> c \<in> {CHR '' '', CHR 0x09, CHR 0x0A, CHR 0x0B, CHR 0x0C, CHR 0x0D}"

definition isdigit :: "char \<Rightarrow> bool" where
  "isdigit c \<longleftrightarrow> 48 \<le> (of_char c :: nat) \<and> (of_char c :: nat) \<le> 57"

definition isalnum :: "char \<Rightarrow> bool" where
  "isalnum c \<longleftrightarrow>
     (let n = of_char c :: nat in 97 \<le> n \<and> n \<le> 122 \<or> 65 \<le> n \<and> n \<le> 90 \<or> 48 \<le> n \<and> n \<le> 57)"

definition digit_char :: "nat \<Rightarrow> char" where
  "digit_char d = char_of (48 + d)"

definition digit_value :: "char \<Rightarrow> nat" where
  "digit_value c = of_char c - 48"

text \<open>\<^verbatim>\<open>std::to_string\<close> of an unsigned and of a signed number.\<close>

fun to_string_nat :: "nat \<Rightarrow> string" where
  "to_string_nat n = (if n < 10 then [digit_char n] else to_string_nat (n div 10) @ [digit_char (n mod 10)])"

declare to_string_nat.simps [simp del]

definition to_string :: "int \<Rightarrow> string" where
  "to_string x = (if x < 0 then CHR ''-'' # to_string_nat (nat (- x)) else to_string_nat (nat x))"

text \<open>\<^verbatim>\<open>Printf("%020lld", x)\<close>: at least twenty characters, padded with zeroes after the sign.\<close>

definition printf_020lld :: "int \<Rightarrow> string" where
  "printf_020lld x =
     (let digits = to_string_nat (nat \<bar>x\<bar>); sign = (if x < 0 then ''-'' else [])
      in sign @ replicate (20 - length sign - length digits) (CHR ''0'') @ digits)"

definition digits_value :: "string \<Rightarrow> nat" where
  "digits_value = foldl (\<lambda>acc c. acc * 10 + digit_value c) 0"

definition int64_min :: int where "int64_min = - (2 ^ 63)"
definition int64_max :: int where "int64_max = 2 ^ 63 - 1"

text \<open>\<^verbatim>\<open>is >> x\<close> for a 64-bit signed \<^verbatim>\<open>x\<close>: \<^const>\<open>None\<close> when the stream is left in the failed state.\<close>

definition istream_int64 :: "string \<Rightarrow> int option" where
  "istream_int64 s =
     (let s = dropWhile isspace s;
          negative = (s \<noteq> [] \<and> hd s = CHR ''-'');
          s = (if s \<noteq> [] \<and> (hd s = CHR ''-'' \<or> hd s = CHR ''+'') then tl s else s);
          digits = takeWhile isdigit s;
          value = (if negative then - int (digits_value digits) else int (digits_value digits))
      in if digits = [] \<or> value < int64_min \<or> int64_max < value then None else Some value)"

text \<open>\<^verbatim>\<open>FromString<int64_t>\<close>: zero when the input is not a number.\<close>

definition FromString_int64 :: "string \<Rightarrow> int" where
  "FromString_int64 s = (case istream_int64 s of Some x \<Rightarrow> x | None \<Rightarrow> 0)"

definition c_str :: "string \<Rightarrow> string" where
  "c_str s = takeWhile (\<lambda>c. c \<noteq> CHR 0x00) s"

text \<open>
  \<^verbatim>\<open>std::getline\<close> on the unread part of a file: the line, what remains after it, and whether the end of
  the file was hit before a newline; \<^const>\<open>None\<close> when there was nothing left to read.
\<close>

definition getline :: "string \<Rightarrow> (string \<times> string \<times> bool) option" where
  "getline rest =
     (if rest = [] then None
      else let line = takeWhile (\<lambda>c. c \<noteq> newline) rest; after = dropWhile (\<lambda>c. c \<noteq> newline) rest
           in Some (line, drop 1 after, after = []))"

subsection \<open>Printing and reading decimals\<close>

lemma of_char_digit [simp]: "d < 10 \<Longrightarrow> of_char (digit_char d) = (48 + d :: nat)"
  by (simp add: digit_char_def)

lemma isdigit_digit_char [simp]: "d < 10 \<Longrightarrow> isdigit (digit_char d)"
  by (simp add: isdigit_def)

lemma digit_value_digit_char [simp]: "d < 10 \<Longrightarrow> digit_value (digit_char d) = d"
  by (simp add: digit_value_def)

lemma digits_value_append: "digits_value (xs @ [c]) = digits_value xs * 10 + digit_value c"
  by (simp add: digits_value_def)

lemma digits_value_to_string [simp]: "digits_value (to_string_nat n) = n"
proof (induction n rule: to_string_nat.induct)
  case (1 n)
  then show ?case
    by (subst to_string_nat.simps) (auto simp: digits_value_append, simp add: digits_value_def)
qed

lemma to_string_nat_digits: "\<forall>c \<in> set (to_string_nat n). isdigit c"
proof (induction n rule: to_string_nat.induct)
  case (1 n)
  then show ?case by (subst to_string_nat.simps) auto
qed

lemma to_string_nat_nonempty [simp]: "to_string_nat n \<noteq> []"
  by (subst to_string_nat.simps) simp

lemma to_string_nat_inj: "to_string_nat m = to_string_nat n \<Longrightarrow> m = n"
  by (metis digits_value_to_string)

lemma length_to_string_nat: "n < 10 ^ k \<Longrightarrow> 0 < k \<Longrightarrow> length (to_string_nat n) \<le> k"
proof (induction k arbitrary: n)
  case (Suc k)
  show ?case
  proof (cases "n < 10")
    case False
    with Suc.prems have "n div 10 < 10 ^ k" "0 < k"
      by (auto simp: less_mult_imp_div_less) (metis False less_numeral_extra(4) gr0I power_0 mult.right_neutral)
    with Suc.IH False show ?thesis by (subst to_string_nat.simps) simp
  qed (subst to_string_nat.simps, simp)
qed simp

lemma digits_value_zeroes [simp]: "digits_value (replicate k (CHR ''0'') @ s) = digits_value s"
  by (induction k) (simp_all add: digits_value_def digit_value_def)

lemma isdigit_notspace: "isdigit c \<Longrightarrow> \<not> isspace c"
  by (auto simp: isdigit_def isspace_def)

lemma istream_int64_digits:
  assumes "ds \<noteq> []" "\<forall>c \<in> set ds. isdigit c" "int (digits_value ds) \<le> int64_max"
  shows "istream_int64 ds = Some (int (digits_value ds))"
proof -
  have "isdigit (hd ds)" using assms by (cases ds) auto
  then have "hd ds \<noteq> CHR ''-''" "hd ds \<noteq> CHR ''+''" "\<not> isspace (hd ds)"
    by (auto simp: isdigit_def isdigit_notspace)
  moreover from this have "dropWhile isspace ds = ds" using assms(1) by (cases ds) auto
  moreover have tw: "takeWhile isdigit ds = ds" using assms(2) by simp
  ultimately show ?thesis
    using assms(1,3) by (simp add: istream_int64_def Let_def int64_min_def tw)
qed

lemma printf_020lld_facts:
  assumes "0 \<le> x" "x \<le> int64_max"
  shows "length (printf_020lld x) = 20" "\<forall>c \<in> set (printf_020lld x). isdigit c"
    "FromString_int64 (printf_020lld x) = x"
proof -
  have "nat x < 10 ^ 20" using assms by (simp add: int64_max_def nat_less_iff)
  then have "length (to_string_nat (nat x)) \<le> 20" by (rule length_to_string_nat) simp
  with assms show "length (printf_020lld x) = 20" by (simp add: printf_020lld_def Let_def)
  show digits: "\<forall>c \<in> set (printf_020lld x). isdigit c"
    using assms to_string_nat_digits [of "nat x"]
    by (auto simp: printf_020lld_def Let_def isdigit_def)
  have val: "digits_value (printf_020lld x) = nat x"
    using assms by (simp add: printf_020lld_def Let_def)
  have "printf_020lld x \<noteq> []" by (simp add: printf_020lld_def Let_def)
  from istream_int64_digits [OF this digits] val assms
  show "FromString_int64 (printf_020lld x) = x" by (simp add: FromString_int64_def)
qed

lemma getline_line:
  "newline \<notin> set line \<Longrightarrow> getline (line @ newline # rest) = Some (line, rest, False)"
  by (induction line) (auto simp: getline_def Let_def)

lemma getline_length: "getline rest = Some (line, rest', eof) \<Longrightarrow> length rest' < length rest"
proof -
  assume "getline rest = Some (line, rest', eof)"
  then have "rest \<noteq> []" "rest' = drop 1 (dropWhile (\<lambda>c. c \<noteq> newline) rest)"
    by (auto simp: getline_def Let_def split: if_splits)
  moreover have "length (dropWhile (\<lambda>c. c \<noteq> newline) rest) \<le> length rest"
    by (rule length_dropWhile_le)
  ultimately show ?thesis
    by (cases "dropWhile (\<lambda>c. c \<noteq> newline) rest") auto
qed

end
