(* ===== verification/Persister.thy ===== *)
theory Persister
  imports Strings Chrono
begin

text \<open>
  The interface of a persister, \<^verbatim>\<open>src/blocks/ss/persister.h\<close>, with its index-and-timestamp records
  (\<^verbatim>\<open>src/blocks/ss/idx_ts.h\<close>) and exceptions (\<^verbatim>\<open>src/blocks/persistence/exceptions.h\<close>,
  \<^verbatim>\<open>src/blocks/ss/exceptions.h\<close>).  \<open>plog\<close> is what every persister implements: a log of entries with
  strictly increasing timestamps and a head that is never behind the last entry.  The locale
  \<open>persister\<close> states that an implementation refines it; its clients' facts are proved there once.
\<close>

record idxts =
  idx_index :: nat
  idx_us :: microseconds

datatype ss_exception =
    InconsistentTimestampException microseconds microseconds
  | InconsistentIndexException nat nat
  | MalformedEntryException string
  | InvalidIterableRangeException
  | NoEntriesPublishedYet
  | UnsafePublishBadIndexTimestampException nat nat
  | InvalidStreamSignature string string
  | InvalidSignatureLocation
  | InvalidJSONException string
  | EndOfFileException

record head_optidxts =
  hoi_head :: microseconds
  hoi_idxts :: "idxts option"

text \<open>\<^verbatim>\<open>static_cast<uint64_t>(-1)\<close>, the default end of a range and the missing index.\<close>

definition uint64_npos :: nat where "uint64_npos = 2 ^ 64 - 1"

text \<open>\<^verbatim>\<open>std::lower_bound\<close> and \<^verbatim>\<open>std::upper_bound\<close> on sorted timestamps, as distances from the beginning.\<close>

definition lower_bound :: "microseconds list \<Rightarrow> microseconds \<Rightarrow> nat" where
  "lower_bound ts from = length (takeWhile (\<lambda>t. t < from) ts)"

definition upper_bound :: "microseconds list \<Rightarrow> microseconds \<Rightarrow> nat" where
  "upper_bound ts till = length (takeWhile (\<lambda>t. \<not> till < t) ts)"

text \<open>The operations of a persister, the template parameter of a stream.\<close>

record ('s, 'e) persister_ops =
  PersisterPublish :: "'e \<Rightarrow> microseconds \<Rightarrow> 's \<Rightarrow> ss_exception + idxts \<times> 's"
  PersisterUpdateHead :: "microseconds \<Rightarrow> 's \<Rightarrow> ss_exception + 's"
  PersisterSize :: "'s \<Rightarrow> nat"
  PersisterCurrentHead :: "'s \<Rightarrow> microseconds"
  PersisterHeadAndLast :: "'s \<Rightarrow> head_optidxts"
  PersisterIndexRange :: "microseconds \<Rightarrow> microseconds \<Rightarrow> 's \<Rightarrow> nat \<times> nat"
  PersisterIterate :: "nat \<Rightarrow> nat \<Rightarrow> 's \<Rightarrow> ss_exception + (idxts \<times> 'e) list"

definition PersisterEmpty :: "('s, 'e) persister_ops \<Rightarrow> 's \<Rightarrow> bool" where
  "PersisterEmpty ops s \<longleftrightarrow> PersisterSize ops s = 0"

text \<open>\<^verbatim>\<open>PersisterIterateImpl(from, till)\<close>, the same in both persisters.\<close>

definition PersisterIterateTime ::
  "('s, 'e) persister_ops \<Rightarrow> microseconds \<Rightarrow> microseconds \<Rightarrow> 's \<Rightarrow> ss_exception + (idxts \<times> 'e) list" where
  "PersisterIterateTime ops from till s =
     (if 0 < till \<and> till < from then Inl InvalidIterableRangeException
      else let index_range = PersisterIndexRange ops from till s in
        if fst index_range \<noteq> uint64_npos
        then PersisterIterate ops (fst index_range) (snd index_range) s
        else Inr [])"

text \<open>
  A line of a log is the JSON of an \<open>idxts\<close>, a tab, and the JSON of an entry.  The serialization of the
  user's entry type is generated by the compiler from its declaration and is a parameter here;
  \<^const>\<open>None\<close> is a \<^verbatim>\<open>ParseJSON\<close> that throws.  \<open>codec_ok\<close> is what the persisters rely on: parsing what was
  printed gives it back, JSON is printed on one line without control characters, and an object opens with a brace.
\<close>

record 'e codec =
  JSON_idxts :: "idxts \<Rightarrow> string"
  ParseJSON_idxts :: "string \<Rightarrow> idxts option"
  JSON_entry :: "'e \<Rightarrow> string"
  ParseJSON_entry :: "string \<Rightarrow> 'e option"

definition codec_ok :: "'e codec \<Rightarrow> bool" where
  "codec_ok cd \<longleftrightarrow>
     (\<forall>i. ParseJSON_idxts cd (JSON_idxts cd i) = Some i \<and> hd (JSON_idxts cd i) = CHR ''{'' \<and>
          JSON_idxts cd i \<noteq> [] \<and> tab \<notin> set (JSON_idxts cd i) \<and> newline \<notin> set (JSON_idxts cd i)) \<and>
     (\<forall>e. ParseJSON_entry cd (JSON_entry cd e) = Some e \<and> newline \<notin> set (JSON_entry cd e) \<and>
          CHR 0x00 \<notin> set (JSON_entry cd e))"

definition log_line :: "'e codec \<Rightarrow> idxts \<Rightarrow> 'e \<Rightarrow> string" where
  "log_line cd i e = JSON_idxts cd i @ tab # JSON_entry cd e"

text \<open>\<^verbatim>\<open>line.find('\t')\<close>, with \<^verbatim>\<open>line.substr(0, tab_pos)\<close> and \<^verbatim>\<open>line.substr(tab_pos + 1)\<close>.\<close>

definition split_tab :: "string \<Rightarrow> (string \<times> string) option" where
  "split_tab line =
     (if tab \<in> set line then Some (takeWhile (\<lambda>c. c \<noteq> tab) line, tl (dropWhile (\<lambda>c. c \<noteq> tab) line))
      else None)"

lemma split_tab_append: "tab \<notin> set a \<Longrightarrow> split_tab (a @ tab # b) = Some (a, b)"
  by (induction a) (auto simp: split_tab_def)

lemma codec_okD:
  assumes "codec_ok cd"
  shows "ParseJSON_idxts cd (JSON_idxts cd i) = Some i" "ParseJSON_entry cd (JSON_entry cd e) = Some e"
    "split_tab (log_line cd i e) = Some (JSON_idxts cd i, JSON_entry cd e)"
    "CHR 0x00 \<notin> set (JSON_entry cd e)"
    "newline \<notin> set (log_line cd i e)" "hd (log_line cd i e) = CHR ''{''" "log_line cd i e \<noteq> []"
  using assms by (auto simp: codec_ok_def log_line_def split_tab_append)

subsection \<open>The abstract log\<close>

record 'e plog =
  plog_entries :: "(microseconds \<times> 'e) list"
  plog_head :: microseconds

definition plog_empty :: "'e plog" where
  "plog_empty = \<lparr>plog_entries = [], plog_head = -1\<rparr>"

definition plog_timestamps :: "'e plog \<Rightarrow> microseconds list" where
  "plog_timestamps l = map fst (plog_entries l)"

definition plog_inv :: "'e plog \<Rightarrow> bool" where
  "plog_inv l \<longleftrightarrow> sorted_wrt (<) (plog_timestamps l) \<and> -1 \<le> plog_head l \<and>
     (\<forall>t \<in> set (plog_timestamps l). 0 \<le> t \<and> t \<le> plog_head l)"

definition plog_records :: "'e plog \<Rightarrow> (idxts \<times> 'e) list" where
  "plog_records l = map (\<lambda>(i, u, e). (\<lparr>idx_index = i, idx_us = u\<rparr>, e)) (enumerate 0 (plog_entries l))"

definition plog_publish :: "'e \<Rightarrow> microseconds \<Rightarrow> 'e plog \<Rightarrow> ss_exception + idxts \<times> 'e plog" where
  "plog_publish e u l =
     (if u \<le> plog_head l then Inl (InconsistentTimestampException (plog_head l + 1) u)
      else Inr (\<lparr>idx_index = length (plog_entries l), idx_us = u\<rparr>,
                \<lparr>plog_entries = plog_entries l @ [(u, e)], plog_head = u\<rparr>))"

definition plog_update_head :: "microseconds \<Rightarrow> 'e plog \<Rightarrow> ss_exception + 'e plog" where
  "plog_update_head u l =
     (if u \<le> plog_head l then Inl (InconsistentTimestampException (plog_head l + 1) u)
      else Inr (l\<lparr>plog_head := u\<rparr>))"

definition plog_last :: "'e plog \<Rightarrow> idxts option" where
  "plog_last l =
     (if plog_entries l = [] then None
      else Some \<lparr>idx_index = length (plog_entries l) - 1, idx_us = fst (last (plog_entries l))\<rparr>)"

definition plog_index_range :: "microseconds \<Rightarrow> microseconds \<Rightarrow> 'e plog \<Rightarrow> nat \<times> nat" where
  "plog_index_range from till l =
     (let ts = plog_timestamps l; b = lower_bound ts from; e = upper_bound ts till
      in (if b < length ts then b else uint64_npos,
          if 0 < till \<and> e < length ts then e else uint64_npos))"

definition plog_iterate :: "nat \<Rightarrow> nat \<Rightarrow> 'e plog \<Rightarrow> ss_exception + (idxts \<times> 'e) list" where
  "plog_iterate b e l =
     (let size = length (plog_entries l); e = (if e = uint64_npos then size else e)
      in if b \<le> e \<and> e \<le> size then Inr (take (e - b) (drop b (plog_records l)))
         else Inl InvalidIterableRangeException)"

lemma plog_inv_empty: "plog_inv plog_empty"
  by (simp add: plog_inv_def plog_empty_def plog_timestamps_def)

lemma plog_publish_inv: "plog_inv l \<Longrightarrow> plog_publish e u l = Inr (i, l') \<Longrightarrow> plog_inv l'"
  by (fastforce simp: plog_inv_def plog_publish_def plog_timestamps_def sorted_wrt_append split: if_splits)

lemma plog_update_head_inv: "plog_inv l \<Longrightarrow> plog_update_head u l = Inr l' \<Longrightarrow> plog_inv l'"
  by (fastforce simp: plog_inv_def plog_update_head_def plog_timestamps_def split: if_splits)

lemma length_plog_records [simp]: "length (plog_records l) = length (plog_entries l)"
  by (simp add: plog_records_def)

lemma plog_records_nth:
  "i < length (plog_entries l) \<Longrightarrow>
   plog_records l ! i = (\<lparr>idx_index = i, idx_us = fst (plog_entries l ! i)\<rparr>, snd (plog_entries l ! i))"
  by (simp add: plog_records_def nth_enumerate_eq split_beta)

lemma plog_records_snoc:
  "plog_records \<lparr>plog_entries = plog_entries l @ [(u, e)], plog_head = h\<rparr> =
   plog_records l @ [(\<lparr>idx_index = length (plog_entries l), idx_us = u\<rparr>, e)]"
  by (simp add: plog_records_def enumerate_append_eq)

lemma plog_records_slice:
  assumes "e \<le> length (plog_entries l)"
  shows "take (e - b) (drop b (plog_records l)) =
    map (\<lambda>i. (\<lparr>idx_index = i, idx_us = fst (plog_entries l ! i)\<rparr>, snd (plog_entries l ! i))) [b..<e]"
  using assms by (intro nth_equalityI) (auto simp: plog_records_nth)

lemma plog_iterate_all: "plog_iterate 0 uint64_npos l = Inr (plog_records l)"
  by (simp add: plog_iterate_def Let_def)

subsection \<open>Ranges of timestamps\<close>

lemma sorted_slice:
  assumes "sorted_wrt (<) (map f xs)" "b = length (takeWhile (\<lambda>x. f x < from) xs)"
  shows "drop b xs = filter (\<lambda>x. (from :: int) \<le> f x) xs"
  using assms
proof (induction xs arbitrary: b)
  case (Cons x xs)
  show ?case
  proof (cases "f x < from")
    case False
    then have "\<forall>y \<in> set xs. from \<le> f y" using Cons.prems(1) by (auto simp: less_le_trans)
    with False Cons.prems(2) show ?thesis by simp
  qed (use Cons in auto)
qed simp

lemma sorted_prefix:
  assumes "sorted_wrt (<) (map f xs)" "e = length (takeWhile (\<lambda>x. \<not> till < f x) xs)"
  shows "take e xs = filter (\<lambda>x. f x \<le> (till :: int)) xs"
  using assms
proof (induction xs arbitrary: e)
  case (Cons x xs)
  show ?case
  proof (cases "till < f x")
    case True
    then have "filter (\<lambda>x. f x \<le> till) xs = []" using Cons.prems(1) by (auto simp: filter_empty_conv)
    with True Cons.prems(2) show ?thesis by simp
  qed (use Cons in auto)
qed simp

definition in_range :: "microseconds \<Rightarrow> microseconds \<Rightarrow> idxts \<times> 'e \<Rightarrow> bool" where
  "in_range from till r \<longleftrightarrow> from \<le> idx_us (fst r) \<and> (0 < till \<longrightarrow> idx_us (fst r) \<le> till)"

lemma map_idx_us_records: "map (\<lambda>r. idx_us (fst r)) (plog_records l) = plog_timestamps l"
  by (intro nth_equalityI) (simp_all add: plog_timestamps_def plog_records_nth)

lemma length_takeWhile_map: "length (takeWhile P (map f xs)) = length (takeWhile (\<lambda>x. P (f x)) xs)"
  by (simp add: takeWhile_map comp_def)

lemma length_takeWhile_mono:
  "(\<And>x. P x \<Longrightarrow> Q x) \<Longrightarrow> length (takeWhile P xs) \<le> length (takeWhile Q xs)"
  by (induction xs) auto

lemma takeWhile_take: "takeWhile P (take n xs) = take n (takeWhile P xs)"
  by (induction xs arbitrary: n) (auto simp: take_Cons' )

lemma sorted_between:
  fixes f :: "'a \<Rightarrow> int"
  assumes "sorted_wrt (<) (map f xs)" "b = length (takeWhile (\<lambda>x. f x < from) xs)"
    "e = length (takeWhile (\<lambda>x. \<not> till < f x) xs)" "from \<le> till"
  shows "b \<le> e" "take (e - b) (drop b xs) = filter (\<lambda>x. from \<le> f x \<and> f x \<le> till) xs"
proof -
  show be: "b \<le> e" unfolding assms(2,3) using assms(4) by (intro length_takeWhile_mono) simp
  have "sorted_wrt (<) (map f (take e xs))" using assms(1) by (simp add: sorted_wrt_take take_map [symmetric])
  moreover have "b = length (takeWhile (\<lambda>x. f x < from) (take e xs))"
    using be assms(2) by (simp add: takeWhile_take)
  ultimately have "drop b (take e xs) = filter (\<lambda>x. from \<le> f x) (take e xs)" by (rule sorted_slice)
  then show "take (e - b) (drop b xs) = filter (\<lambda>x. from \<le> f x \<and> f x \<le> till) xs"
    by (simp add: sorted_prefix [OF assms(1,3)] take_drop be conj_commute)
qed

lemma plog_iterate_range:
  assumes inv: "plog_inv l" and small: "length (plog_entries l) < uint64_npos"
    and range: "\<not> (0 < till \<and> till < from)" and be: "plog_index_range from till l = (b, e)"
  shows "(if b \<noteq> uint64_npos then plog_iterate b e l else Inr []) =
    Inr (filter (in_range from till) (plog_records l))"
proof -
  let ?us = "\<lambda>r. idx_us (fst r)" and ?rs = "plog_records l" and ?n = "length (plog_entries l)"
  have sorted: "sorted_wrt (<) (map ?us ?rs)"
    using inv by (simp add: map_idx_us_records plog_inv_def)
  define lb ub where "lb = length (takeWhile (\<lambda>r. ?us r < from) ?rs)"
    and "ub = length (takeWhile (\<lambda>r. \<not> till < ?us r) ?rs)"
  have ts: "lower_bound (plog_timestamps l) from = lb" "upper_bound (plog_timestamps l) till = ub"
    "length (plog_timestamps l) = ?n"
    by (simp_all add: lower_bound_def upper_bound_def lb_def ub_def map_idx_us_records [symmetric]
        length_takeWhile_map)
  have ub_le: "ub \<le> ?n" and lb_le: "lb \<le> ?n"
    by (metis ub_def length_takeWhile_le length_plog_records, metis lb_def length_takeWhile_le length_plog_records)
  note slice = sorted_slice [OF sorted lb_def]
  show ?thesis
  proof (cases "lb < ?n")
    case False
    then have "filter (\<lambda>r. from \<le> ?us r) ?rs = []" using slice by simp
    then have "filter (in_range from till) ?rs = []" by (auto simp: filter_empty_conv in_range_def)
    with False be ts show ?thesis by (simp add: plog_index_range_def Let_def)
  next
    case lb: True
    show ?thesis
    proof (cases "0 < till")
      case False
      then have eq: "filter (in_range from till) ?rs = filter (\<lambda>r. from \<le> ?us r) ?rs"
        by (intro filter_cong) (simp_all add: in_range_def)
      have "plog_iterate lb uint64_npos l = Inr (drop lb ?rs)"
        using lb_le by (simp add: plog_iterate_def)
      with False lb be ts small slice show ?thesis
        by (auto simp: plog_index_range_def Let_def eq)
    next
      case True
      with range have "from \<le> till" by simp
      note between = sorted_between [OF sorted lb_def ub_def this]
      have "take (ub - lb) (drop lb ?rs) = filter (in_range from till) ?rs"
        unfolding between(2) using True by (intro filter_cong) (simp_all add: in_range_def)
      moreover from ub_le have "ub < ?n \<or> ub = ?n" by linarith
      ultimately show ?thesis
        using True lb be ts small between(1)
        by (auto simp: plog_index_range_def Let_def plog_iterate_def)
    qed
  qed
qed

subsection \<open>The contract of a persister\<close>

locale persister =
  fixes ops :: "('s, 'e) persister_ops"
    and invar :: "'s \<Rightarrow> bool"
    and absl :: "'s \<Rightarrow> 'e plog"
  assumes invar_plog: "invar s \<Longrightarrow> plog_inv (absl s)"
    and publish_err: "invar s \<Longrightarrow> PersisterPublish ops e u s = Inl x \<Longrightarrow> plog_publish e u (absl s) = Inl x"
    and publish_ok: "invar s \<Longrightarrow> PersisterPublish ops e u s = Inr (i, s') \<Longrightarrow>
      invar s' \<and> plog_publish e u (absl s) = Inr (i, absl s')"
    and update_head_err: "invar s \<Longrightarrow> PersisterUpdateHead ops u s = Inl x \<Longrightarrow> plog_update_head u (absl s) = Inl x"
    and update_head_ok: "invar s \<Longrightarrow> u \<le> int64_max \<Longrightarrow> PersisterUpdateHead ops u s = Inr s' \<Longrightarrow>
      invar s' \<and> plog_update_head u (absl s) = Inr (absl s')"
    and size: "invar s \<Longrightarrow> PersisterSize ops s = length (plog_entries (absl s))"
    and head: "invar s \<Longrightarrow> PersisterCurrentHead ops s = plog_head (absl s)"
    and head_and_last: "invar s \<Longrightarrow> PersisterHeadAndLast ops s =
      \<lparr>hoi_head = plog_head (absl s), hoi_idxts = plog_last (absl s)\<rparr>"
    and index_range: "invar s \<Longrightarrow> PersisterIndexRange ops from till s = plog_index_range from till (absl s)"
    and iterate: "invar s \<Longrightarrow> PersisterIterate ops b e' s = plog_iterate b e' (absl s)"
begin

lemma publish_succeeds:
  assumes "invar s" "plog_head (absl s) < u"
  obtains s' where
    "PersisterPublish ops e u s = Inr (\<lparr>idx_index = length (plog_entries (absl s)), idx_us = u\<rparr>, s')"
    "invar s'" "absl s' = \<lparr>plog_entries = plog_entries (absl s) @ [(u, e)], plog_head = u\<rparr>"
proof (cases "PersisterPublish ops e u s")
  case (Inl x)
  with publish_err [OF assms(1) this] assms(2) show ?thesis by (simp add: plog_publish_def)
next
  case (Inr r)
  obtain i s' where r: "r = (i, s')" by (cases r)
  show ?thesis
    using publish_ok [OF assms(1) Inr [unfolded r]] assms(2) Inr r
    by (auto simp: plog_publish_def intro: that)
qed

lemma publish_fails:
  assumes "invar s" "u \<le> plog_head (absl s)"
  shows "PersisterPublish ops e u s = Inl (InconsistentTimestampException (plog_head (absl s) + 1) u)"
proof (cases "PersisterPublish ops e u s")
  case (Inl x)
  with publish_err [OF assms(1) this] assms(2) show ?thesis by (simp add: plog_publish_def)
next
  case (Inr r)
  with publish_ok [OF assms(1), of e u "fst r" "snd r"] assms(2) show ?thesis by (simp add: plog_publish_def)
qed

text \<open>A published entry is the last one of the next iteration, which keeps all the earlier ones.\<close>

lemma publish_then_iterate:
  assumes "invar s" "plog_head (absl s) < u"
    "PersisterPublish ops e u s = Inr (i, s')"
  shows "PersisterIterate ops 0 uint64_npos s = Inr (plog_records (absl s))"
    "PersisterIterate ops 0 uint64_npos s' = Inr (plog_records (absl s) @ [(i, e)])"
proof -
  obtain s'' where s'': "PersisterPublish ops e u s =
      Inr (\<lparr>idx_index = length (plog_entries (absl s)), idx_us = u\<rparr>, s'')"
    "invar s''" "absl s'' = \<lparr>plog_entries = plog_entries (absl s) @ [(u, e)], plog_head = u\<rparr>"
    by (rule publish_succeeds [OF assms(1,2)])
  show "PersisterIterate ops 0 uint64_npos s = Inr (plog_records (absl s))"
    by (simp add: iterate assms plog_iterate_all)
  show "PersisterIterate ops 0 uint64_npos s' = Inr (plog_records (absl s) @ [(i, e)])"
    using s'' assms(3) by (simp add: iterate plog_iterate_all plog_records_snoc)
qed

lemma iterate_time:
  assumes "invar s" "PersisterSize ops s < uint64_npos" "\<not> (0 < till \<and> till < from)"
  shows "PersisterIterateTime ops from till s = Inr (filter (in_range from till) (plog_records (absl s)))"
  using assms plog_iterate_range [OF invar_plog [OF assms(1)] _ assms(3) prod.collapse [symmetric]]
  by (simp only: PersisterIterateTime_def size index_range iterate Let_def if_False)

end

subsection \<open>Sequences of calls\<close>

text \<open>
  A client's view of a persister: the calls it makes and what each of them returns.  A call that
  throws leaves the persister as it was.
\<close>

datatype 'e persister_call =
    CallPublish 'e microseconds
  | CallUpdateHead microseconds
  | CallIterate nat nat
  | CallIterateTime microseconds microseconds
  | CallHeadAndLast

datatype 'e persister_result =
    Published "ss_exception + idxts"
  | HeadUpdated "ss_exception option"
  | Iterated "ss_exception + (idxts \<times> 'e) list"
  | HeadAndLastIs head_optidxts

fun run_call ::
  "('s, 'e) persister_ops \<Rightarrow> 'e persister_call \<Rightarrow> 's \<Rightarrow> 'e persister_result \<times> 's" where
  "run_call ops (CallPublish e u) s =
     (case PersisterPublish ops e u s of
        Inl x \<Rightarrow> (Published (Inl x), s) | Inr (i, s') \<Rightarrow> (Published (Inr i), s'))"
| "run_call ops (CallUpdateHead u) s =
     (case PersisterUpdateHead ops u s of
        Inl x \<Rightarrow> (HeadUpdated (Some x), s) | Inr s' \<Rightarrow> (HeadUpdated None, s'))"
| "run_call ops (CallIterate b e) s = (Iterated (PersisterIterate ops b e s), s)"
| "run_call ops (CallIterateTime from till) s = (Iterated (PersisterIterateTime ops from till s), s)"
| "run_call ops CallHeadAndLast s = (HeadAndLastIs (PersisterHeadAndLast ops s), s)"

fun run_calls ::
  "('s, 'e) persister_ops \<Rightarrow> 'e persister_call list \<Rightarrow> 's \<Rightarrow> 'e persister_result list \<times> 's" where
  "run_calls ops [] s = ([], s)"
| "run_calls ops (c # cs) s =
     (case run_call ops c s of (r, s) \<Rightarrow> (case run_calls ops cs s of (rs, s) \<Rightarrow> (r # rs, s)))"

text \<open>The abstract log as a persister of its own.\<close>

definition plog_ops :: "('e plog, 'e) persister_ops" where
  "plog_ops =
     \<lparr>PersisterPublish = plog_publish, PersisterUpdateHead = plog_update_head,
      PersisterSize = \<lambda>l. length (plog_entries l), PersisterCurrentHead = plog_head,
      PersisterHeadAndLast = \<lambda>l. \<lparr>hoi_head = plog_head l, hoi_idxts = plog_last l\<rparr>,
      PersisterIndexRange = plog_index_range, PersisterIterate = plog_iterate\<rparr>"

text \<open>Head updates that fit the 64-bit type of \<^verbatim>\<open>std::chrono::microseconds\<close>.\<close>

fun call_ok :: "'e persister_call \<Rightarrow> bool" where
  "call_ok (CallUpdateHead u) \<longleftrightarrow> u \<le> int64_max"
| "call_ok _ \<longleftrightarrow> True"

context persister
begin

lemma call_refines:
  assumes "invar s" "call_ok c" "run_call ops c s = (r, s')"
  shows "invar s'" "run_call plog_ops c (absl s) = (r, absl s')"
proof -
  have "invar s' \<and> run_call plog_ops c (absl s) = (r, absl s')"
  proof (cases c)
    case (CallPublish e u)
    then show ?thesis
      using assms publish_err [OF assms(1), of e u] publish_ok [OF assms(1), of e u]
      by (auto simp: plog_ops_def split: sum.splits)
  next
    case (CallUpdateHead u)
    then show ?thesis
      using assms update_head_err [OF assms(1), of u] update_head_ok [OF assms(1), of u]
      by (auto simp: plog_ops_def split: sum.splits)
  next
    case (CallIterateTime lo hi)
    then show ?thesis
      using assms by (auto simp: plog_ops_def PersisterIterateTime_def index_range iterate Let_def)
  qed (use assms in \<open>auto simp: plog_ops_def iterate head_and_last\<close>)
  then show "invar s'" "run_call plog_ops c (absl s) = (r, absl s')" by simp_all
qed

lemma calls_refine:
  assumes "invar s" "list_all call_ok cs" "run_calls ops cs s = (rs, s')"
  shows "invar s' \<and> run_calls plog_ops cs (absl s) = (rs, absl s')"
  using assms
proof (induction cs arbitrary: s rs s')
  case (Cons c cs)
  obtain r s1 where 1: "run_call ops c s = (r, s1)" by (cases "run_call ops c s")
  obtain rs1 s2 where 2: "run_calls ops cs s1 = (rs1, s2)" by (cases "run_calls ops cs s1")
  have "call_ok c" "list_all call_ok cs" using Cons.prems(2) by simp_all
  from call_refines [OF Cons.prems(1) this(1) 1] Cons.IH [OF _ this(2) 2] Cons.prems(3) 1 2
  show ?case by simp
qed simp

end

end
