(* ===== verification/Mmq.thy ===== *)
theory Mmq
  imports Persister "HOL-Library.Multiset"
begin

text \<open>
  The in-memory message queues of \<^verbatim>\<open>src/blocks/mmq\<close>.  \<^verbatim>\<open>MMQ\<close> is a circular buffer between publishing threads and one consumer
  thread; what runs under its mutex is one step, and so is each access without the mutex.  \<^verbatim>\<open>MMPQ\<close> is a queue
  ordered by timestamp, which hands out entries up to its head.
\<close>

subsection \<open>The circular buffer\<close>

datatype slot_status = SlotFREE | SlotBEING_IMPORTED | SlotREADY | SlotBEING_EXPORTED

text \<open>A message is \<^const>\<open>None\<close> before the first assignment and after the value was moved out.\<close>

record 'm mmq_slot =
  sl_index_timestamp :: idxts
  sl_message_body :: "'m option"
  sl_status :: slot_status

record 'm mmq =
  mq_buffer :: "'m mmq_slot list"
  mq_head :: nat
  mq_last_idx_ts :: idxts
  mq_destructing :: bool

definition idxts_default :: idxts where "idxts_default = \<lparr>idx_index = 0, idx_us = 0\<rparr>"

definition MMQImpl :: "nat \<Rightarrow> 'm mmq" where
  "MMQImpl buffer_size =
     \<lparr>mq_buffer = replicate buffer_size \<lparr>sl_index_timestamp = idxts_default, sl_message_body = None, sl_status = SlotFREE\<rparr>,
      mq_head = 0, mq_last_idx_ts = \<lparr>idx_index = 0, idx_us = -1\<rparr>, mq_destructing = False\<rparr>"

definition mmq_Increment :: "'m mmq \<Rightarrow> nat \<Rightarrow> nat" where
  "mmq_Increment q i = (i + 1) mod length (mq_buffer q)"

definition slot_update :: "nat \<Rightarrow> ('m mmq_slot \<Rightarrow> 'm mmq_slot) \<Rightarrow> 'm mmq \<Rightarrow> 'm mmq" where
  "slot_update i f q = q\<lparr>mq_buffer := (mq_buffer q)[i := f (mq_buffer q ! i)]\<rparr>"

definition head_free :: "'m mmq \<Rightarrow> bool" where
  "head_free q \<longleftrightarrow> sl_status (mq_buffer q ! mq_head q) = SlotFREE"

text \<open>The slot at the head is taken.\<close>

definition allocate_slot :: "microseconds \<Rightarrow> 'm mmq \<Rightarrow> nat \<times> 'm mmq" where
  "allocate_slot us q =
     (let index = mq_head q;
          q = q\<lparr>mq_last_idx_ts := \<lparr>idx_index = idx_index (mq_last_idx_ts q) + 1, idx_us = us\<rparr>\<rparr>;
          q = q\<lparr>mq_head := mmq_Increment q (mq_head q)\<rparr>
      in (index, slot_update index (\<lambda>sl. sl\<lparr>sl_status := SlotBEING_IMPORTED, sl_index_timestamp := mq_last_idx_ts q\<rparr>) q))"

datatype 'm allocation = AllocThrow ss_exception | AllocFailed | AllocWait | AllocSlot nat "'m mmq"

definition CircularBufferAllocate_drop :: "microseconds \<Rightarrow> 'm mmq \<Rightarrow> 'm allocation" where
  "CircularBufferAllocate_drop timestamp q =
     (if head_free q then
        if \<not> (timestamp > idx_us (mq_last_idx_ts q))
        then AllocThrow (InconsistentTimestampException (idx_us (mq_last_idx_ts q) + 1) timestamp)
        else case allocate_slot timestamp q of (i, q) \<Rightarrow> AllocSlot i q
      else AllocFailed)"

text \<open>
  The blocking version, up to its wait and from it on; \<open>now\<close> is the clock.
\<close>

definition allocate_or_wait :: "microseconds \<Rightarrow> microseconds \<Rightarrow> 'm mmq \<Rightarrow> 'm allocation" where
  "allocate_or_wait now timestamp q =
     (if head_free q
      then case allocate_slot (if timestamp \<ge> 0 then timestamp else now) q of (i, q) \<Rightarrow> AllocSlot i q
      else AllocWait)"

definition CircularBufferAllocate :: "microseconds \<Rightarrow> microseconds \<Rightarrow> 'm mmq \<Rightarrow> 'm allocation" where
  "CircularBufferAllocate now timestamp q =
     (if mq_destructing q then AllocFailed
      else if \<not> (timestamp > idx_us (mq_last_idx_ts q))
      then AllocThrow (InconsistentTimestampException (idx_us (mq_last_idx_ts q) + 1) timestamp)
      else allocate_or_wait now timestamp q)"

definition CircularBufferAllocate_wakeup :: "microseconds \<Rightarrow> microseconds \<Rightarrow> 'm mmq \<Rightarrow> 'm allocation" where
  "CircularBufferAllocate_wakeup now timestamp q =
     (if mq_destructing q then AllocFailed else allocate_or_wait now timestamp q)"

definition CircularBufferCommit :: "nat \<Rightarrow> 'm mmq \<Rightarrow> 'm mmq" where
  "CircularBufferCommit i q = slot_update i (\<lambda>sl. sl\<lparr>sl_status := SlotREADY\<rparr>) q"

subsection \<open>The threads\<close>

text \<open>
  Where a call of \<^verbatim>\<open>PublisherPublishImpl\<close> is: waiting for a free slot; having one; having copied the message; having committed it;
  returned or left with an exception.  Publishers are pq_numbered.
\<close>

datatype 'm mmq_publisher =
    PubIdle
  | PubWaiting 'm microseconds
  | PubAllocated 'm nat
  | PubCopied nat
  | PubCommitted nat
  | PubReturned idxts
  | PubThrew ss_exception

datatype mmq_consumer = ConWaiting nat | ConExporting nat idxts | ConExported nat | ConReturned

text \<open>What was accepted, in this order, and by whom; and what the consumer was called with.\<close>

record 'm mmq_world =
  mw_queue :: "'m mmq"
  mw_publisher :: "nat \<Rightarrow> 'm mmq_publisher"
  mw_consumer :: mmq_consumer
  mw_accepted :: "(nat \<times> idxts \<times> 'm) list"
  mw_delivered :: "('m option \<times> idxts \<times> idxts) list"

definition mmq_start :: "nat \<Rightarrow> 'm mmq_world" where
  "mmq_start buffer_size =
     \<lparr>mw_queue = MMQImpl buffer_size, mw_publisher = \<lambda>p. PubIdle, mw_consumer = ConWaiting 0, mw_accepted = [], mw_delivered = []\<rparr>"

definition set_publisher :: "nat \<Rightarrow> 'm mmq_publisher \<Rightarrow> 'm mmq_world \<Rightarrow> 'm mmq_world" where
  "set_publisher p pc w = w\<lparr>mw_publisher := (mw_publisher w)(p := pc)\<rparr>"

definition after_allocation :: "nat \<Rightarrow> 'm \<Rightarrow> microseconds \<Rightarrow> 'm allocation \<Rightarrow> 'm mmq_world \<Rightarrow> 'm mmq_world" where
  "after_allocation p message timestamp res w =
     (case res of
        AllocThrow x \<Rightarrow> set_publisher p (PubThrew x) w
      | AllocFailed \<Rightarrow> set_publisher p (PubReturned idxts_default) w
      | AllocWait \<Rightarrow> set_publisher p (PubWaiting message timestamp) w
      | AllocSlot i q \<Rightarrow>
          set_publisher p (PubAllocated message i)
            (w\<lparr>mw_queue := q, mw_accepted := mw_accepted w @ [(p, mq_last_idx_ts q, message)]\<rparr>))"

definition mmq_publish :: "bool \<Rightarrow> microseconds \<Rightarrow> nat \<Rightarrow> 'm \<Rightarrow> microseconds \<Rightarrow> 'm mmq_world \<Rightarrow> 'm mmq_world" where
  "mmq_publish drop_on_overflow now p message timestamp w =
     after_allocation p message timestamp
       (if drop_on_overflow then CircularBufferAllocate_drop timestamp (mw_queue w)
        else CircularBufferAllocate now timestamp (mw_queue w)) w"

text \<open>The next step of a call that has begun; \<^const>\<open>None\<close> when it is blocked or over.\<close>

definition mmq_publisher_step :: "microseconds \<Rightarrow> nat \<Rightarrow> 'm mmq_world \<Rightarrow> 'm mmq_world option" where
  "mmq_publisher_step now p w =
     (case mw_publisher w p of
        PubWaiting message timestamp \<Rightarrow>
          if head_free (mw_queue w) \<or> mq_destructing (mw_queue w)
          then Some (after_allocation p message timestamp (CircularBufferAllocate_wakeup now timestamp (mw_queue w)) w)
          else None
      | PubAllocated message i \<Rightarrow>
          Some (set_publisher p (PubCopied i)
            (w\<lparr>mw_queue := slot_update i (\<lambda>sl. sl\<lparr>sl_message_body := Some message\<rparr>) (mw_queue w)\<rparr>))
      | PubCopied i \<Rightarrow> Some (set_publisher p (PubCommitted i) (w\<lparr>mw_queue := CircularBufferCommit i (mw_queue w)\<rparr>))
      | PubCommitted i \<Rightarrow> Some (set_publisher p (PubReturned (sl_index_timestamp (mq_buffer (mw_queue w) ! i))) w)
      | _ \<Rightarrow> None)"

text \<open>The steps of \<^verbatim>\<open>ConsumerThread\<close>.\<close>

definition mmq_consumer_step :: "'m mmq_world \<Rightarrow> 'm mmq_world option" where
  "mmq_consumer_step w =
     (let q = mw_queue w in
      case mw_consumer w of
        ConWaiting tail_idx \<Rightarrow>
          if mq_destructing q then Some (w\<lparr>mw_consumer := ConReturned\<rparr>)
          else if sl_status (mq_buffer q ! tail_idx) = SlotREADY
          then Some (w\<lparr>mw_queue := slot_update tail_idx (\<lambda>sl. sl\<lparr>sl_status := SlotBEING_EXPORTED\<rparr>) q,
                       mw_consumer := ConExporting tail_idx (mq_last_idx_ts q)\<rparr>)
          else None
      | ConExporting tail_idx save_last_idx_ts \<Rightarrow>
          Some (w\<lparr>mw_queue := slot_update tail_idx (\<lambda>sl. sl\<lparr>sl_message_body := None\<rparr>) q,
                  mw_delivered := mw_delivered w @
                    [(sl_message_body (mq_buffer q ! tail_idx), sl_index_timestamp (mq_buffer q ! tail_idx), save_last_idx_ts)],
                  mw_consumer := ConExported tail_idx\<rparr>)
      | ConExported tail_idx \<Rightarrow>
          Some (w\<lparr>mw_queue := slot_update tail_idx (\<lambda>sl. sl\<lparr>sl_status := SlotFREE\<rparr>) q,
                  mw_consumer := ConWaiting (mmq_Increment q tail_idx)\<rparr>)
      | ConReturned \<Rightarrow> None)"

inductive mmq_step :: "bool \<Rightarrow> 'm mmq_world \<Rightarrow> 'm mmq_world \<Rightarrow> bool" for drop_on_overflow where
  mmq_call: "mw_publisher w p = PubIdle \<Longrightarrow> mmq_step drop_on_overflow w (mmq_publish drop_on_overflow now p message timestamp w)"
| mmq_continue: "mmq_publisher_step now p w = Some w' \<Longrightarrow> mmq_step drop_on_overflow w w'"
| mmq_over: "mw_publisher w p = PubReturned i \<or> mw_publisher w p = PubThrew x \<Longrightarrow> mmq_step drop_on_overflow w (set_publisher p PubIdle w)"
| mmq_consume: "mmq_consumer_step w = Some w' \<Longrightarrow> mmq_step drop_on_overflow w w'"
| mmq_destroy: "mmq_step drop_on_overflow w (w\<lparr>mw_queue := (mw_queue w)\<lparr>mq_destructing := True\<rparr>\<rparr>)"

inductive mmq_reachable :: "bool \<Rightarrow> nat \<Rightarrow> 'm mmq_world \<Rightarrow> bool" for drop_on_overflow buffer_size where
  mmq_reach_start: "mmq_reachable drop_on_overflow buffer_size (mmq_start buffer_size)"
| mmq_reach_step: "mmq_reachable drop_on_overflow buffer_size w \<Longrightarrow> mmq_step drop_on_overflow w w' \<Longrightarrow>
     mmq_reachable drop_on_overflow buffer_size w'"

subsection \<open>The buffer as a window of what was accepted\<close>

text \<open>
  The accepted messages from the \<open>f\<close>-th on are in the buffer, each in the slot of its number; the other slots are free.
\<close>

fun slot_holds :: "'m mmq_slot \<Rightarrow> nat \<times> idxts \<times> 'm \<Rightarrow> bool" where
  "slot_holds sl (p, i, m) \<longleftrightarrow> sl_status sl \<noteq> SlotFREE \<and> sl_index_timestamp sl = i \<and>
     (sl_status sl = SlotREADY \<longrightarrow> sl_message_body sl = Some m)"

definition window_ok :: "'m mmq_slot list \<Rightarrow> (nat \<times> idxts \<times> 'm) list \<Rightarrow> nat \<Rightarrow> bool" where
  "window_ok b A f \<longleftrightarrow> 0 < length b \<and> f \<le> length A \<and> length A \<le> f + length b \<and>
     (\<forall>j. f \<le> j \<longrightarrow> j < length A \<longrightarrow> slot_holds (b ! (j mod length b)) (A ! j)) \<and>
     (\<forall>i < length b. (\<forall>j. f \<le> j \<longrightarrow> j < length A \<longrightarrow> j mod length b \<noteq> i) \<longrightarrow> sl_status (b ! i) = SlotFREE)"

lemma window_inj:
  assumes "j mod n = k mod n" "f \<le> j" "j < f + n" "f \<le> k" "k < f + n"
  shows "j = (k :: nat)"
proof (rule ccontr)
  assume ne: "j \<noteq> k"
  have "n dvd (max j k - min j k)" using assms(1) mod_eq_dvd_iff_nat [of "min j k" "max j k" n] by (cases "j \<le> k") auto
  moreover have "0 < max j k - min j k" "max j k - min j k < n" using ne assms(2-5) by (auto simp: max_def min_def)
  ultimately show False by (auto dest: dvd_imp_le)
qed

lemma window_update:
  assumes "window_ok b A f" "f \<le> j" "j < length A" "slot_holds sl (A ! j)"
  shows "window_ok (b[j mod length b := sl]) A f"
  unfolding window_ok_def length_list_update
proof (intro conjI allI impI)
  show "0 < length b" "f \<le> length A" "length A \<le> f + length b" using assms(1) by (simp_all add: window_ok_def)
next
  fix k assume k: "f \<le> k" "k < length A"
  show "slot_holds (b[j mod length b := sl] ! (k mod length b)) (A ! k)"
  proof (cases "k mod length b = j mod length b")
    case True
    then have "k = j" using assms(1-3) k by (intro window_inj [of k "length b" j f]) (auto simp: window_ok_def)
    then show ?thesis using assms(1,4) by (simp add: window_ok_def)
  qed (use assms(1) k in \<open>simp add: window_ok_def\<close>)
next
  fix i assume "i < length b" "\<forall>k. f \<le> k \<longrightarrow> k < length A \<longrightarrow> k mod length b \<noteq> i"
  then show "sl_status (b[j mod length b := sl] ! i) = SlotFREE" using assms(1-3) by (auto simp: window_ok_def)
qed

lemma window_allocate:
  assumes w: "window_ok b A f" and free: "sl_status (b ! (length A mod length b)) = SlotFREE" and sl: "slot_holds sl x"
  shows "window_ok (b[length A mod length b := sl]) (A @ [x]) f" "length A < f + length b"
proof -
  have n: "0 < length b" "f \<le> length A" "length A \<le> f + length b" using w by (simp_all add: window_ok_def)
  show room: "length A < f + length b"
  proof (rule ccontr)
    assume "\<not> length A < f + length b"
    then have A: "length A = f + length b" using n(3) by simp
    have "slot_holds (b ! (f mod length b)) (A ! f)" using w n(1) A by (simp add: window_ok_def)
    then show False using free A by (cases "A ! f") simp
  qed
  show "window_ok (b[length A mod length b := sl]) (A @ [x]) f"
    unfolding window_ok_def length_list_update
  proof (intro conjI allI impI)
    fix k assume k: "f \<le> k" "k < length (A @ [x])"
    show "slot_holds (b[length A mod length b := sl] ! (k mod length b)) ((A @ [x]) ! k)"
    proof (cases "k = length A")
      case True
      then show ?thesis using sl n(1) by simp
    next
      case False
      then have "k mod length b \<noteq> length A mod length b" using window_inj [of k "length b" "length A" f] k room n(2) by auto
      then show ?thesis using w k False by (simp add: window_ok_def nth_append)
    qed
  next
    fix i assume i: "i < length b" "\<forall>k. f \<le> k \<longrightarrow> k < length (A @ [x]) \<longrightarrow> k mod length b \<noteq> i"
    then have "i \<noteq> length A mod length b" "\<forall>k. f \<le> k \<longrightarrow> k < length A \<longrightarrow> k mod length b \<noteq> i" using n(2) by auto
    then show "sl_status (b[length A mod length b := sl] ! i) = SlotFREE" using w i(1) by (simp add: window_ok_def)
  qed (use n room in auto)
qed

lemma window_free:
  assumes w: "window_ok b A f" and f: "f < length A" and sl: "sl_status sl = SlotFREE"
  shows "window_ok (b[f mod length b := sl]) A (Suc f)"
  unfolding window_ok_def length_list_update
proof (intro conjI allI impI)
  fix k assume k: "Suc f \<le> k" "k < length A"
  have "k mod length b \<noteq> f mod length b" using window_inj [of k "length b" f f] k w f by (auto simp: window_ok_def)
  then show "slot_holds (b[f mod length b := sl] ! (k mod length b)) (A ! k)" using w k by (simp add: window_ok_def)
next
  fix i assume i: "i < length b" "\<forall>k. Suc f \<le> k \<longrightarrow> k < length A \<longrightarrow> k mod length b \<noteq> i"
  show "sl_status (b[f mod length b := sl] ! i) = SlotFREE"
  proof (cases "i = f mod length b")
    case True
    then show ?thesis using sl i(1) by simp
  next
    case False
    then have "\<forall>k. f \<le> k \<longrightarrow> k < length A \<longrightarrow> k mod length b \<noteq> i" using i(2) by (metis le_antisym not_less_eq_eq)
    then show ?thesis using w i(1) False by (simp add: window_ok_def)
  qed
qed (use w f in \<open>auto simp: window_ok_def\<close>)

lemma window_occupied:
  assumes "window_ok b A f" "f \<le> length A" "sl_status (b ! (f mod length b)) \<noteq> SlotFREE"
  shows "f < length A"
proof (rule ccontr)
  assume "\<not> f < length A"
  moreover have "f mod length b < length b" using assms(1) by (simp add: window_ok_def)
  ultimately show False using assms by (auto simp: window_ok_def)
qed

text \<open>A publisher that has a slot: its message is in the window, and the slot waits for it.\<close>

definition holds_slot ::
  "'m mmq_slot list \<Rightarrow> (nat \<times> idxts \<times> 'm) list \<Rightarrow> nat \<Rightarrow> nat \<Rightarrow> nat \<Rightarrow> ('m \<Rightarrow> 'm option \<Rightarrow> bool) \<Rightarrow> bool" where
  "holds_slot b A f p i Q \<longleftrightarrow>
     (\<exists>j us m. f \<le> j \<and> j < length A \<and> i = j mod length b \<and> A ! j = (p, us, m) \<and> sl_status (b ! i) = SlotBEING_IMPORTED \<and>
        Q m (sl_message_body (b ! i)))"

fun publisher_holds :: "'m mmq_slot list \<Rightarrow> (nat \<times> idxts \<times> 'm) list \<Rightarrow> nat \<Rightarrow> nat \<Rightarrow> 'm mmq_publisher \<Rightarrow> bool" where
  "publisher_holds b A f p (PubAllocated m i) \<longleftrightarrow> holds_slot b A f p i (\<lambda>m' body. m' = m)"
| "publisher_holds b A f p (PubCopied i) \<longleftrightarrow> holds_slot b A f p i (\<lambda>m' body. body = Some m')"
| "publisher_holds b A f p pc \<longleftrightarrow> True"

text \<open>What another thread does to another slot does not matter.\<close>

lemma publisher_holds_cong:
  assumes "publisher_holds b A f p pc" "length b' = length b"
    "\<And>j. f \<le> j \<Longrightarrow> j < length A \<Longrightarrow> fst (A ! j) = p \<Longrightarrow> sl_status (b ! (j mod length b)) = SlotBEING_IMPORTED \<Longrightarrow>
      f' \<le> j \<and> j < length A' \<and> A' ! j = A ! j \<and> b' ! (j mod length b) = b ! (j mod length b)"
  shows "publisher_holds b' A' f' p pc"
proof -
  have "holds_slot b' A' f' p i Q" if h: "holds_slot b A f p i Q" for i Q
  proof -
    obtain j us m where j: "f \<le> j" "j < length A" "i = j mod length b" "A ! j = (p, us, m)"
      "sl_status (b ! i) = SlotBEING_IMPORTED" "Q m (sl_message_body (b ! i))"
      using h unfolding holds_slot_def by blast
    then have "f' \<le> j \<and> j < length A' \<and> A' ! j = A ! j \<and> b' ! i = b ! i" using assms(3) [of j] by simp
    then show ?thesis using j assms(2) unfolding holds_slot_def by (intro exI [of _ j]) simp
  qed
  then show ?thesis using assms(1) by (cases pc) simp_all
qed

lemma publisher_holds_update:
  assumes "publisher_holds b A f p pc" "window_ok b A f" "f \<le> k" "k < length A"
    "fst (A ! k) \<noteq> p \<or> sl_status (b ! (k mod length b)) \<noteq> SlotBEING_IMPORTED"
  shows "publisher_holds (b[k mod length b := sl]) A f p pc"
proof (rule publisher_holds_cong [OF assms(1)])
  fix j assume j: "f \<le> j" "j < length A" "fst (A ! j) = p" "sl_status (b ! (j mod length b)) = SlotBEING_IMPORTED"
  then have "j mod length b \<noteq> k mod length b"
    using window_inj [of j "length b" k f] assms(2-5) by (auto simp: window_ok_def)
  then show "f \<le> j \<and> j < length A \<and> A ! j = A ! j \<and> b[k mod length b := sl] ! (j mod length b) = b ! (j mod length b)" using j by simp
qed simp

lemma publisher_holds_allocate:
  assumes "publisher_holds b A f p pc" "sl_status (b ! (length A mod length b)) = SlotFREE"
  shows "publisher_holds (b[length A mod length b := sl]) (A @ [x]) f p pc"
proof (rule publisher_holds_cong [OF assms(1)])
  fix j assume j: "f \<le> j" "j < length A" "fst (A ! j) = p" "sl_status (b ! (j mod length b)) = SlotBEING_IMPORTED"
  then have "j mod length b \<noteq> length A mod length b" using assms(2) by auto
  then show "f \<le> j \<and> j < length (A @ [x]) \<and> (A @ [x]) ! j = A ! j \<and> b[length A mod length b := sl] ! (j mod length b) = b ! (j mod length b)"
    using j by (simp add: nth_append)
qed simp

lemma publisher_holds_free:
  assumes "publisher_holds b A f p pc" "window_ok b A f" "f < length A" "sl_status (b ! (f mod length b)) \<noteq> SlotBEING_IMPORTED"
  shows "publisher_holds (b[f mod length b := sl]) A (Suc f) p pc"
proof (rule publisher_holds_cong [OF assms(1)])
  fix j assume j: "f \<le> j" "j < length A" "fst (A ! j) = p" "sl_status (b ! (j mod length b)) = SlotBEING_IMPORTED"
  then have "j mod length b \<noteq> f mod length b" "j \<noteq> f" using assms(4) by auto
  then show "Suc f \<le> j \<and> j < length A \<and> A ! j = A ! j \<and> b[f mod length b := sl] ! (j mod length b) = b ! (j mod length b)"
    using j by simp
qed simp

subsection \<open>The invariant\<close>

text \<open>How many slots were freed, and the slot that the consumer has.\<close>

fun consumer_freed :: "mmq_consumer \<Rightarrow> nat \<Rightarrow> nat" where
  "consumer_freed (ConExported t) d = d - 1"
| "consumer_freed _ d = d"

fun consumer_ok :: "'m mmq_slot list \<Rightarrow> (nat \<times> idxts \<times> 'm) list \<Rightarrow> nat \<Rightarrow> nat \<Rightarrow> mmq_consumer \<Rightarrow> bool" where
  "consumer_ok b A f d (ConWaiting t) \<longleftrightarrow> t = f mod length b"
| "consumer_ok b A f d (ConExporting t l) \<longleftrightarrow> t = f mod length b \<and> f < length A \<and> sl_status (b ! t) = SlotBEING_EXPORTED \<and>
     sl_message_body (b ! t) = Some (snd (snd (A ! f)))"
| "consumer_ok b A f d (ConExported t) \<longleftrightarrow> t = f mod length b \<and> f < length A \<and> sl_status (b ! t) = SlotBEING_EXPORTED \<and> 0 < d"
| "consumer_ok b A f d ConReturned \<longleftrightarrow> True"

definition mmq_inv :: "nat \<Rightarrow> 'm mmq_world \<Rightarrow> bool" where
  "mmq_inv n w \<longleftrightarrow>
     (let q = mw_queue w; b = mq_buffer q; A = mw_accepted w; d = length (mw_delivered w); f = consumer_freed (mw_consumer w) d in
      length b = n \<and> mq_head q = length A mod n \<and> idx_index (mq_last_idx_ts q) = length A \<and>
      map (\<lambda>x. idx_index (fst (snd x))) A = [1..<Suc (length A)] \<and>
      window_ok b A f \<and> consumer_ok b A f d (mw_consumer w) \<and> (\<forall>p. publisher_holds b A f p (mw_publisher w p)) \<and>
      d \<le> length A \<and> map (\<lambda>(m, i, l). (m, i)) (mw_delivered w) = map (\<lambda>(p, i, m). (Some m, i)) (take d A))"

lemma consumer_ok_update:
  assumes "consumer_ok b A f d c" "sl_status (b ! i) \<noteq> SlotBEING_EXPORTED"
  shows "consumer_ok (b[i := sl]) (A @ xs) f d c"
proof -
  have other: "b[i := sl] ! t = b ! t" if "sl_status (b ! t) = SlotBEING_EXPORTED" for t
    using that assms(2) by (cases "t = i") simp_all
  show ?thesis using assms(1) other by (cases c) (simp_all add: nth_append)
qed

lemma mmq_inv_start: "0 < n \<Longrightarrow> mmq_inv n (mmq_start n)"
  by (simp add: mmq_inv_def mmq_start_def MMQImpl_def window_ok_def)

lemma mmq_inv_publisher:
  "mmq_inv n w \<Longrightarrow> (\<And>b A f. publisher_holds b A f p pc) \<Longrightarrow> mmq_inv n (set_publisher p pc w)"
  by (auto simp: mmq_inv_def set_publisher_def Let_def)

lemma mmq_inv_allocate:
  assumes inv: "mmq_inv n w" and free: "head_free (mw_queue w)" and alloc: "allocate_slot us (mw_queue w) = (i, q)"
  shows "mmq_inv n (set_publisher p (PubAllocated m i) (w\<lparr>mw_queue := q, mw_accepted := mw_accepted w @ [(p, mq_last_idx_ts q, m)]\<rparr>))"
proof -
  let ?q = "mw_queue w" and ?A = "mw_accepted w" and ?d = "length (mw_delivered w)"
  let ?b = "mq_buffer (mw_queue w)" and ?f = "consumer_freed (mw_consumer w) (length (mw_delivered w))"
  have n: "length ?b = n" "mq_head ?q = length ?A mod n" "idx_index (mq_last_idx_ts ?q) = length ?A"
    "map (\<lambda>x. idx_index (fst (snd x))) ?A = [1..<Suc (length ?A)]" and win: "window_ok ?b ?A ?f"
    and con: "consumer_ok ?b ?A ?f ?d (mw_consumer w)" and pub: "\<And>p. publisher_holds ?b ?A ?f p (mw_publisher w p)"
    and del: "?d \<le> length ?A" "map (\<lambda>(m, i, l). (m, i)) (mw_delivered w) = map (\<lambda>(p, i, m). (Some m, i)) (take ?d ?A)"
    using inv by (simp_all add: mmq_inv_def Let_def)
  define last where "last = \<lparr>idx_index = length ?A + 1, idx_us = us\<rparr>"
  define sl where "sl = (?b ! (length ?A mod n))\<lparr>sl_status := SlotBEING_IMPORTED, sl_index_timestamp := last\<rparr>"
  have q: "i = length ?A mod n" "mq_buffer q = ?b[length ?A mod n := sl]" "mq_head q = Suc (length ?A) mod n" "mq_last_idx_ts q = last"
    using alloc n(1-3) by (auto simp: allocate_slot_def Let_def slot_update_def mmq_Increment_def sl_def last_def mod_Suc_eq)
  have fr: "sl_status (?b ! (length ?A mod length ?b)) = SlotFREE" using free n by (simp add: head_free_def)
  have holds: "slot_holds sl (p, last, m)" by (simp add: sl_def)
  note win' = window_allocate [OF win fr holds]
  have pub': "publisher_holds (?b[length ?A mod n := sl]) (?A @ [(p, last, m)]) ?f p' (mw_publisher w p')" for p'
    using publisher_holds_allocate [OF pub fr] n(1) by simp
  have bound: "?f \<le> length ?A" "0 < n" using win n(1) by (auto simp: window_ok_def)
  have own: "publisher_holds (?b[length ?A mod n := sl]) (?A @ [(p, last, m)]) ?f p (PubAllocated m (length ?A mod n))"
    using bound n(1) by (auto simp: holds_slot_def sl_def nth_append intro!: exI [of _ "length ?A"])
  have con': "consumer_ok (?b[length ?A mod n := sl]) (?A @ [(p, last, m)]) ?f ?d (mw_consumer w)"
    using consumer_ok_update [OF con, of "length ?A mod n" sl] fr n(1) by simp
  have "map (\<lambda>x. idx_index (fst (snd x))) (?A @ [(p, last, m)]) = [1..<Suc (length (?A @ [(p, last, m)]))]"
    using n(4) by (simp add: last_def)
  then show ?thesis
    using win'(1) con' pub' own del n q by (simp add: mmq_inv_def Let_def set_publisher_def)
qed

lemma allocation_slot:
  assumes "mmq_inv n w"
    "res = CircularBufferAllocate_drop ts (mw_queue w) \<or> res = CircularBufferAllocate now ts (mw_queue w) \<or>
     res = CircularBufferAllocate_wakeup now ts (mw_queue w)"
  shows "mmq_inv n (after_allocation p m ts res w)"
proof (cases res)
  case (AllocSlot i q)
  then obtain us where "head_free (mw_queue w)" "allocate_slot us (mw_queue w) = (i, q)"
    using assms(2) by (auto simp: CircularBufferAllocate_drop_def CircularBufferAllocate_def CircularBufferAllocate_wakeup_def
        allocate_or_wait_def split: if_splits prod.splits)
  then show ?thesis using mmq_inv_allocate [OF assms(1)] by (simp add: after_allocation_def AllocSlot)
qed (use assms(1) in \<open>simp_all add: after_allocation_def mmq_inv_publisher\<close>)

lemma mmq_inv_publisher_step:
  assumes inv: "mmq_inv n w" and step: "mmq_publisher_step now p w = Some w'"
  shows "mmq_inv n w'"
proof -
  let ?A = "mw_accepted w" and ?d = "length (mw_delivered w)"
  let ?b = "mq_buffer (mw_queue w)" and ?f = "consumer_freed (mw_consumer w) (length (mw_delivered w))"
  have n: "length ?b = n" and win: "window_ok ?b ?A ?f"
    and con: "consumer_ok ?b ?A ?f ?d (mw_consumer w)" and pub: "\<And>p. publisher_holds ?b ?A ?f p (mw_publisher w p)"
    using inv by (simp_all add: mmq_inv_def Let_def)
  have slot: "mmq_inv n (set_publisher p pc (w\<lparr>mw_queue := slot_update i g (mw_queue w)\<rparr>))"
    if h: "holds_slot ?b ?A ?f p i Q" and g: "\<And>sl. sl_status sl = SlotBEING_IMPORTED \<Longrightarrow> sl_status (g sl) \<noteq> SlotFREE \<and>
        sl_index_timestamp (g sl) = sl_index_timestamp sl \<and> (sl_status (g sl) = SlotREADY \<longrightarrow> sl_message_body (g sl) = sl_message_body sl)"
      and ready: "\<And>m sl. sl_status sl = SlotBEING_IMPORTED \<Longrightarrow> Q m (sl_message_body sl) \<Longrightarrow> sl_status (g sl) = SlotREADY \<Longrightarrow> sl_message_body sl = Some m"
      and own: "\<And>b'. length b' = length ?b \<Longrightarrow> b' ! i = g (?b ! i) \<Longrightarrow> publisher_holds b' ?A ?f p pc" for pc i g Q
  proof -
    obtain j us m where j: "?f \<le> j" "j < length ?A" "i = j mod length ?b" "?A ! j = (p, us, m)" "sl_status (?b ! i) = SlotBEING_IMPORTED"
      "Q m (sl_message_body (?b ! i))" using h unfolding holds_slot_def by blast
    have "slot_holds (?b ! i) (?A ! j)" using win j(1-3) by (simp add: window_ok_def)
    then have "slot_holds (g (?b ! i)) (?A ! j)" using g [OF j(5)] ready [OF j(5,6)] j(4) by auto
    from window_update [OF win j(1,2) this] have win': "window_ok (?b[i := g (?b ! i)]) ?A ?f" by (simp add: j(3))
    have con': "consumer_ok (?b[i := g (?b ! i)]) ?A ?f ?d (mw_consumer w)"
      using consumer_ok_update [OF con, of i "g (?b ! i)" "[]"] j(5) by simp
    have "i < length ?b" using win by (simp add: j(3) window_ok_def)
    then have pub': "publisher_holds (?b[i := g (?b ! i)]) ?A ?f p' (((mw_publisher w)(p := pc)) p')" for p'
      using own [of "?b[i := g (?b ! i)]"] publisher_holds_update [OF pub win j(1,2), of p' "g (?b ! i)"] j(3,4) by auto
    show ?thesis
      using inv win' con' pub' n by (simp add: mmq_inv_def Let_def set_publisher_def slot_update_def)
  qed
  show ?thesis
  proof (cases "mw_publisher w p")
    case (PubWaiting m ts)
    then show ?thesis using step allocation_slot [OF inv, of _ ts now] by (auto simp: mmq_publisher_step_def split: if_splits)
  next
    case (PubAllocated m i)
    have h: "holds_slot ?b ?A ?f p i (\<lambda>m' body. m' = m)" using pub [of p] by (simp add: PubAllocated)
    have "mmq_inv n (set_publisher p (PubCopied i) (w\<lparr>mw_queue := slot_update i (\<lambda>sl. sl\<lparr>sl_message_body := Some m\<rparr>) (mw_queue w)\<rparr>))"
      by (rule slot [OF h]) (use h in \<open>auto simp: holds_slot_def\<close>)
    then show ?thesis using step by (simp add: mmq_publisher_step_def PubAllocated)
  next
    case (PubCopied i)
    have h: "holds_slot ?b ?A ?f p i (\<lambda>m' body. body = Some m')" using pub [of p] by (simp add: PubCopied)
    have "mmq_inv n (set_publisher p (PubCommitted i) (w\<lparr>mw_queue := CircularBufferCommit i (mw_queue w)\<rparr>))"
      unfolding CircularBufferCommit_def by (rule slot [OF h]) simp_all
    then show ?thesis using step by (simp add: mmq_publisher_step_def PubCopied)
  next
    case (PubCommitted i)
    then show ?thesis using step mmq_inv_publisher [OF inv] by (auto simp: mmq_publisher_step_def)
  qed (use step in \<open>simp_all add: mmq_publisher_step_def\<close>)
qed

lemma mmq_inv_slot:
  assumes "mmq_inv n w" "w' = w\<lparr>mw_queue := slot_update i g (mw_queue w), mw_delivered := D, mw_consumer := c\<rparr>"
    "b = (mq_buffer (mw_queue w))[i := g (mq_buffer (mw_queue w) ! i)]" "f = consumer_freed c (length D)"
    "window_ok b (mw_accepted w) f" "consumer_ok b (mw_accepted w) f (length D) c"
    "\<And>p. publisher_holds b (mw_accepted w) f p (mw_publisher w p)" "length D \<le> length (mw_accepted w)"
    "map (\<lambda>(m, i, l). (m, i)) D = map (\<lambda>(p, i, m). (Some m, i)) (take (length D) (mw_accepted w))"
  shows "mmq_inv n w'"
  using assms(1,5-9) unfolding assms(2-4) by (auto simp: mmq_inv_def Let_def slot_update_def)

lemma mmq_inv_consumer_step:
  assumes inv: "mmq_inv n w" and step: "mmq_consumer_step w = Some w'"
  shows "mmq_inv n w'"
proof -
  define A b d f where defs: "A = mw_accepted w" "b = mq_buffer (mw_queue w)" "d = length (mw_delivered w)"
    "f = consumer_freed (mw_consumer w) (length (mw_delivered w))"
  have win: "window_ok b A f" and con: "consumer_ok b A f d (mw_consumer w)" and pub: "\<And>p. publisher_holds b A f p (mw_publisher w p)"
    and del: "d \<le> length A" "map (\<lambda>(m, i, l). (m, i)) (mw_delivered w) = map (\<lambda>(p, i, m). (Some m, i)) (take d A)"
    using inv by (simp_all add: mmq_inv_def Let_def defs)
  have pos: "f \<le> length A" using win by (simp add: window_ok_def)
  have idx: "f mod length b < length b" using win by (simp add: window_ok_def)
  have holds: "slot_holds (b ! (f mod length b)) (A ! f)" if "f < length A" using win that by (simp add: window_ok_def)
  show ?thesis
  proof (cases "mw_consumer w")
    case (ConWaiting t)
    have t: "t = f mod length b" "f = d" using con by (simp_all add: ConWaiting defs(3,4))
    show ?thesis
    proof (cases "mq_destructing (mw_queue w)")
      case True
      then have w': "w' = w\<lparr>mw_queue := slot_update 0 id (mw_queue w), mw_delivered := mw_delivered w, mw_consumer := ConReturned\<rparr>"
        using step by (simp add: mmq_consumer_step_def ConWaiting Let_def slot_update_def)
      show ?thesis
        by (rule mmq_inv_slot [OF inv w' refl refl]) (use win pub del t in \<open>simp_all add: defs [symmetric]\<close>)
    next
      case False
      then have ready: "sl_status (b ! t) = SlotREADY"
        and w': "w' = w\<lparr>mw_queue := slot_update t (\<lambda>sl. sl\<lparr>sl_status := SlotBEING_EXPORTED\<rparr>) (mw_queue w),
            mw_delivered := mw_delivered w, mw_consumer := ConExporting t (mq_last_idx_ts (mw_queue w))\<rparr>"
        using step by (simp_all add: mmq_consumer_step_def ConWaiting Let_def defs(2) split: if_splits)
      have f: "f < length A" using window_occupied [OF win pos] ready t by simp
      let ?sl = "(b ! t)\<lparr>sl_status := SlotBEING_EXPORTED\<rparr>"
      have sl: "slot_holds ?sl (A ! f)" "sl_message_body (b ! t) = Some (snd (snd (A ! f)))"
        using holds [OF f] ready t(1) by (cases "A ! f"; simp)+
      have "publisher_holds (b[t := ?sl]) A f p (mw_publisher w p)" for p
        using publisher_holds_update [OF pub win order_refl f, of p ?sl] ready t(1) by simp
      then show ?thesis
        using window_update [OF win order_refl f sl(1)] sl(2) f del t idx
        by (intro mmq_inv_slot [OF inv w' refl refl]) (simp_all add: defs [symmetric])
    qed
  next
    case (ConExporting t l)
    have f: "t = f mod length b" "f = d" "f < length A" "sl_status (b ! t) = SlotBEING_EXPORTED" "sl_message_body (b ! t) = Some (snd (snd (A ! f)))"
      using con by (auto simp: ConExporting defs(3,4))
    let ?sl = "(b ! t)\<lparr>sl_message_body := None\<rparr>" and ?x = "(sl_message_body (b ! t), sl_index_timestamp (b ! t), l)"
    have w': "w' = w\<lparr>mw_queue := slot_update t (\<lambda>sl. sl\<lparr>sl_message_body := None\<rparr>) (mw_queue w),
        mw_delivered := mw_delivered w @ [?x], mw_consumer := ConExported t\<rparr>"
      using step by (simp add: mmq_consumer_step_def ConExporting Let_def defs(2))
    have sl: "slot_holds ?sl (A ! f)" using holds [OF f(3)] f(1,4) by (cases "A ! f") simp
    have pub': "publisher_holds (b[t := ?sl]) A f p (mw_publisher w p)" for p
      using publisher_holds_update [OF pub win order_refl f(3), of p ?sl] f(1,4) by simp
    have del': "map (\<lambda>(m, i, l). (m, i)) (mw_delivered w @ [?x]) = map (\<lambda>(p, i, m). (Some m, i)) (take (Suc d) A)"
      using del f holds by (cases "A ! d") (simp add: take_Suc_conv_app_nth)
    show ?thesis
      using window_update [OF win order_refl f(3) sl] pub' del' f idx
      by (intro mmq_inv_slot [OF inv w' refl refl]) (simp_all add: defs [symmetric])
  next
    case (ConExported t)
    have f: "t = f mod length b" "Suc f = d" "f < length A" "sl_status (b ! t) = SlotBEING_EXPORTED"
      using con by (auto simp: ConExported defs(3,4))
    let ?sl = "(b ! t)\<lparr>sl_status := SlotFREE\<rparr>"
    have w': "w' = w\<lparr>mw_queue := slot_update t (\<lambda>sl. sl\<lparr>sl_status := SlotFREE\<rparr>) (mw_queue w),
        mw_delivered := mw_delivered w, mw_consumer := ConWaiting (d mod length b)\<rparr>"
      using step f(1) by (auto simp: mmq_consumer_step_def ConExported mmq_Increment_def Let_def mod_Suc_eq defs(2) f(2) [symmetric])
    have win': "window_ok (b[t := ?sl]) A d" using window_free [OF win f(3), of ?sl] f by simp
    have pub': "publisher_holds (b[t := ?sl]) A d p (mw_publisher w p)" for p
      using publisher_holds_free [OF pub win f(3), where sl = ?sl] f by simp
    show ?thesis
      using win' pub' del by (intro mmq_inv_slot [OF inv w' refl refl]) (simp_all add: defs [symmetric])
  qed (use step in \<open>simp add: mmq_consumer_step_def\<close>)
qed

lemma mmq_inv_reachable:
  assumes "mmq_reachable drop_on_overflow n w" "0 < n"
  shows "mmq_inv n w"
  using assms(1)
proof induction
  case mmq_reach_start
  then show ?case by (rule mmq_inv_start [OF assms(2)])
next
  case (mmq_reach_step w w')
  from mmq_reach_step.hyps(2) show ?case
  proof cases
    case (mmq_call p now message timestamp)
    then show ?thesis using allocation_slot [OF mmq_reach_step.IH, of _ timestamp now p message] by (cases drop_on_overflow) (simp_all add: mmq_publish_def)
  next
    case (mmq_over p i x)
    then show ?thesis using mmq_inv_publisher [OF mmq_reach_step.IH] by simp
  next
    case mmq_destroy
    then show ?thesis using mmq_reach_step.IH by (simp add: mmq_inv_def Let_def)
  qed (use mmq_reach_step.IH mmq_inv_publisher_step mmq_inv_consumer_step in blast)+
qed

text \<open>A queue that drops keeps the timestamps of what it accepts increasing.\<close>

definition times_increase :: "'m mmq_world \<Rightarrow> bool" where
  "times_increase w \<longleftrightarrow>
     (let us = map (\<lambda>x. idx_us (fst (snd x))) (mw_accepted w) in
      sorted_wrt (<) us \<and> list_all (\<lambda>u. u \<le> idx_us (mq_last_idx_ts (mw_queue w))) us) \<and>
     (\<forall>p m us. mw_publisher w p \<noteq> PubWaiting m us)"

lemma times_increase_reachable:
  "mmq_reachable True n w \<Longrightarrow> times_increase w"
proof (induction rule: mmq_reachable.induct)
  case mmq_reach_start
  then show ?case by (simp add: times_increase_def mmq_start_def Let_def)
next
  case (mmq_reach_step w w')
  from mmq_reach_step.hyps(2) show ?case
  proof cases
    case (mmq_call p now message timestamp)
    then show ?thesis
      using mmq_reach_step.IH
      by (auto simp: mmq_publish_def after_allocation_def CircularBufferAllocate_drop_def allocate_slot_def Let_def slot_update_def
          set_publisher_def times_increase_def sorted_wrt_append list_all_iff split: if_splits)
  next
    case (mmq_continue now p)
    then show ?thesis
      using mmq_reach_step.IH
      by (auto simp: mmq_publisher_step_def set_publisher_def slot_update_def CircularBufferCommit_def times_increase_def
          split: mmq_publisher.splits if_splits)
  next
    case mmq_consume
    then show ?thesis
      using mmq_reach_step.IH
      by (auto simp: mmq_consumer_step_def Let_def slot_update_def times_increase_def split: mmq_consumer.splits if_splits)
  qed (use mmq_reach_step.IH in \<open>auto simp: times_increase_def set_publisher_def split: if_splits\<close>)
qed

subsection \<open>Schedules\<close>

datatype 'm mmq_action = ActCall nat 'm microseconds | ActContinue nat | ActConsume | ActDestroy

fun mmq_act :: "bool \<Rightarrow> 'm mmq_action \<Rightarrow> 'm mmq_world \<Rightarrow> 'm mmq_world option" where
  "mmq_act drop_on_overflow (ActCall p m ts) w =
     (if mw_publisher w p = PubIdle then Some (mmq_publish drop_on_overflow 0 p m ts w) else None)"
| "mmq_act drop_on_overflow (ActContinue p) w = mmq_publisher_step 0 p w"
| "mmq_act drop_on_overflow ActConsume w = mmq_consumer_step w"
| "mmq_act drop_on_overflow ActDestroy w = Some (w\<lparr>mw_queue := (mw_queue w)\<lparr>mq_destructing := True\<rparr>\<rparr>)"

fun mmq_run :: "bool \<Rightarrow> 'm mmq_action list \<Rightarrow> 'm mmq_world \<Rightarrow> 'm mmq_world option" where
  "mmq_run drop_on_overflow [] w = Some w"
| "mmq_run drop_on_overflow (a # as) w =
     (case mmq_act drop_on_overflow a w of Some w' \<Rightarrow> mmq_run drop_on_overflow as w' | None \<Rightarrow> None)"

lemma mmq_act_step:
  assumes "mmq_act drop_on_overflow a w = Some w'"
  shows "mmq_step drop_on_overflow w w'"
proof (cases a)
  case (ActCall p m ts)
  then show ?thesis using assms mmq_call [of w p drop_on_overflow 0 m ts] by (auto split: if_splits)
next
  case ActDestroy
  then show ?thesis using assms mmq_destroy [of drop_on_overflow w] by auto
qed (use assms in \<open>auto intro: mmq_continue mmq_consume\<close>)

lemma mmq_run_reachable:
  "mmq_run drop_on_overflow as w = Some w' \<Longrightarrow> mmq_reachable drop_on_overflow n w \<Longrightarrow> mmq_reachable drop_on_overflow n w'"
proof (induction "as" arbitrary: w)
  case (Cons a "as")
  then obtain w1 where "mmq_act drop_on_overflow a w = Some w1" "mmq_run drop_on_overflow as w1 = Some w'"
    by (auto split: option.splits)
  then show ?case using Cons.IH [of w1] mmq_reach_step [OF Cons.prems(2) mmq_act_step] by blast
qed simp

definition leads_to :: "bool \<Rightarrow> nat \<Rightarrow> 'm mmq_action list \<Rightarrow> ('m mmq_world \<Rightarrow> bool) \<Rightarrow> bool" where
  "leads_to drop_on_overflow n as Q \<longleftrightarrow> (case mmq_run drop_on_overflow as (mmq_start n) of Some w \<Rightarrow> Q w | None \<Rightarrow> False)"

lemma leads_to_reachable: "leads_to drop_on_overflow n as Q \<Longrightarrow> \<exists>w. mmq_reachable drop_on_overflow n w \<and> Q w"
  by (auto simp: leads_to_def intro: mmq_run_reachable mmq_reach_start split: option.splits)

subsection \<open>The priority queue\<close>

text \<open>\<^verbatim>\<open>std::set\<close> ordered by timestamp: an entry with the timestamp of another one is not inserted.\<close>

record 'm mmpq =
  pq_queue :: "(idxts \<times> 'm) list"
  pq_last_idx_ts :: idxts
  pq_destructing :: bool

definition MMPQImpl :: "'m mmpq" where
  "MMPQImpl = \<lparr>pq_queue = [], pq_last_idx_ts = \<lparr>idx_index = 0, idx_us = -1\<rparr>, pq_destructing = False\<rparr>"

fun set_emplace :: "idxts \<times> 'm \<Rightarrow> (idxts \<times> 'm) list \<Rightarrow> (idxts \<times> 'm) list" where
  "set_emplace x [] = [x]"
| "set_emplace x (y # ys) =
     (if idx_us (fst x) < idx_us (fst y) then x # y # ys
      else if idx_us (fst y) < idx_us (fst x) then y # set_emplace x ys
      else y # ys)"

definition mmpq_PublisherPublishImpl :: "'m \<Rightarrow> microseconds \<Rightarrow> 'm mmpq \<Rightarrow> idxts \<times> 'm mmpq" where
  "mmpq_PublisherPublishImpl entry us q =
     (let last_idx_ts = (pq_last_idx_ts q)\<lparr>idx_index := idx_index (pq_last_idx_ts q) + 1\<rparr> in
      (last_idx_ts, q\<lparr>pq_last_idx_ts := last_idx_ts,
         pq_queue := set_emplace (\<lparr>idx_index = idx_index last_idx_ts, idx_us = us\<rparr>, entry) (pq_queue q)\<rparr>))"

definition mmpq_PublisherUpdateHeadImpl :: "microseconds \<Rightarrow> 'm mmpq \<Rightarrow> ss_exception + 'm mmpq" where
  "mmpq_PublisherUpdateHeadImpl us q =
     (if \<not> (us > idx_us (pq_last_idx_ts q)) then Inl (InconsistentTimestampException (idx_us (pq_last_idx_ts q) + 1) us)
      else Inr (q\<lparr>pq_last_idx_ts := (pq_last_idx_ts q)\<lparr>idx_us := us\<rparr>\<rparr>))"

text \<open>An iteration of the consumer: what it passes on; \<^const>\<open>None\<close> while it waits, or when the queue is being destroyed.\<close>

definition mmpq_consumer_step :: "'m mmpq \<Rightarrow> ((idxts \<times> 'm) \<times> 'm mmpq) option" where
  "mmpq_consumer_step q =
     (if pq_destructing q then None
      else case pq_queue q of
             x # xs \<Rightarrow> if idx_us (fst x) \<le> idx_us (pq_last_idx_ts q) then Some (x, q\<lparr>pq_queue := xs\<rparr>) else None
           | [] \<Rightarrow> None)"

lemma mmpq_consumer_step_shorter: "mmpq_consumer_step q = Some (x, q') \<Longrightarrow> length (pq_queue q') < length (pq_queue q)"
  by (auto simp: mmpq_consumer_step_def split: if_splits list.splits)

function mmpq_consume :: "'m mmpq \<Rightarrow> (idxts \<times> 'm) list \<times> 'm mmpq" where
  "mmpq_consume q =
     (case mmpq_consumer_step q of Some (x, q') \<Rightarrow> (case mmpq_consume q' of (xs, q'') \<Rightarrow> (x # xs, q'')) | None \<Rightarrow> ([], q))"
  by auto
termination
  by (relation "measure (\<lambda>q. length (pq_queue q))") (auto simp: mmpq_consumer_step_shorter)

declare mmpq_consume.simps [simp del]

lemma mmpq_consume_split:
  assumes "\<not> pq_destructing q"
  shows "mmpq_consume q = (takeWhile (\<lambda>x. idx_us (fst x) \<le> idx_us (pq_last_idx_ts q)) (pq_queue q),
    q\<lparr>pq_queue := dropWhile (\<lambda>x. idx_us (fst x) \<le> idx_us (pq_last_idx_ts q)) (pq_queue q)\<rparr>)"
  using assms
proof (induction "pq_queue q" arbitrary: q)
  case Nil
  then show ?case by (subst mmpq_consume.simps) (simp add: mmpq_consumer_step_def)
next
  case (Cons x xs)
  let ?q = "q\<lparr>pq_queue := xs\<rparr>"
  have "mmpq_consume ?q = (takeWhile (\<lambda>x. idx_us (fst x) \<le> idx_us (pq_last_idx_ts q)) xs,
      q\<lparr>pq_queue := dropWhile (\<lambda>x. idx_us (fst x) \<le> idx_us (pq_last_idx_ts q)) xs\<rparr>)"
    using Cons.hyps(1) [of ?q] Cons.prems by simp
  then show ?case
    using Cons.hyps(2) [symmetric] Cons.prems by (subst mmpq_consume.simps) (simp add: mmpq_consumer_step_def)
qed

text \<open>The entries that are kept of a sequence: the first for each timestamp.\<close>

fun keep_first :: "(idxts \<times> 'm) list \<Rightarrow> (idxts \<times> 'm) list" where
  "keep_first [] = []"
| "keep_first (x # xs) = x # keep_first (filter (\<lambda>y. idx_us (fst y) \<noteq> idx_us (fst x)) xs)"

abbreviation pq_us :: "idxts \<times> 'm \<Rightarrow> microseconds" where "pq_us x \<equiv> idx_us (fst x)"

lemma keep_first_snoc: "keep_first (xs @ [x]) = keep_first xs @ (if pq_us x \<in> pq_us ` set xs then [] else [x])"
  by (induction xs rule: keep_first.induct) auto

lemma keep_first_us: "pq_us ` set (keep_first xs) = pq_us ` set xs"
  by (induction xs rule: keep_first.induct) auto

lemma set_emplace_subset: "set (set_emplace x q) \<subseteq> insert x (set q)"
  by (induction q) auto

lemma set_emplace_us: "sorted_wrt (\<lambda>x y. pq_us x < pq_us y) q \<Longrightarrow>
  sorted_wrt (\<lambda>x y. pq_us x < pq_us y) (set_emplace x q) \<and>
  mset (set_emplace x q) = (if pq_us x \<in> pq_us ` set q then mset q else add_mset x (mset q))"
proof (induction q)
  case (Cons y q)
  have above: "pq_us x \<noteq> pq_us z" if "pq_us x \<le> pq_us y" "z \<in> set q" for z using that Cons.prems by auto
  consider "pq_us x < pq_us y" | "pq_us y < pq_us x" | "pq_us x = pq_us y" by linarith
  then show ?case
  proof cases
    case 1
    then show ?thesis using Cons.prems above by fastforce
  next
    case 2
    then show ?thesis using Cons set_emplace_subset [of x q] by auto
  qed (use Cons.prems in auto)
qed simp

lemma emplace_all:
  "sorted_wrt (\<lambda>x y. pq_us x < pq_us y) (fold set_emplace xs []) \<and> mset (fold set_emplace xs []) = mset (keep_first xs)"
proof (induction xs rule: rev_induct)
  case (snoc x xs)
  then have "pq_us ` set (fold set_emplace xs []) = pq_us ` set xs" using keep_first_us [of xs] by (metis set_mset_mset)
  then show ?case using set_emplace_us [of "fold set_emplace xs []" x] snoc by (simp add: keep_first_snoc)
qed simp

lemma short_mset: "length xs \<le> 1 \<Longrightarrow> mset xs = mset ys \<Longrightarrow> xs = ys"
  by (cases xs) (auto simp: mset_single_iff_right dest: sym)

lemma emplace_sorts: "fold set_emplace xs [] = sort_key pq_us (keep_first xs)"
proof (rule properties_for_sort_key [symmetric])
  let ?ys = "fold set_emplace xs []"
  have sorted: "sorted_wrt (\<lambda>x y. pq_us x < pq_us y) ?ys" and mset: "mset ?ys = mset (keep_first xs)" using emplace_all [of xs] by simp_all
  show "mset ?ys = mset (keep_first xs)" by (rule mset)
  show "sorted (map pq_us ?ys)" using sorted unfolding sorted_map by (rule sorted_wrt_mono_rel [rotated]) simp
  fix k
  have "length (filter (\<lambda>x. pq_us k = pq_us x) ?ys) \<le> 1"
  proof (rule ccontr)
    assume long: "\<not> ?thesis"
    have "sorted_wrt (\<lambda>x y. pq_us x < pq_us y) (filter (\<lambda>x. pq_us k = pq_us x) ?ys)" by (rule sorted_wrt_filter [OF sorted])
    from sorted_wrt_nth_less [OF this, of 0 1] long nth_mem [of 0 "filter (\<lambda>x. pq_us k = pq_us x) ?ys"]
      nth_mem [of 1 "filter (\<lambda>x. pq_us k = pq_us x) ?ys"] show False by fastforce
  qed
  moreover have "mset (filter (\<lambda>x. pq_us k = pq_us x) ?ys) = mset (filter (\<lambda>x. pq_us k = pq_us x) (keep_first xs))"
    using mset by simp
  ultimately show "filter (\<lambda>x. pq_us k = pq_us x) ?ys = filter (\<lambda>x. pq_us k = pq_us x) (keep_first xs)" by (rule short_mset)
qed

text \<open>Entries published in this order into a new queue, with their indexes.\<close>

definition mmpq_publish_all :: "(microseconds \<times> 'm) list \<Rightarrow> 'm mmpq \<Rightarrow> 'm mmpq" where
  "mmpq_publish_all es q = fold (\<lambda>(us, m) q. snd (mmpq_PublisherPublishImpl m us q)) es q"

definition pq_numbered :: "(microseconds \<times> 'm) list \<Rightarrow> (idxts \<times> 'm) list" where
  "pq_numbered es = map (\<lambda>(i, us, m). (\<lparr>idx_index = i + 1, idx_us = us\<rparr>, m)) (enumerate 0 es)"

lemma publish_all_queue:
  "mmpq_publish_all es MMPQImpl =
     \<lparr>pq_queue = fold set_emplace (pq_numbered es) [], pq_last_idx_ts = \<lparr>idx_index = length es, idx_us = -1\<rparr>, pq_destructing = False\<rparr>"
proof (induction es rule: rev_induct)
  case (snoc e es)
  obtain us m where e: "e = (us, m)" by (cases e)
  have "pq_numbered (es @ [e]) = pq_numbered es @ [(\<lparr>idx_index = length es + 1, idx_us = us\<rparr>, m)]"
    by (simp add: pq_numbered_def enumerate_append_eq e)
  then show ?case using snoc by (simp add: mmpq_publish_all_def e mmpq_PublisherPublishImpl_def Let_def)
qed (simp add: mmpq_publish_all_def pq_numbered_def MMPQImpl_def)

lemma sorted_takeWhile: "sorted (map g xs) \<Longrightarrow> takeWhile (\<lambda>x. g x \<le> h) xs = filter (\<lambda>x. g x \<le> h) xs"
  for h :: "'a :: linorder"
proof (induction xs)
  case (Cons x xs)
  moreover have "filter (\<lambda>x. g x \<le> h) xs = []" if "\<not> g x \<le> h"
    using that Cons.prems by (auto simp: filter_empty_conv)
  ultimately show ?case by simp
qed simp

subsection \<open>Properties\<close>

text \<open>
  C29: The message queue is a queue.  Under any interleaving of publishers, consumer and destruction, and for both ways to
  handle an overflow, the consumer has been called with the first messages that were accepted, in that order, each with its own
  index and timestamp; the indexes count from one without a gap; at most as many messages as there are slots are
  under way; and a queue that drops messages accepts only increasing timestamps.
\<close>

theorem mmq_delivers_in_order:
  assumes "mmq_reachable drop_on_overflow n w" "0 < n"
  shows "map (\<lambda>(m, i, l). (m, i)) (mw_delivered w) = map (\<lambda>(p, i, m). (Some m, i)) (take (length (mw_delivered w)) (mw_accepted w)) \<and>
    length (mw_delivered w) \<le> length (mw_accepted w) \<and> length (mw_accepted w) \<le> length (mw_delivered w) + n \<and>
    map (\<lambda>x. idx_index (fst (snd x))) (mw_accepted w) = [1..<Suc (length (mw_accepted w))] \<and>
    (drop_on_overflow \<longrightarrow> sorted_wrt (<) (map (\<lambda>x. idx_us (fst (snd x))) (mw_accepted w)))"
proof -
  have freed: "consumer_freed c d \<le> d" for c d by (cases c) simp_all
  have inv: "mmq_inv n w" by (rule mmq_inv_reachable [OF assms])
  then have "length (mw_accepted w) \<le> consumer_freed (mw_consumer w) (length (mw_delivered w)) + n"
    by (simp add: mmq_inv_def Let_def window_ok_def)
  then have "length (mw_accepted w) \<le> length (mw_delivered w) + n" using freed [of "mw_consumer w" "length (mw_delivered w)"] by linarith
  moreover have "drop_on_overflow \<longrightarrow> sorted_wrt (<) (map (\<lambda>x. idx_us (fst (snd x))) (mw_accepted w))"
    using times_increase_reachable [of n w] assms(1) by (auto simp: times_increase_def Let_def)
  ultimately show ?thesis using inv by (simp add: mmq_inv_def Let_def)
qed

theorem mmq_delivers_in_order_witness:
  "\<exists>w. mmq_reachable True 2 w \<and>
    map (\<lambda>(m, i, l). (m, i)) (mw_delivered w) = [(Some (7 :: nat), \<lparr>idx_index = 1, idx_us = 5\<rparr>)] \<and>
    sorted_wrt (<) (map (\<lambda>x. idx_us (fst (snd x))) (mw_accepted w)) \<and> length (mw_accepted w) = 2"
proof -
  have "leads_to True 2 [ActCall 0 (7 :: nat) 5, ActContinue 0, ActContinue 0, ActConsume, ActCall 1 8 9, ActConsume]
    (\<lambda>w. length (mw_delivered w) = 1 \<and> mw_accepted w = [(0, \<lparr>idx_index = 1, idx_us = 5\<rparr>, 7), (1, \<lparr>idx_index = 2, idx_us = 9\<rparr>, 8)])"
    by code_simp
  then obtain w where w: "mmq_reachable True 2 w" "length (mw_delivered w) = 1"
    "mw_accepted w = [(0, \<lparr>idx_index = 1, idx_us = 5\<rparr>, 7 :: nat), (1, \<lparr>idx_index = 2, idx_us = 9\<rparr>, 8)]"
    using leads_to_reachable by blast
  show ?thesis using mmq_delivers_in_order [OF w(1)] w by (intro exI [of _ w]) simp
qed

text \<open>
  C40: Races of the message queue that blocks.  A publisher reads the index it returns from its slot after it has committed the slot; when
  the slot is used again before that, it returns the index of another publisher's message.  The timestamp is checked before the
  wait for a free slot only, so two waiting publishers can be accepted with decreasing timestamps.  And a queue that
  is destroyed leaves committed messages undelivered.
\<close>

theorem mmq_blocking_races:
  "(\<exists>w. mmq_reachable False 1 w \<and> mw_publisher w 0 = PubReturned \<lparr>idx_index = 2, idx_us = 6\<rparr> \<and>
      mw_accepted w = [(0, \<lparr>idx_index = 1, idx_us = 5\<rparr>, ''a''), (1, \<lparr>idx_index = 2, idx_us = 6\<rparr>, ''b'')]) \<and>
   (\<exists>w. mmq_reachable False 1 w \<and> mw_accepted w = [(0, \<lparr>idx_index = 1, idx_us = 5\<rparr>, ''a''),
      (1, \<lparr>idx_index = 2, idx_us = 20\<rparr>, ''b''), (2, \<lparr>idx_index = 3, idx_us = 10\<rparr>, ''c'')]) \<and>
   (\<exists>w. mmq_reachable False 1 w \<and> mw_publisher w 0 = PubCommitted 0 \<and> mw_consumer w = ConReturned \<and>
      mw_accepted w = [(0, \<lparr>idx_index = 1, idx_us = 5\<rparr>, ''a'')] \<and> mw_delivered w = [])"
proof (intro conjI)
  have "leads_to False 1 [ActCall 0 ''a'' 5, ActContinue 0, ActContinue 0, ActConsume, ActConsume, ActConsume, ActCall 1 ''b'' 6, ActContinue 0]
    (\<lambda>w. mw_publisher w 0 = PubReturned \<lparr>idx_index = 2, idx_us = 6\<rparr> \<and>
      mw_accepted w = [(0, \<lparr>idx_index = 1, idx_us = 5\<rparr>, ''a''), (1, \<lparr>idx_index = 2, idx_us = 6\<rparr>, ''b'')])"
    by code_simp
  from leads_to_reachable [OF this]
  show "\<exists>w. mmq_reachable False 1 w \<and> mw_publisher w 0 = PubReturned \<lparr>idx_index = 2, idx_us = 6\<rparr> \<and>
      mw_accepted w = [(0, \<lparr>idx_index = 1, idx_us = 5\<rparr>, ''a''), (1, \<lparr>idx_index = 2, idx_us = 6\<rparr>, ''b'')]" .
  have "leads_to False 1 [ActCall 0 ''a'' 5, ActContinue 0, ActContinue 0, ActCall 1 ''b'' 20, ActCall 2 ''c'' 10,
      ActConsume, ActConsume, ActConsume, ActContinue 1, ActContinue 1, ActContinue 1, ActConsume, ActConsume, ActConsume, ActContinue 2]
    (\<lambda>w. mw_accepted w = [(0, \<lparr>idx_index = 1, idx_us = 5\<rparr>, ''a''), (1, \<lparr>idx_index = 2, idx_us = 20\<rparr>, ''b''),
      (2, \<lparr>idx_index = 3, idx_us = 10\<rparr>, ''c'')])"
    by code_simp
  from leads_to_reachable [OF this]
  show "\<exists>w. mmq_reachable False 1 w \<and> mw_accepted w = [(0, \<lparr>idx_index = 1, idx_us = 5\<rparr>, ''a''),
      (1, \<lparr>idx_index = 2, idx_us = 20\<rparr>, ''b''), (2, \<lparr>idx_index = 3, idx_us = 10\<rparr>, ''c'')]" .
  have "leads_to False 1 [ActCall 0 ''a'' 5, ActContinue 0, ActContinue 0, ActDestroy, ActConsume]
    (\<lambda>w. mw_publisher w 0 = PubCommitted 0 \<and> mw_consumer w = ConReturned \<and>
      mw_accepted w = [(0, \<lparr>idx_index = 1, idx_us = 5\<rparr>, ''a'')] \<and> mw_delivered w = [])"
    by code_simp
  from leads_to_reachable [OF this]
  show "\<exists>w. mmq_reachable False 1 w \<and> mw_publisher w 0 = PubCommitted 0 \<and> mw_consumer w = ConReturned \<and>
      mw_accepted w = [(0, \<lparr>idx_index = 1, idx_us = 5\<rparr>, ''a'')] \<and> mw_delivered w = []" .
qed

text \<open>
  C31: The priority queue sorts, and loses entries.  Of entries published in any order into a new queue, an update of the head
  to \<open>h\<close> gives the consumer exactly those up to \<open>h\<close>, sorted by timestamp, but only the first of those with equal timestamps;
  the queue has an index for each of them.
\<close>

theorem mmpq_sorts:
  assumes "0 \<le> h"
  shows "\<exists>q. mmpq_PublisherUpdateHeadImpl h (mmpq_publish_all es MMPQImpl) = Inr q \<and>
    fst (mmpq_consume q) = sort_key pq_us (filter (\<lambda>x. pq_us x \<le> h) (keep_first (pq_numbered es))) \<and>
    idx_index (pq_last_idx_ts q) = length es"
proof -
  let ?q = "\<lparr>pq_queue = fold set_emplace (pq_numbered es) [], pq_last_idx_ts = \<lparr>idx_index = length es, idx_us = h\<rparr>, pq_destructing = False\<rparr>"
  have "mmpq_PublisherUpdateHeadImpl h (mmpq_publish_all es MMPQImpl) = Inr ?q"
    using assms by (simp add: publish_all_queue mmpq_PublisherUpdateHeadImpl_def)
  moreover have "fst (mmpq_consume ?q) = sort_key pq_us (filter (\<lambda>x. pq_us x \<le> h) (keep_first (pq_numbered es)))"
    by (simp add: mmpq_consume_split emplace_sorts sorted_takeWhile filter_sort)
  ultimately show ?thesis by simp
qed

theorem mmpq_sorts_witness:
  "\<exists>q. mmpq_PublisherUpdateHeadImpl 6 (mmpq_publish_all [(5, ''a''), (3, ''b''), (5, ''c''), (9, ''d'')] MMPQImpl) = Inr q \<and>
    fst (mmpq_consume q) = [(\<lparr>idx_index = 2, idx_us = 3\<rparr>, ''b''), (\<lparr>idx_index = 1, idx_us = 5\<rparr>, ''a'')] \<and> idx_index (pq_last_idx_ts q) = 4"
  using mmpq_sorts [of 6 "[(5, ''a''), (3, ''b''), (5, ''c''), (9, ''d'')]"] by (simp add: pq_numbered_def eval_nat_numeral)

end
