(* ===== verification/CompactTsv.thy ===== *)
theory CompactTsv
  imports Prelude "HOL-Library.Sublist"
begin

text \<open>
  The packed tables of \<^verbatim>\<open>src/compact_tsv/compact_tsv.h\<close>.  The packed data is a string of bytes; numbers are written
  in little-endian order, as on the machines the code is compiled for.  \<^verbatim>\<open>CURRENT_ASSERT\<close> has no effect on the state.
  Reading outside a buffer is undefined behaviour.  Of the four dispatchers of the unpacker it is the one for rows of
  \<^verbatim>\<open>std::string\<close>.
\<close>

subsection \<open>Numbers as bytes\<close>

fun le_bytes :: "nat \<Rightarrow> nat \<Rightarrow> string" where
  "le_bytes 0 n = []"
| "le_bytes (Suc k) n = char_of (n mod 256) # le_bytes k (n div 256)"

fun le_value :: "string \<Rightarrow> nat" where
  "le_value [] = 0"
| "le_value (c # cs) = of_char c + 256 * le_value cs"

declare le_bytes.simps [simp del]

lemma length_le_bytes [simp]: "length (le_bytes k n) = k"
  by (induction k arbitrary: n) (simp_all add: le_bytes.simps)

lemma le_value_bytes: "n < 256 ^ k \<Longrightarrow> le_value (le_bytes k n) = n"
proof (induction k arbitrary: n)
  case (Suc k)
  then have "n div 256 < 256 ^ k" by (simp add: less_mult_imp_div_less mult.commute)
  then show ?case using Suc.IH by (simp add: le_bytes.simps)
qed (simp add: le_bytes.simps)

subsection \<open>Packing\<close>

record compact_tsv =
  ct_done :: bool
  ct_dim :: nat
  ct_first :: bool
  ct_current :: "string list"
  ct_data :: string
  ct_offsets :: "string \<Rightarrow> nat"

definition vector_resize :: "nat \<Rightarrow> string list \<Rightarrow> string list" where
  "vector_resize n xs = take n xs @ replicate (n - length xs) []"

definition CompactTSV :: "nat \<Rightarrow> compact_tsv" where
  "CompactTSV dim = \<lparr>ct_done = False, ct_dim = dim, ct_first = True, ct_current = replicate dim [], ct_data = [], ct_offsets = \<lambda>s. 0\<rparr>"

definition marker_row_done :: nat where "marker_row_done = 254"
definition marker_storage :: nat where "marker_storage = 255"

definition StoreString :: "string \<Rightarrow> compact_tsv \<Rightarrow> nat \<times> compact_tsv" where
  "StoreString s t =
     (let len = length s mod 2 ^ 16;
          data = ct_data t @ [char_of marker_storage];
          result = length data mod 2 ^ 32
      in (result, t\<lparr>ct_data := data @ le_bytes 2 len @ take (len + 1) (s @ [CHR 0x00])\<rparr>))"

definition GetOffsetOf :: "string \<Rightarrow> compact_tsv \<Rightarrow> nat \<times> compact_tsv" where
  "GetOffsetOf s t =
     (if ct_offsets t s = 0
      then case StoreString s t of (offset, t) \<Rightarrow> (offset, t\<lparr>ct_offsets := (ct_offsets t)(s := offset)\<rparr>)
      else (ct_offsets t s, t))"

definition pack_column :: "nat \<Rightarrow> string \<Rightarrow> compact_tsv \<Rightarrow> compact_tsv" where
  "pack_column i s t =
     (if s \<noteq> ct_current t ! i \<or> ct_first t
      then case GetOffsetOf s (t\<lparr>ct_current := (ct_current t)[i := s]\<rparr>) of
             (offset, t) \<Rightarrow> t\<lparr>ct_data := ct_data t @ le_bytes 1 i @ le_bytes 4 offset\<rparr>
      else t)"

text \<open>
  The loop over the columns; its 8-bit counter wraps.  Out of fuel the result is \<^const>\<open>None\<close>; within it \<^term>\<open>Some None\<close> is
  undefined behaviour, the access of a column that the table does not have.
\<close>

fun row_loop :: "nat \<Rightarrow> string list \<Rightarrow> nat \<Rightarrow> compact_tsv \<Rightarrow> compact_tsv option option" where
  "row_loop 0 row i t = None"
| "row_loop (Suc fuel) row i t =
     (if \<not> i < length row then Some (Some t)
      else if \<not> i < length (ct_current t) then Some None
      else row_loop fuel row ((i + 1) mod 2 ^ 8) (pack_column i (row ! i) t))"

definition pack_row :: "nat \<Rightarrow> string list \<Rightarrow> compact_tsv \<Rightarrow> compact_tsv option option" where
  "pack_row fuel row t =
     (let t = (if ct_dim t = 0 then t\<lparr>ct_dim := length row, ct_current := vector_resize (length row) (ct_current t)\<rparr> else t) in
      map_option (map_option (\<lambda>t. t\<lparr>ct_data := ct_data t @ le_bytes 1 marker_row_done, ct_first := False\<rparr>)) (row_loop fuel row 0 t))"

definition Finalize :: "compact_tsv \<Rightarrow> compact_tsv" where
  "Finalize t = t\<lparr>ct_done := True\<rparr>"

definition GetPackedString :: "compact_tsv \<Rightarrow> string" where
  "GetPackedString t = ct_data t"

fun pack_rows :: "nat \<Rightarrow> string list list \<Rightarrow> compact_tsv \<Rightarrow> compact_tsv option option" where
  "pack_rows fuel [] t = Some (Some t)"
| "pack_rows fuel (row # rows) t =
     (case pack_row fuel row t of Some (Some t) \<Rightarrow> pack_rows fuel rows t | res \<Rightarrow> res)"

subsection \<open>Unpacking\<close>

text \<open>The bytes from a position on; the dispatcher of strings, and the string at an offset.\<close>

definition read_bytes :: "string \<Rightarrow> nat \<Rightarrow> nat \<Rightarrow> string option" where
  "read_bytes data p n = (if p + n \<le> length data then Some (take n (drop p data)) else None)"

definition dispatcher_Update :: "nat \<Rightarrow> string \<Rightarrow> string list \<Rightarrow> string list" where
  "dispatcher_Update index s row =
     (let row = (if index \<ge> length row then vector_resize (index + 1) row else row) in row[index := s])"

definition string_at :: "string \<Rightarrow> nat \<Rightarrow> string option" where
  "string_at data offset =
     (case read_bytes data offset 2 of None \<Rightarrow> None | Some len \<Rightarrow> read_bytes data (offset + 2) (le_value len))"

function Unpack :: "string \<Rightarrow> nat \<Rightarrow> string list \<Rightarrow> string list list option" where
  "Unpack data p row =
     (if p = length data then Some []
      else case read_bytes data p 1 of
        None \<Rightarrow> None
      | Some c \<Rightarrow>
          if le_value c = marker_storage then
            (case read_bytes data (p + 1) 2 of None \<Rightarrow> None | Some len \<Rightarrow> Unpack data (p + 1 + 2 + le_value len + 1) row)
          else if le_value c = marker_row_done then map_option (\<lambda>rows. row # rows) (Unpack data (p + 1) row)
          else
            (case read_bytes data (p + 1) 4 of
               None \<Rightarrow> None
             | Some offset \<Rightarrow>
                 (case string_at data (le_value offset) of
                    None \<Rightarrow> None
                  | Some s \<Rightarrow> Unpack data (p + 1 + 4) (dispatcher_Update (le_value c) s row))))"
  by auto
termination
  by (relation "measure (\<lambda>(data, p, row). Suc (length data) - p)") (auto simp: read_bytes_def split: if_splits)

declare Unpack.simps [simp del]

subsection \<open>Reading what was written\<close>

lemma read_bytes_append [simp]: "n = length bs \<Longrightarrow> p = length pre \<Longrightarrow> read_bytes (pre @ bs @ post) p n = Some bs"
  by (simp add: read_bytes_def)

lemma read_bytes_prefix: "read_bytes data p n = Some bs \<Longrightarrow> prefix data full \<Longrightarrow> read_bytes full p n = Some bs"
  by (auto simp: read_bytes_def prefix_def split: if_splits)

lemma string_at_prefix:
  assumes "string_at data offset = Some s" "prefix data full"
  shows "string_at full offset = Some s"
proof -
  obtain len where "read_bytes data offset 2 = Some len" "read_bytes data (offset + 2) (le_value len) = Some s"
    using assms(1) by (auto simp: string_at_def split: option.splits)
  then show ?thesis using read_bytes_prefix [OF _ assms(2)] by (simp add: string_at_def)
qed

lemma string_at_stored:
  assumes "length s < 2 ^ 16" "offset = length pre"
  shows "string_at (pre @ le_bytes 2 (length s) @ s @ post) offset = Some s"
proof -
  have "read_bytes ((pre @ le_bytes 2 (length s)) @ s @ post) (length pre + 2) (length s) = Some s" by (rule read_bytes_append) simp_all
  then show ?thesis using assms by (simp add: string_at_def le_value_bytes)
qed

text \<open>Unpacking passes over what each operation of the packer appends.\<close>

definition byte :: "nat \<Rightarrow> string" where "byte i = le_bytes 1 i"

lemma length_byte [simp]: "length (byte i) = 1"
  by (simp add: byte_def)

lemma byte_storage: "byte marker_storage = [char_of marker_storage]"
  by (simp add: byte_def marker_storage_def le_bytes.simps)

lemma unpack_at_marker:
  assumes "full = pre @ byte i @ post" "i < 256"
  shows "Unpack full (length pre) row =
    (if i = marker_storage then
       (case read_bytes full (length pre + 1) 2 of None \<Rightarrow> None | Some len \<Rightarrow> Unpack full (length pre + 1 + 2 + le_value len + 1) row)
     else if i = marker_row_done then map_option (\<lambda>rows. row # rows) (Unpack full (length pre + 1) row)
     else
       (case read_bytes full (length pre + 1) 4 of
          None \<Rightarrow> None
        | Some offset \<Rightarrow>
            (case string_at full (le_value offset) of
               None \<Rightarrow> None
             | Some s \<Rightarrow> Unpack full (length pre + 1 + 4) (dispatcher_Update i s row))))"
proof -
  have m: "(length pre = length full) = False" "read_bytes full (length pre) 1 = Some (byte i)" "le_value (byte i) = i"
    using assms(2) by (simp_all add: assms(1) byte_def le_value_bytes del: One_nat_def)
  show ?thesis
    by (subst Unpack.simps) (simp only: m if_False option.case)
qed

lemma unpack_storage:
  assumes "prefix (pre @ [char_of marker_storage] @ le_bytes 2 (length s) @ s @ [CHR 0x00]) full" "length s < 2 ^ 16"
  shows "Unpack full (length pre) row = Unpack full (length pre + 4 + length s) row"
proof -
  obtain post where full: "full = pre @ byte marker_storage @ (le_bytes 2 (length s) @ s @ [CHR 0x00] @ post)"
    using assms(1) by (auto simp: prefix_def byte_storage)
  have "read_bytes ((pre @ byte marker_storage) @ le_bytes 2 (length s) @ s @ [CHR 0x00] @ post) (length pre + 1) 2 =
      Some (le_bytes 2 (length s))"
    by (rule read_bytes_append) simp_all
  then have len: "read_bytes full (length pre + 1) 2 = Some (le_bytes 2 (length s))" by (simp add: full)
  have v: "le_value (le_bytes 2 (length s)) = length s" using assms(2) by (intro le_value_bytes) simp
  have "length pre + 1 + 2 + length s + 1 = length pre + 4 + length s" "marker_storage < 256" by (simp_all add: marker_storage_def)
  then show ?thesis
    using len v by (simp only: unpack_at_marker [OF full] simp_thms if_True option.case)
qed

lemma unpack_row_done:
  assumes "prefix (pre @ byte marker_row_done) full"
  shows "Unpack full (length pre) row = map_option ((#) row) (Unpack full (length pre + 1) row)"
proof -
  obtain post where full: "full = pre @ byte marker_row_done @ post" using assms by (auto simp: prefix_def)
  show ?thesis
    using unpack_at_marker [OF full] by (simp add: marker_row_done_def marker_storage_def)
qed

lemma unpack_update:
  assumes "prefix (pre @ byte i @ le_bytes 4 offset) full" "i < 254" "offset < 2 ^ 32" "string_at full offset = Some s"
  shows "Unpack full (length pre) row = Unpack full (length pre + 5) (dispatcher_Update i s row)"
proof -
  obtain post where full: "full = pre @ byte i @ (le_bytes 4 offset @ post)" using assms(1) by (auto simp: prefix_def)
  have "read_bytes ((pre @ byte i) @ le_bytes 4 offset @ post) (length pre + 1) 4 = Some (le_bytes 4 offset)"
    by (rule read_bytes_append) simp_all
  then have off: "read_bytes full (length pre + 1) 4 = Some (le_bytes 4 offset)" by (simp add: full)
  have v: "le_value (le_bytes 4 offset) = offset" using assms(3) by (intro le_value_bytes) simp
  have "length pre + 1 + 4 = length pre + 5" "i < 256" "i \<noteq> marker_storage" "i \<noteq> marker_row_done"
    using assms(2) by (simp_all add: marker_row_done_def marker_storage_def)
  then show ?thesis
    using off v assms(4) by (simp only: unpack_at_marker [OF full] if_False option.case)
qed

subsection \<open>The packer and the unpacker in step\<close>

definition offsets_ok :: "compact_tsv \<Rightarrow> bool" where
  "offsets_ok t \<longleftrightarrow> (\<forall>s. ct_offsets t s \<noteq> 0 \<longrightarrow> ct_offsets t s < 2 ^ 32 \<and> string_at (ct_data t) (ct_offsets t s) = Some s)"

text \<open>What an operation appends makes the unpacker pass from one row to another.\<close>

definition carries :: "compact_tsv \<Rightarrow> compact_tsv \<Rightarrow> string list \<Rightarrow> string list \<Rightarrow> bool" where
  "carries t t' row row' \<longleftrightarrow> prefix (ct_data t) (ct_data t') \<and>
     (\<forall>full. prefix (ct_data t') full \<longrightarrow> Unpack full (length (ct_data t)) row = Unpack full (length (ct_data t')) row')"

lemma carries_trans [trans]:
  assumes "carries t t1 r r1" "carries t1 t2 r1 r2"
  shows "carries t t2 r r2"
  using assms unfolding carries_def by (metis prefix_order.trans)

lemma carries_same [simp]: "ct_data t' = ct_data t \<Longrightarrow> carries t t' row row"
  by (simp add: carries_def)

lemma GetOffsetOf_carries:
  assumes "GetOffsetOf s t = (offset, t')" "offsets_ok t" "length s < 2 ^ 16" "length (ct_data t') < 2 ^ 32"
  shows "offsets_ok t'" "carries t t' row row" "offset < 2 ^ 32" "string_at (ct_data t') offset = Some s"
    "ct_current t' = ct_current t" "ct_first t' = ct_first t" "ct_dim t' = ct_dim t"
proof -
  have "offsets_ok t' \<and> carries t t' row row \<and> offset < 2 ^ 32 \<and> string_at (ct_data t') offset = Some s \<and>
    ct_current t' = ct_current t \<and> ct_first t' = ct_first t \<and> ct_dim t' = ct_dim t"
  proof (cases "ct_offsets t s = 0")
    case False
    then show ?thesis using assms by (auto simp: GetOffsetOf_def offsets_ok_def)
  next
    case True
    define added where "added = [char_of marker_storage] @ le_bytes 2 (length s) @ s @ [CHR 0x00]"
    have t': "t' = t\<lparr>ct_data := ct_data t @ added, ct_offsets := (ct_offsets t)(s := offset)\<rparr>"
      and off: "offset = (length (ct_data t) + 1) mod 2 ^ 32"
      using assms(1,3) True by (auto simp: GetOffsetOf_def StoreString_def Let_def added_def)
    have len: "length (ct_data t') = length (ct_data t) + 4 + length s"
      by (simp add: t' added_def)
    then have off': "offset = length (ct_data t @ [char_of marker_storage])" "offset < 2 ^ 32" using off assms(4) by simp_all
    have at: "string_at (ct_data t') offset = Some s"
      using string_at_stored [OF assms(3) off'(1), of "[CHR 0x00]"] by (simp add: t' added_def)
    have pre: "prefix (ct_data t) (ct_data t')" by (simp add: t')
    have "offsets_ok t'"
      using assms(2) at off'(2) string_at_prefix [OF _ pre] unfolding offsets_ok_def by (auto simp: t')
    moreover have "carries t t' row row"
      unfolding carries_def
    proof (intro conjI allI impI pre)
      fix full assume "prefix (ct_data t') full"
      then have "prefix (ct_data t @ [char_of marker_storage] @ le_bytes 2 (length s) @ s @ [CHR 0x00]) full" by (simp add: t' added_def)
      from unpack_storage [OF this assms(3)]
      show "Unpack full (length (ct_data t)) row = Unpack full (length (ct_data t')) row" by (simp add: len)
    qed
    ultimately show ?thesis using at off' by (simp add: t')
  qed
  then show "offsets_ok t'" "carries t t' row row" "offset < 2 ^ 32" "string_at (ct_data t') offset = Some s"
    "ct_current t' = ct_current t" "ct_first t' = ct_first t" "ct_dim t' = ct_dim t" by simp_all
qed

lemma pack_column_carries:
  assumes "t' = pack_column i s t" "offsets_ok t" "length s < 2 ^ 16" "length (ct_data t') < 2 ^ 32" "i < 254"
  shows "offsets_ok t'" "ct_current t' = (ct_current t)[i := s]" "ct_first t' = ct_first t" "ct_dim t' = ct_dim t"
    "carries t t' row (if s \<noteq> ct_current t ! i \<or> ct_first t then dispatcher_Update i s row else row)"
proof -
  have "offsets_ok t' \<and> ct_current t' = (ct_current t)[i := s] \<and> ct_first t' = ct_first t \<and> ct_dim t' = ct_dim t \<and>
    carries t t' row (if s \<noteq> ct_current t ! i \<or> ct_first t then dispatcher_Update i s row else row)"
  proof (cases "s \<noteq> ct_current t ! i \<or> ct_first t")
    case False
    then show ?thesis using assms(1,2) by (simp add: pack_column_def)
  next
    case True
    define t0 where "t0 = t\<lparr>ct_current := (ct_current t)[i := s]\<rparr>"
    obtain offset t1 where g: "GetOffsetOf s t0 = (offset, t1)" by force
    have t': "t' = t1\<lparr>ct_data := ct_data t1 @ byte i @ le_bytes 4 offset\<rparr>"
      using assms(1) True g by (simp add: pack_column_def t0_def byte_def)
    have "offsets_ok t0" using assms(2) by (simp add: offsets_ok_def t0_def)
    moreover have "length (ct_data t1) < 2 ^ 32" using assms(4) by (simp add: t')
    ultimately have G: "offsets_ok t1" "carries t0 t1 row row" "offset < 2 ^ 32" "string_at (ct_data t1) offset = Some s"
      "ct_current t1 = ct_current t0" "ct_first t1 = ct_first t0" "ct_dim t1 = ct_dim t0"
      using GetOffsetOf_carries [OF g _ assms(3)] by blast+
    have pre: "prefix (ct_data t1) (ct_data t')" by (simp add: t')
    have "carries t1 t' row (dispatcher_Update i s row)"
      unfolding carries_def
    proof (intro conjI allI impI pre)
      fix full assume f: "prefix (ct_data t') full"
      then have "string_at full offset = Some s" using G(4) pre string_at_prefix prefix_order.trans by blast
      then show "Unpack full (length (ct_data t1)) row = Unpack full (length (ct_data t')) (dispatcher_Update i s row)"
        using unpack_update [of "ct_data t1" i offset full s row] f assms(5) G(3) by (simp add: t')
    qed
    moreover have "carries t t0 row row" by (simp add: t0_def)
    ultimately have "carries t t' row (dispatcher_Update i s row)" using G(2) carries_trans by blast
    moreover have "offsets_ok t'" using G(1) string_at_prefix [OF _ pre] unfolding offsets_ok_def by (auto simp: t')
    ultimately show ?thesis using True G(5-7) by (simp add: t' t0_def)
  qed
  then show "offsets_ok t'" "ct_current t' = (ct_current t)[i := s]" "ct_first t' = ct_first t" "ct_dim t' = ct_dim t"
    "carries t t' row (if s \<noteq> ct_current t ! i \<or> ct_first t then dispatcher_Update i s row else row)" by simp_all
qed

text \<open>What every column keeps, however large the data.\<close>

lemma pack_column_keeps [simp]:
  "ct_current (pack_column i s t) = (ct_current t)[i := s]" "ct_first (pack_column i s t) = ct_first t"
  "ct_dim (pack_column i s t) = ct_dim t" "ct_done (pack_column i s t) = ct_done t"
  "prefix (ct_data t) (ct_data (pack_column i s t))"
  by (auto simp: pack_column_def GetOffsetOf_def StoreString_def Let_def)

lemma row_loop_keeps:
  "row_loop fuel row i t = Some (Some t') \<Longrightarrow> prefix (ct_data t) (ct_data t')"
  by (induction fuel row i t rule: row_loop.induct)
    (auto split: if_splits intro: prefix_order.trans [OF pack_column_keeps(5)])

lemma dispatcher_append: "i < length row \<Longrightarrow> dispatcher_Update i (row ! i) (take i row) = take (Suc i) row"
  by (simp add: dispatcher_Update_def vector_resize_def take_Suc_conv_app_nth list_update_append)

lemma dispatcher_overwrite: "i < length row \<Longrightarrow> dispatcher_Update i s row = row[i := s]"
  by (simp add: dispatcher_Update_def)

text \<open>The row of the unpacker, when the packer is at a column.\<close>

definition unpacked_row :: "string list \<Rightarrow> nat \<Rightarrow> compact_tsv \<Rightarrow> string list" where
  "unpacked_row row i t = (if ct_first t then take i row else ct_current t)"

lemma take_Suc_update: "take i xs = take i row \<Longrightarrow> i < length row \<Longrightarrow> length xs = length row \<Longrightarrow>
    take (Suc i) (xs[i := row ! i]) = take (Suc i) row"
  by (simp add: take_Suc_conv_app_nth)

lemma column_row:
  assumes "i < length row" "length (ct_current t) = length row"
  shows "(if row ! i \<noteq> ct_current t ! i \<or> ct_first t then dispatcher_Update i (row ! i) (unpacked_row row i t) else unpacked_row row i t) =
    unpacked_row row (Suc i) (pack_column i (row ! i) t)"
  using assms by (auto simp: unpacked_row_def dispatcher_append dispatcher_overwrite)

definition table_ok :: "nat \<Rightarrow> compact_tsv \<Rightarrow> bool" where
  "table_ok dim t \<longleftrightarrow> length (ct_current t) = dim \<and> (length (ct_data t) < 2 ^ 32 \<longrightarrow> offsets_ok t)"

lemma pack_column_ok:
  assumes "table_ok (length row) t" "i < length row" "length row \<le> 254" "length (row ! i) < 2 ^ 16"
    "length (ct_data (pack_column i (row ! i) t)) < 2 ^ 32"
  shows "offsets_ok (pack_column i (row ! i) t)"
    "carries t (pack_column i (row ! i) t) (unpacked_row row i t) (unpacked_row row (Suc i) (pack_column i (row ! i) t))"
proof -
  have "length (ct_data t) < 2 ^ 32"
    using prefix_length_le [OF pack_column_keeps(5), of t i "row ! i"] assms(5) by simp
  then have ok: "offsets_ok t" using assms(1) by (simp add: table_ok_def)
  have "i < 254" using assms(2,3) by simp
  note c = pack_column_carries [OF refl ok assms(4,5) this]
  show "offsets_ok (pack_column i (row ! i) t)" by (rule c)
  show "carries t (pack_column i (row ! i) t) (unpacked_row row i t) (unpacked_row row (Suc i) (pack_column i (row ! i) t))"
    using c(5) [of "unpacked_row row i t"] column_row [of i row t] assms(1,2) by (simp only: table_ok_def)
qed

lemma row_loop_carries:
  assumes "table_ok (length row) t" "i \<le> length row" "length row \<le> 254" "\<forall>s \<in> set row. length s < 2 ^ 16"
    "take i (ct_current t) = take i row" "length row - i < fuel"
  shows "\<exists>t'. row_loop fuel row i t = Some (Some t') \<and> table_ok (length row) t' \<and> ct_current t' = row \<and> ct_first t' = ct_first t \<and>
    ct_dim t' = ct_dim t \<and> (length (ct_data t') < 2 ^ 32 \<longrightarrow> carries t t' (unpacked_row row i t) (unpacked_row row (length row) t'))"
  using assms
proof (induction fuel arbitrary: i t)
  case (Suc fuel)
  show ?case
  proof (cases "i < length row")
    case False
    then show ?thesis using Suc.prems by (auto simp: table_ok_def)
  next
    case True
    define t1 where "t1 = pack_column i (row ! i) t"
    have s: "length (row ! i) < 2 ^ 16" using Suc.prems(4) True by simp
    have ok: "table_ok (length row) t1"
      using pack_column_ok(1) [OF Suc.prems(1) True Suc.prems(3) s] Suc.prems(1) by (simp add: table_ok_def t1_def)
    have "take (Suc i) (ct_current t1) = take (Suc i) row"
      unfolding t1_def pack_column_keeps using Suc.prems(1,5) True by (intro take_Suc_update) (simp_all add: table_ok_def)
    moreover have "length row - Suc i < fuel" "Suc i \<le> length row" using Suc.prems(6) True by simp_all
    ultimately obtain t' where t': "row_loop fuel row (Suc i) t1 = Some (Some t')" "table_ok (length row) t'" "ct_current t' = row"
      "ct_first t' = ct_first t1" "ct_dim t' = ct_dim t1"
      "length (ct_data t') < 2 ^ 32 \<longrightarrow> carries t1 t' (unpacked_row row (Suc i) t1) (unpacked_row row (length row) t')"
      using Suc.IH [OF ok _ Suc.prems(3,4)] by blast
    have "carries t t' (unpacked_row row i t) (unpacked_row row (length row) t')" if small: "length (ct_data t') < 2 ^ 32"
    proof -
      have "length (ct_data t1) < 2 ^ 32" using prefix_length_le [OF row_loop_keeps [OF t'(1)]] small by simp
      then show ?thesis
        using pack_column_ok(2) [OF Suc.prems(1) True Suc.prems(3) s] t'(6) small carries_trans unfolding t1_def by blast
    qed
    moreover have "row_loop (Suc fuel) row i t = Some (Some t')"
      using True Suc.prems(1,3) t'(1) by (simp add: table_ok_def t1_def)
    ultimately show ?thesis using t' by (intro exI [of _ t']) (simp add: t1_def)
  qed
qed simp

text \<open>A table that takes rows of this length: a new one, or one that has rows of it.\<close>

definition takes_rows :: "nat \<Rightarrow> compact_tsv \<Rightarrow> bool" where
  "takes_rows dim t \<longleftrightarrow> (ct_dim t = 0 \<and> ct_current t = [] \<and> ct_first t \<or> ct_dim t = dim \<and> length (ct_current t) = dim) \<and>
     (length (ct_data t) < 2 ^ 32 \<longrightarrow> offsets_ok t)"

lemma takes_rows_new: "dim = 0 \<or> dim = n \<Longrightarrow> takes_rows n (CompactTSV dim)"
  by (auto simp: takes_rows_def CompactTSV_def offsets_ok_def)

definition previous_row :: "compact_tsv \<Rightarrow> string list" where
  "previous_row t = (if ct_first t then [] else ct_current t)"

lemma pack_row_carries:
  assumes "takes_rows (length row) t" "0 < length row" "length row \<le> 254" "\<forall>s \<in> set row. length s < 2 ^ 16" "length row < fuel"
  shows "\<exists>t'. pack_row fuel row t = Some (Some t') \<and> takes_rows (length row) t' \<and> previous_row t' = row \<and> prefix (ct_data t) (ct_data t') \<and>
    (length (ct_data t') < 2 ^ 32 \<longrightarrow> (\<forall>full. prefix (ct_data t') full \<longrightarrow>
       Unpack full (length (ct_data t)) (previous_row t) = map_option ((#) row) (Unpack full (length (ct_data t')) row)))"
proof -
  define t0 where "t0 = (if ct_dim t = 0 then t\<lparr>ct_dim := length row, ct_current := vector_resize (length row) (ct_current t)\<rparr> else t)"
  have "table_ok (length row) t0" "ct_dim t0 = length row" "ct_data t0 = ct_data t" "unpacked_row row 0 t0 = previous_row t"
    using assms(1) by (auto simp: t0_def takes_rows_def table_ok_def offsets_ok_def vector_resize_def unpacked_row_def previous_row_def)
  note t0 = this
  have "unpacked_row row (length row) t1 = row" if "ct_current t1 = row" for t1 using that by (simp add: unpacked_row_def)
  then obtain t1 where t1: "row_loop fuel row 0 t0 = Some (Some t1)" "table_ok (length row) t1" "ct_current t1 = row" "ct_dim t1 = length row"
    "length (ct_data t1) < 2 ^ 32 \<longrightarrow> carries t0 t1 (previous_row t) row"
    using row_loop_carries [OF t0(1) le0 assms(3,4), of fuel] assms(5) t0(2,4) by (metis diff_zero take0)
  define t' where "t' = t1\<lparr>ct_data := ct_data t1 @ byte marker_row_done, ct_first := False\<rparr>"
  have p: "pack_row fuel row t = Some (Some t')" using t1(1) by (simp add: pack_row_def t0_def t'_def byte_def)
  have pre: "prefix (ct_data t) (ct_data t1)" "prefix (ct_data t1) (ct_data t')"
    using row_loop_keeps [OF t1(1)] t0(3) by (simp_all add: t'_def)
  have "takes_rows (length row) t'"
    using t1(2-4) string_at_prefix [OF _ pre(2)] prefix_length_le [OF pre(2)]
    by (auto simp: takes_rows_def table_ok_def offsets_ok_def t'_def)
  moreover have "Unpack full (length (ct_data t)) (previous_row t) = map_option ((#) row) (Unpack full (length (ct_data t')) row)"
    if small: "length (ct_data t') < 2 ^ 32" and full: "prefix (ct_data t') full" for full
  proof -
    have "length (ct_data t1) < 2 ^ 32" "prefix (ct_data t1) full"
      using small prefix_length_le [OF pre(2)] prefix_order.trans [OF pre(2) full] by simp_all
    then have "Unpack full (length (ct_data t)) (previous_row t) = Unpack full (length (ct_data t1)) row"
      using t1(5) t0(3) by (simp add: carries_def)
    also have "\<dots> = map_option ((#) row) (Unpack full (length (ct_data t1) + 1) row)"
      using full by (intro unpack_row_done) (simp add: t'_def)
    finally show ?thesis by (simp add: t'_def)
  qed
  ultimately show ?thesis
    using p prefix_order.trans [OF pre] t1(3) by (auto simp: previous_row_def t'_def)
qed

lemma pack_rows_carries:
  assumes "takes_rows n t" "0 < n" "n \<le> 254" "\<forall>row \<in> set rows. length row = n \<and> (\<forall>s \<in> set row. length s < 2 ^ 16)" "n < fuel"
  shows "\<exists>t'. pack_rows fuel rows t = Some (Some t') \<and> prefix (ct_data t) (ct_data t') \<and>
    (length (ct_data t') < 2 ^ 32 \<longrightarrow> (\<forall>full. prefix (ct_data t') full \<longrightarrow>
       Unpack full (length (ct_data t)) (previous_row t) = map_option ((@) rows) (Unpack full (length (ct_data t')) (previous_row t'))))"
  using assms
proof (induction rows arbitrary: t)
  case Nil
  then show ?case by (simp add: option.map_id [unfolded id_def])
next
  case (Cons row rows)
  then have n: "length row = n" by simp
  obtain t1 where t1: "pack_row fuel row t = Some (Some t1)" "takes_rows n t1" "previous_row t1 = row" "prefix (ct_data t) (ct_data t1)"
    "length (ct_data t1) < 2 ^ 32 \<longrightarrow> (\<forall>full. prefix (ct_data t1) full \<longrightarrow>
       Unpack full (length (ct_data t)) (previous_row t) = map_option ((#) row) (Unpack full (length (ct_data t1)) row))"
    using pack_row_carries [of row t fuel] Cons.prems n by auto
  obtain t' where t': "pack_rows fuel rows t1 = Some (Some t')" "prefix (ct_data t1) (ct_data t')"
    "length (ct_data t') < 2 ^ 32 \<longrightarrow> (\<forall>full. prefix (ct_data t') full \<longrightarrow>
       Unpack full (length (ct_data t1)) row = map_option ((@) rows) (Unpack full (length (ct_data t')) (previous_row t')))"
    using Cons.IH [OF t1(2)] Cons.prems t1(3) by auto
  have "Unpack full (length (ct_data t)) (previous_row t) =
      map_option ((@) (row # rows)) (Unpack full (length (ct_data t')) (previous_row t'))"
    if "length (ct_data t') < 2 ^ 32" "prefix (ct_data t') full" for full
  proof -
    have "length (ct_data t1) < 2 ^ 32" "prefix (ct_data t1) full"
      using that prefix_length_le [OF t'(2)] prefix_order.trans [OF t'(2)] by simp_all
    moreover have "map_option ((#) row) (map_option ((@) rows) x) = map_option ((@) (row # rows)) x" for x by (cases x) simp_all
    ultimately show ?thesis using t1(5) t'(3) that by simp
  qed
  then show ?case using t1(1) t'(1) prefix_order.trans [OF t1(4) t'(2)] by (intro exI [of _ t']) (simp del: append_Cons)
qed

lemma Unpack_end [simp]: "Unpack data (length data) row = Some []"
  by (subst Unpack.simps) simp

subsection \<open>When the loop over the columns ends\<close>

lemma row_loop_ends:
  assumes "length row < 2 ^ 8 \<or> length (ct_current t) < 2 ^ 8" "i < 2 ^ 8" "2 ^ 8 - i < fuel"
  shows "row_loop fuel row i t \<noteq> None"
  using assms
proof (induction fuel row i t rule: row_loop.induct)
  case (2 fuel row i t)
  show ?case
  proof (cases "i < length row \<and> i < length (ct_current t)")
    case True
    then have "Suc i < 2 ^ 8" using "2.prems"(1,2) by (cases "Suc i = 2 ^ 8") auto
    then show ?thesis using "2.IH" "2.prems" True by simp
  qed auto
qed simp

lemma row_loop_endless:
  assumes "2 ^ 8 \<le> length row" "2 ^ 8 \<le> length (ct_current t)" "i < 2 ^ 8"
  shows "row_loop fuel row i t = None"
  using assms
proof (induction fuel row i t rule: row_loop.induct)
  case (2 fuel row i t)
  then show ?case by simp
qed simp

text \<open>
  C30: Rows of one length up to 254, of strings shorter than 64K, packed into a new table (which may know the number of columns) and
  unpacked, are the same rows in the same order, as long as the packed data is smaller than 4G.
\<close>

theorem compact_tsv_roundtrip:
  assumes "0 < n" "n \<le> 254" "\<forall>row \<in> set rows. length row = n \<and> (\<forall>s \<in> set row. length s < 2 ^ 16)" "dim = 0 \<or> dim = n" "n < fuel"
  shows "\<exists>t. pack_rows fuel rows (CompactTSV dim) = Some (Some t) \<and>
    (length (GetPackedString (Finalize t)) < 2 ^ 32 \<longrightarrow> Unpack (GetPackedString (Finalize t)) 0 [] = Some rows)"
proof -
  obtain t where "pack_rows fuel rows (CompactTSV dim) = Some (Some t)"
    "length (ct_data t) < 2 ^ 32 \<longrightarrow> Unpack (ct_data t) 0 [] = map_option ((@) rows) (Unpack (ct_data t) (length (ct_data t)) (previous_row t))"
    using pack_rows_carries [OF takes_rows_new [OF assms(4)] assms(1-3,5)] by (auto simp: CompactTSV_def previous_row_def)
  then show ?thesis by (auto simp: GetPackedString_def Finalize_def)
qed

theorem compact_tsv_roundtrip_witness:
  "\<exists>t. pack_rows (Suc (Suc (Suc 0))) [[''a'', ''b''], [''b'', ''b'']] (CompactTSV 0) = Some (Some t) \<and>
    length (GetPackedString (Finalize t)) < 2 ^ 32 \<and> Unpack (GetPackedString (Finalize t)) 0 [] = Some [[''a'', ''b''], [''b'', ''b'']]"
proof -
  have h: "\<forall>row \<in> set [[''a'', ''b''], [''b'', ''b'']]. length row = 2 \<and> (\<forall>s \<in> set row. length s < 2 ^ 16)" by simp
  obtain t where t: "pack_rows (Suc (Suc (Suc 0))) [[''a'', ''b''], [''b'', ''b'']] (CompactTSV 0) = Some (Some t)"
    "length (GetPackedString (Finalize t)) < 2 ^ 32 \<longrightarrow> Unpack (GetPackedString (Finalize t)) 0 [] = Some [[''a'', ''b''], [''b'', ''b'']]"
    using compact_tsv_roundtrip [OF _ _ h, of 0 "Suc (Suc (Suc 0))"] by force
  have "map_option (map_option (\<lambda>t. length (ct_data t)))
      (pack_rows (Suc (Suc (Suc 0))) [[''a'', ''b''], [''b'', ''b'']] (CompactTSV 0)) = Some (Some 27)"
    by (simp add: pack_row_def CompactTSV_def vector_resize_def pack_column_def GetOffsetOf_def StoreString_def Let_def)
  then have "length (GetPackedString (Finalize t)) = 27" using t(1) by (simp add: GetPackedString_def Finalize_def)
  then show ?thesis using t by auto
qed

text \<open>
  C32: Packing a row comes to an end, with fuel for 256 columns, exactly if the row has less than 256 columns, or the table was made for
  less than 256, where the access past the columns of the table is undefined; otherwise the 8-bit counter of the columns
  wraps and the loop goes on for ever, with any fuel.
\<close>

theorem pack_row_ends:
  "((\<exists>fuel. pack_row fuel row t \<noteq> None) \<longleftrightarrow> length row < 2 ^ 8 \<or> ct_dim t \<noteq> 0 \<and> length (ct_current t) < 2 ^ 8) \<and>
   (pack_row 257 row t \<noteq> None \<longleftrightarrow> length row < 2 ^ 8 \<or> ct_dim t \<noteq> 0 \<and> length (ct_current t) < 2 ^ 8)"
proof -
  define t0 where "t0 = (if ct_dim t = 0 then t\<lparr>ct_dim := length row, ct_current := vector_resize (length row) (ct_current t)\<rparr> else t)"
  have p: "pack_row fuel row t = None \<longleftrightarrow> row_loop fuel row 0 t0 = None" for fuel by (simp add: pack_row_def t0_def)
  have c: "length row < 2 ^ 8 \<or> length (ct_current t0) < 2 ^ 8 \<longleftrightarrow> length row < 2 ^ 8 \<or> ct_dim t \<noteq> 0 \<and> length (ct_current t) < 2 ^ 8"
    by (auto simp: t0_def vector_resize_def)
  show ?thesis
  proof (cases "length row < 2 ^ 8 \<or> length (ct_current t0) < 2 ^ 8")
    case True
    then have "pack_row 257 row t \<noteq> None" using row_loop_ends [OF True, of 0 257] p by simp
    then show ?thesis using True c by blast
  next
    case False
    then show ?thesis using row_loop_endless [of row t0 0] p c by auto
  qed
qed

end
