(* ===== verification/Base64.thy ===== *)
theory Base64
  imports Strings
begin

text \<open>
  Base64 of \<^verbatim>\<open>src/bricks/util/base64.h\<close>, canonical and for URLs.  The 16-bit buffer of both loops is a number below \<open>2 ^ 16\<close>,
  wherever it is assigned; a shift of it is not truncated before it is masked.  Strings are strings of bytes.
\<close>

datatype EncodingType = EncodingCanonical | EncodingURL

definition encode_map :: string where
  "encode_map = ''ABCDEFGHIJKLMNOPQRSTUVWXYZabcdefghijklmnopqrstuvwxyz0123456789+/''"

definition url_encode_map :: string where
  "url_encode_map = ''ABCDEFGHIJKLMNOPQRSTUVWXYZabcdefghijklmnopqrstuvwxyz0123456789-_''"

definition pad_char :: char where "pad_char = CHR ''=''"

definition decode_map :: "nat list" where
  "decode_map = [
  255, 255, 255, 255, 255, 255, 255, 255, 255, 255, 255, 255, 255, 255, 255, 255,
  255, 255, 255, 255, 255, 255, 255, 255, 255, 255, 255, 255, 255, 255, 255, 255,
  255, 255, 255, 255, 255, 255, 255, 255, 255, 255, 255, 62,  255, 62,  255, 63,
  52,  53,  54,  55,  56,  57,  58,  59,  60,  61,  255, 255, 0,   255, 255, 255,
  255, 0,   1,   2,   3,   4,   5,   6,   7,   8,   9,   10,  11,  12,  13,  14,
  15,  16,  17,  18,  19,  20,  21,  22,  23,  24,  25,  255, 255, 255, 255, 63,
  255, 26,  27,  28,  29,  30,  31,  32,  33,  34,  35,  36,  37,  38,  39,  40,
  41,  42,  43,  44,  45,  46,  47,  48,  49,  50,  51,  255, 255, 255, 255, 255]"

definition map_of_type :: "EncodingType \<Rightarrow> string" where
  "map_of_type ty = (if ty = EncodingCanonical then encode_map else url_encode_map)"

subsection \<open>Encoding\<close>

text \<open>The inner loop: the characters it writes, and the number of bits it leaves.\<close>

fun encode_bits :: "string \<Rightarrow> nat \<Rightarrow> nat \<Rightarrow> string \<times> nat" where
  "encode_bits m buf nbits =
     (if 6 \<le> nbits
      then case encode_bits m buf (nbits - 6) of (cs, n) \<Rightarrow> (m ! (buf div 2 ^ (nbits - 6) mod 64) # cs, n)
      else ([], nbits))"

declare encode_bits.simps [simp del]

fun encode_loop :: "string \<Rightarrow> nat \<Rightarrow> nat \<Rightarrow> string \<Rightarrow> string" where
  "encode_loop m buf nbits [] = (if 0 < nbits then [m ! (buf * 64 div 2 ^ nbits mod 64)] else [])"
| "encode_loop m buf nbits (c # cs) =
     (let buf = (buf * 256 + of_char c) mod 2 ^ 16 in
      case encode_bits m buf (nbits + 8) of (written, nbits) \<Rightarrow> written @ encode_loop m buf nbits cs)"

text \<open>Writing past the end of the result would be undefined behaviour.\<close>

definition EncodeInto :: "EncodingType \<Rightarrow> string \<Rightarrow> string option" where
  "EncodeInto ty input =
     (let result_size = 4 * (length input div 3) + (if length input mod 3 \<noteq> 0 then 4 else 0);
          written = encode_loop (map_of_type ty) 0 0 input
      in if length written \<le> result_size then Some (written @ replicate (result_size - length written) pad_char) else None)"

subsection \<open>Decoding\<close>

definition IsValidChar :: "EncodingType \<Rightarrow> char \<Rightarrow> bool" where
  "IsValidChar ty c \<longleftrightarrow> isalnum c \<or> ty = EncodingCanonical \<and> (c = CHR ''+'' \<or> c = CHR ''/'') \<or> ty = EncodingURL \<and> (c = CHR ''-'' \<or> c = CHR ''_'')"

text \<open>
  Undefined behaviour: \<^verbatim>\<open>isalnum\<close> of a negative character, or an index past the table; or writing past the end of the output.
  \<open>debug\<close> is a build without \<^verbatim>\<open>NDEBUG\<close>.
\<close>

datatype decode_result = Decoded string | Base64DecodeException | DecodeUndefined

fun decode_loop :: "bool \<Rightarrow> EncodingType \<Rightarrow> nat \<Rightarrow> nat \<Rightarrow> nat \<Rightarrow> string \<Rightarrow> string \<Rightarrow> decode_result" where
  "decode_loop debug ty size_out buf nbits out [] = Decoded (out @ replicate (size_out - length out) (CHR 0x00))"
| "decode_loop debug ty size_out buf nbits out (c # cs) =
     (if c = pad_char then Decoded out
      else if 128 \<le> (of_char c :: nat) then DecodeUndefined
      else if debug \<and> \<not> IsValidChar ty c then Base64DecodeException
      else
        let buf = (buf * 64 + decode_map ! of_char c) mod 2 ^ 16 in
        if 8 \<le> nbits + 6
        then if length out < size_out
             then decode_loop debug ty size_out buf (nbits + 6 - 8) (out @ [char_of (buf div 2 ^ (nbits + 6 - 8) mod 256)]) cs
             else DecodeUndefined
        else decode_loop debug ty size_out buf (nbits + 6) out cs)"

definition DecodeInto :: "bool \<Rightarrow> EncodingType \<Rightarrow> string \<Rightarrow> decode_result" where
  "DecodeInto debug ty input = decode_loop debug ty (3 * length input div 4) 0 0 [] input"

subsection \<open>Sextets\<close>

abbreviation byte_of :: "char \<Rightarrow> nat" where "byte_of c \<equiv> of_char c"

lemma byte_less: "byte_of c < 256"
  using nat_of_char_less_256 [of c] by simp

lemma low_bits: "0 < k \<Longrightarrow> m dvd n \<Longrightarrow> x mod (k * n) div k mod m = x div k mod (m :: nat)"
  by (simp add: mod_mult2_eq mod_mod_cancel)

lemma shift_join: "0 < k \<Longrightarrow> (x * (n * k) + a) div k = x * n + a div (k :: nat)"
  using div_mult_self3 [of k "x * n" a] by (simp add: mult.assoc)

lemma mod_join: "r < n \<Longrightarrow> (x * n + r) mod (n * m) = x mod m * n + (r :: nat)"
  by (simp add: mod_mult2_eq)

lemma mod_low: "m dvd w \<Longrightarrow> m dvd n \<Longrightarrow> (x * n + a) mod w mod m = a mod (m :: nat)"
  by (metis dvd_mult mod_mod_cancel mod_add_left_eq mod_0_imp_dvd dvd_imp_mod_0 add_0)

lemma sextets:
  assumes "a < 256"
  shows "(buf * 256 + a) mod 65536 div 4 mod 64 = a div (4 :: nat)"
    "(buf * 256 + a) mod 65536 div 16 mod 64 = buf mod 4 * 16 + a div 16"
    "(buf * 256 + a) mod 65536 div 64 mod 64 = buf mod 16 * 4 + a div 64"
    "(buf * 256 + a) mod 65536 mod 64 = a mod 64"
proof -
  have d: "a div 4 < 64" "a div 16 < 16" "a div 64 < 4" using assms by simp_all
  show "(buf * 256 + a) mod 65536 div 4 mod 64 = a div 4"
    using low_bits [of 4 64 16384 "buf * 256 + a"] shift_join [of 4 buf 64 a] mod_join [OF d(1), of buf 1] by simp
  show "(buf * 256 + a) mod 65536 div 16 mod 64 = buf mod 4 * 16 + a div 16"
    using low_bits [of 16 64 4096 "buf * 256 + a"] shift_join [of 16 buf 16 a] mod_join [OF d(2), of buf 4] by simp
  show "(buf * 256 + a) mod 65536 div 64 mod 64 = buf mod 16 * 4 + a div 64"
    using low_bits [of 64 64 1024 "buf * 256 + a"] shift_join [of 64 buf 4 a] mod_join [OF d(3), of buf 16] by simp
  show "(buf * 256 + a) mod 65536 mod 64 = a mod 64" by (rule mod_low) simp_all
qed

lemma rest_bits:
  "(buf * 256 + a) mod 65536 mod 4 = a mod (4 :: nat)" "(buf * 256 + a) mod 65536 mod 16 = a mod (16 :: nat)"
  by (rule mod_low; simp)+

text \<open>A step of the encoder, by the number of bits that are left.\<close>

lemma encode_0: "\<exists>buf'. encode_loop m buf 0 (a # cs) = m ! (byte_of a div 4) # encode_loop m buf' 2 cs \<and> buf' mod 4 = byte_of a mod 4"
  by (auto simp: encode_bits.simps Let_def sextets byte_less rest_bits intro!: exI [of _ "(buf * 256 + byte_of a) mod 65536"])

lemma encode_2: "\<exists>buf'. encode_loop m buf 2 (a # cs) = m ! (buf mod 4 * 16 + byte_of a div 16) # encode_loop m buf' 4 cs \<and> buf' mod 16 = byte_of a mod 16"
  by (auto simp: encode_bits.simps Let_def sextets byte_less rest_bits intro!: exI [of _ "(buf * 256 + byte_of a) mod 65536"])

lemma encode_4: "\<exists>buf'. encode_loop m buf 4 (a # cs) = m ! (buf mod 16 * 4 + byte_of a div 64) # m ! (byte_of a mod 64) # encode_loop m buf' 0 cs"
  by (auto simp: encode_bits.simps Let_def sextets byte_less intro!: exI [of _ "(buf * 256 + byte_of a) mod 65536"])

lemma encode_end: "encode_loop m buf 0 [] = []" "encode_loop m buf 2 [] = [m ! (buf mod 4 * 16)]" "encode_loop m buf 4 [] = [m ! (buf mod 16 * 4)]"
proof -
  have "buf * 64 div 4 = buf * 16" "buf * 64 div 16 = buf * 4" by simp_all
  then show "encode_loop m buf 0 [] = []" "encode_loop m buf 2 [] = [m ! (buf mod 4 * 16)]" "encode_loop m buf 4 [] = [m ! (buf mod 16 * 4)]"
    using mod_join [of 0 16 buf 4] mod_join [of 0 4 buf 16] by (simp_all add: mult.commute [of _ buf])
qed

declare encode_loop.simps [simp del]

text \<open>The sextets of a string, three bytes at a time.\<close>

fun sextets_of :: "string \<Rightarrow> nat list" where
  "sextets_of [] = []"
| "sextets_of [a] = [byte_of a div 4, byte_of a mod 4 * 16]"
| "sextets_of [a, b] = [byte_of a div 4, byte_of a mod 4 * 16 + byte_of b div 16, byte_of b mod 16 * 4]"
| "sextets_of (a # b # c # cs) =
     (byte_of a div 4) # (byte_of a mod 4 * 16 + byte_of b div 16) # (byte_of b mod 16 * 4 + byte_of c div 64) # (byte_of c mod 64) # sextets_of cs"

lemma encode_is_sextets: "encode_loop m buf 0 input = map ((!) m) (sextets_of input)"
proof (induction input arbitrary: buf rule: sextets_of.induct)
  case (2 a)
  then show ?case using encode_0 [of m buf a "[]"] by (auto simp: encode_end)
next
  case (3 a b)
  obtain buf1 where "encode_loop m buf 0 [a, b] = m ! (byte_of a div 4) # encode_loop m buf1 2 [b]" "buf1 mod 4 = byte_of a mod 4"
    using encode_0 by blast
  then show ?case using encode_2 [of m buf1 b "[]"] by (auto simp: encode_end)
next
  case (4 a b c cs)
  obtain buf1 where 1: "encode_loop m buf 0 (a # b # c # cs) = m ! (byte_of a div 4) # encode_loop m buf1 2 (b # c # cs)"
    "buf1 mod 4 = byte_of a mod 4" using encode_0 by blast
  obtain buf2 where 2: "encode_loop m buf1 2 (b # c # cs) = m ! (buf1 mod 4 * 16 + byte_of b div 16) # encode_loop m buf2 4 (c # cs)"
    "buf2 mod 16 = byte_of b mod 16" using encode_2 by blast
  obtain buf3 where 3: "encode_loop m buf2 4 (c # cs) = m ! (buf2 mod 16 * 4 + byte_of c div 64) # m ! (byte_of c mod 64) # encode_loop m buf3 0 cs"
    using encode_4 by blast
  show ?case using 1 2 3 "4.IH" by simp
qed (simp add: encode_end)

lemma length_sextets: "length (sextets_of input) = 4 * (length input div 3) + (if length input mod 3 = 0 then 0 else length input mod 3 + 1)"
proof (induction input rule: sextets_of.induct)
  case (4 a b c cs)
  have "length (a # b # c # cs) = length cs + 3" by simp
  then have "length (a # b # c # cs) div 3 = length cs div 3 + 1" "length (a # b # c # cs) mod 3 = length cs mod 3"
    by (simp_all only: div_add_self2 mod_add_self2 zero_neq_numeral [symmetric] not_False_eq_True)
  then show ?case using "4.IH" by simp
qed simp_all

text \<open>The tables are inverse to each other.\<close>

lemma upt_64: "[0..<64] = [0, Suc 0, 2, 3, 4, 5, 6, 7, 8, 9, 10, 11, 12, 13, 14, 15, 16, 17, 18, 19, 20, 21, 22, 23, 24, 25, 26, 27, 28, 29, 30,
    31, 32, 33, 34, 35, 36, 37, 38, 39, 40, 41, 42, 43, 44, 45, 46, 47, 48, 49, 50, 51, 52, 53, 54, 55, 56, 57, 58, 59, 60,
    61, 62, 63]"
  by code_simp

lemma decoded_alphabets:
  "map (\<lambda>c. decode_map ! byte_of c) encode_map = [0..<64]"
  "map (\<lambda>c. decode_map ! byte_of c) url_encode_map = [0..<64]"
  unfolding encode_map_def url_encode_map_def upt_64 by (simp_all add: decode_map_def)

lemma valid_alphabets:
  "list_all (\<lambda>c. c \<noteq> pad_char \<and> byte_of c < 128 \<and> IsValidChar EncodingCanonical c) encode_map"
  "list_all (\<lambda>c. c \<noteq> pad_char \<and> byte_of c < 128 \<and> IsValidChar EncodingURL c) url_encode_map"
  by (simp_all add: encode_map_def url_encode_map_def pad_char_def IsValidChar_def isalnum_def)

lemma maps_inverse:
  assumes "x < 64"
  shows "map_of_type ty ! x \<noteq> pad_char" "byte_of (map_of_type ty ! x) < 128" "IsValidChar ty (map_of_type ty ! x)"
    "decode_map ! byte_of (map_of_type ty ! x) = x"
proof -
  have "length encode_map = 64" "length url_encode_map = 64" by (simp_all add: encode_map_def url_encode_map_def)
  then have l: "x < length (map_of_type ty)" using assms by (simp add: map_of_type_def)
  have "map (\<lambda>c. decode_map ! byte_of c) (map_of_type ty) = [0..<64]"
    "list_all (\<lambda>c. c \<noteq> pad_char \<and> byte_of c < 128 \<and> IsValidChar ty c) (map_of_type ty)"
    using decoded_alphabets valid_alphabets by (cases ty; simp add: map_of_type_def)+
  note m = this
  show "decode_map ! byte_of (map_of_type ty ! x) = x"
    using arg_cong [OF m(1), of "\<lambda>xs. xs ! x"] l nth_upt [of 0 x 64] assms by simp
  show "map_of_type ty ! x \<noteq> pad_char" "byte_of (map_of_type ty ! x) < 128" "IsValidChar ty (map_of_type ty ! x)"
    using m(2) l by (simp_all add: list_all_length)
qed

lemma decode_sextet:
  assumes "x < 64"
  shows "decode_loop debug ty size_out buf nbits out (map_of_type ty ! x # cs) =
     (let buf = (buf * 64 + x) mod 65536 in
        if 8 \<le> nbits + 6
        then if length out < size_out
             then decode_loop debug ty size_out buf (nbits + 6 - 8) (out @ [char_of (buf div 2 ^ (nbits + 6 - 8) mod 256)]) cs
             else DecodeUndefined
        else decode_loop debug ty size_out buf (nbits + 6) out cs)"
  using maps_inverse [OF assms, of ty] by simp

declare decode_loop.simps(2) [simp del]

lemma octets:
  assumes "x < 64"
  shows "(buf * 64 + x) mod 65536 div 16 mod 256 = buf mod 64 * 4 + x div (16 :: nat)"
    "(buf * 64 + x) mod 65536 div 4 mod 256 = buf mod 16 * 16 + x div 4"
    "(buf * 64 + x) mod 65536 mod 256 = buf mod 4 * 64 + x"
    "(buf * 64 + x) mod 65536 mod 64 = x"
    "(buf * 64 + x) mod 65536 mod 16 = x mod 16"
    "(buf * 64 + x) mod 65536 mod 4 = x mod 4"
proof -
  have d: "x div 16 < 4" "x div 4 < 16" using assms by simp_all
  show "(buf * 64 + x) mod 65536 div 16 mod 256 = buf mod 64 * 4 + x div 16"
    using low_bits [of 16 256 4096 "buf * 64 + x"] shift_join [of 16 buf 4 x] mod_join [OF d(1), of buf 64] by simp
  show "(buf * 64 + x) mod 65536 div 4 mod 256 = buf mod 16 * 16 + x div 4"
    using low_bits [of 4 256 16384 "buf * 64 + x"] shift_join [of 4 buf 16 x] mod_join [OF d(2), of buf 16] by simp
  show "(buf * 64 + x) mod 65536 mod 256 = buf mod 4 * 64 + x"
    using mod_join [OF assms, of buf 4] by (simp add: mod_mod_cancel)
  show "(buf * 64 + x) mod 65536 mod 64 = x" using mod_low [of 64 65536 64 buf x] assms by simp
  show "(buf * 64 + x) mod 65536 mod 16 = x mod 16" "(buf * 64 + x) mod 65536 mod 4 = x mod 4" by (rule mod_low; simp)+
qed

text \<open>A step of the decoder, by the number of bits that are left.\<close>

lemma decode_0:
  assumes "x < 64"
  obtains buf' where "decode_loop debug ty n buf 0 out (map_of_type ty ! x # cs) = decode_loop debug ty n buf' 6 out cs" "buf' mod 64 = x"
  by (rule that [of "(buf * 64 + x) mod 65536"]) (simp_all add: decode_sextet assms Let_def octets del: char_of_mod_256)

lemma decode_6:
  assumes "x < 64" "length out < n"
  obtains buf' where "decode_loop debug ty n buf 6 out (map_of_type ty ! x # cs) =
      decode_loop debug ty n buf' 4 (out @ [char_of (buf mod 64 * 4 + x div 16)]) cs" "buf' mod 16 = x mod 16"
  by (rule that [of "(buf * 64 + x) mod 65536"]) (simp_all add: decode_sextet assms Let_def octets del: char_of_mod_256)

lemma decode_4:
  assumes "x < 64" "length out < n"
  obtains buf' where "decode_loop debug ty n buf 4 out (map_of_type ty ! x # cs) =
      decode_loop debug ty n buf' 2 (out @ [char_of (buf mod 16 * 16 + x div 4)]) cs" "buf' mod 4 = x mod 4"
  by (rule that [of "(buf * 64 + x) mod 65536"]) (simp_all add: decode_sextet assms Let_def octets del: char_of_mod_256)

lemma decode_2:
  assumes "x < 64" "length out < n"
  obtains buf' where "decode_loop debug ty n buf 2 out (map_of_type ty ! x # cs) =
      decode_loop debug ty n buf' 0 (out @ [char_of (buf mod 4 * 64 + x)]) cs"
  by (rule that [of "(buf * 64 + x) mod 65536"]) (simp_all add: decode_sextet assms Let_def octets del: char_of_mod_256)

text \<open>A first byte is read from two sextets, a second one from the next, and a third one from a fourth.\<close>

lemma decode_byte1:
  assumes "length out < n" "r < 16"
  obtains buf' where "decode_loop debug ty n buf 0 out (map_of_type ty ! (byte_of a div 4) # map_of_type ty ! (byte_of a mod 4 * 16 + r) # cs) =
      decode_loop debug ty n buf' 4 (out @ [a]) cs" "buf' mod 16 = r"
proof -
  have a: "byte_of a div 4 < 64" "byte_of a mod 4 * 16 + r < 64"
    using byte_less [of a] assms(2) mod_less_divisor [of 4 "byte_of a"] by linarith+
  obtain buf1 where 1: "decode_loop debug ty n buf 0 out (map_of_type ty ! (byte_of a div 4) # map_of_type ty ! (byte_of a mod 4 * 16 + r) # cs) =
      decode_loop debug ty n buf1 6 out (map_of_type ty ! (byte_of a mod 4 * 16 + r) # cs)" "buf1 mod 64 = byte_of a div 4"
    by (rule decode_0 [OF a(1)])
  obtain buf2 where 2: "decode_loop debug ty n buf1 6 out (map_of_type ty ! (byte_of a mod 4 * 16 + r) # cs) =
      decode_loop debug ty n buf2 4 (out @ [char_of (buf1 mod 64 * 4 + (byte_of a mod 4 * 16 + r) div 16)]) cs"
    "buf2 mod 16 = (byte_of a mod 4 * 16 + r) mod 16"
    by (rule decode_6 [OF a(2) assms(1)])
  have "buf1 mod 64 * 4 + (byte_of a mod 4 * 16 + r) div 16 = byte_of a" using 1(2) assms(2) by simp
  then show ?thesis using that [of buf2] 1(1) 2 assms(2) by simp
qed

lemma decode_byte2:
  assumes "length out < n" "r < 4" "buf mod 16 = byte_of b div 16"
  obtains buf' where "decode_loop debug ty n buf 4 out (map_of_type ty ! (byte_of b mod 16 * 4 + r) # cs) =
      decode_loop debug ty n buf' 2 (out @ [b]) cs" "buf' mod 4 = r"
proof -
  have b: "byte_of b mod 16 * 4 + r < 64" using assms(2) mod_less_divisor [of 16 "byte_of b"] by linarith
  obtain buf1 where 1: "decode_loop debug ty n buf 4 out (map_of_type ty ! (byte_of b mod 16 * 4 + r) # cs) =
      decode_loop debug ty n buf1 2 (out @ [char_of (buf mod 16 * 16 + (byte_of b mod 16 * 4 + r) div 4)]) cs"
    "buf1 mod 4 = (byte_of b mod 16 * 4 + r) mod 4"
    by (rule decode_4 [OF b assms(1)])
  have "buf mod 16 * 16 + (byte_of b mod 16 * 4 + r) div 4 = byte_of b" using assms(2,3) by simp
  then show ?thesis using that [of buf1] 1 assms(2) by simp
qed

lemma decode_byte3:
  assumes "length out < n" "buf mod 4 = byte_of c div 64"
  obtains buf' where "decode_loop debug ty n buf 2 out (map_of_type ty ! (byte_of c mod 64) # cs) = decode_loop debug ty n buf' 0 (out @ [c]) cs"
proof -
  obtain buf1 where "decode_loop debug ty n buf 2 out (map_of_type ty ! (byte_of c mod 64) # cs) =
      decode_loop debug ty n buf1 0 (out @ [char_of (buf mod 4 * 64 + byte_of c mod 64)]) cs"
    by (rule decode_2 [OF mod_less_divisor assms(1)]) simp_all
  moreover have "buf mod 4 * 64 + byte_of c mod 64 = byte_of c" using assms(2) by simp
  ultimately show ?thesis using that by simp
qed

lemma decode_padding: "0 < k \<Longrightarrow> decode_loop debug ty n buf nbits out (replicate k pad_char) = Decoded out"
  by (cases k) (simp_all add: decode_loop.simps)

text \<open>One, two or three bytes, followed by anything.\<close>

lemma decode_one:
  assumes "length out < n"
  obtains buf' where "decode_loop debug ty n buf 0 out (map ((!) (map_of_type ty)) (sextets_of [a]) @ rest) =
    decode_loop debug ty n buf' 4 (out @ [a]) rest"
proof (rule decode_byte1 [OF assms, of 0 debug ty buf a rest])
  fix buf'
  assume "decode_loop debug ty n buf 0 out (map_of_type ty ! (byte_of a div 4) # map_of_type ty ! (byte_of a mod 4 * 16 + 0) # rest) =
    decode_loop debug ty n buf' 4 (out @ [a]) rest"
  then show thesis by (intro that [of buf']) simp
qed simp

lemma decode_two:
  assumes "length out + 1 < n" "r < 4"
  obtains buf' where "decode_loop debug ty n buf 0 out
      (map_of_type ty ! (byte_of a div 4) # map_of_type ty ! (byte_of a mod 4 * 16 + byte_of b div 16) #
       map_of_type ty ! (byte_of b mod 16 * 4 + r) # rest) =
    decode_loop debug ty n buf' 2 (out @ [a, b]) rest" "buf' mod 4 = r"
proof -
  have n: "length out < n" "length (out @ [a]) < n" using assms(1) by simp_all
  have r: "byte_of b div 16 < 16" using byte_less [of b] by linarith
  define last where "last = map_of_type ty ! (byte_of b mod 16 * 4 + r) # rest"
  obtain buf1 where 1: "decode_loop debug ty n buf 0 out
      (map_of_type ty ! (byte_of a div 4) # map_of_type ty ! (byte_of a mod 4 * 16 + byte_of b div 16) # last) =
      decode_loop debug ty n buf1 4 (out @ [a]) last" "buf1 mod 16 = byte_of b div 16"
    by (rule decode_byte1 [OF n(1) r])
  obtain buf2 where 2: "decode_loop debug ty n buf1 4 (out @ [a]) last = decode_loop debug ty n buf2 2 ((out @ [a]) @ [b]) rest" "buf2 mod 4 = r"
    unfolding last_def by (rule decode_byte2 [OF n(2) assms(2) 1(2)])
  have "(out @ [a]) @ [b] = out @ [a, b]" by simp
  then show thesis using that [of buf2] 1(1) 2 unfolding last_def by metis
qed

lemma decode_three:
  assumes "length out + 2 < n"
  obtains buf' where "decode_loop debug ty n buf 0 out
      (map_of_type ty ! (byte_of a div 4) # map_of_type ty ! (byte_of a mod 4 * 16 + byte_of b div 16) #
       map_of_type ty ! (byte_of b mod 16 * 4 + byte_of c div 64) # map_of_type ty ! (byte_of c mod 64) # rest) =
    decode_loop debug ty n buf' 0 (out @ [a, b, c]) rest"
proof -
  have n: "length out + 1 < n" "length (out @ [a, b]) < n" using assms by simp_all
  have r: "byte_of c div 64 < 4" using byte_less [of c] by linarith
  obtain buf1 where 1: "decode_loop debug ty n buf 0 out
      (map_of_type ty ! (byte_of a div 4) # map_of_type ty ! (byte_of a mod 4 * 16 + byte_of b div 16) #
       map_of_type ty ! (byte_of b mod 16 * 4 + byte_of c div 64) # map_of_type ty ! (byte_of c mod 64) # rest) =
    decode_loop debug ty n buf1 2 (out @ [a, b]) (map_of_type ty ! (byte_of c mod 64) # rest)" "buf1 mod 4 = byte_of c div 64"
    by (rule decode_two [OF n(1) r])
  obtain buf2 where 2: "decode_loop debug ty n buf1 2 (out @ [a, b]) (map_of_type ty ! (byte_of c mod 64) # rest) =
      decode_loop debug ty n buf2 0 ((out @ [a, b]) @ [c]) rest"
    by (rule decode_byte3 [OF n(2) 1(2)])
  have "(out @ [a, b]) @ [c] = out @ [a, b, c]" by simp
  then show thesis using that [of buf2] 1(1) 2 by metis
qed

lemma decode_sextets:
  assumes "length out + length input \<le> n" "k = 0 \<longrightarrow> length input mod 3 = 0 \<and> n = length out + length input"
  shows "decode_loop debug ty n buf 0 out (map ((!) (map_of_type ty)) (sextets_of input) @ replicate k pad_char) = Decoded (out @ input)"
  using assms
proof (induction input arbitrary: buf out rule: sextets_of.induct)
  case 1
  then show ?case by (cases "k = 0") (simp_all add: decode_padding)
next
  case (2 a)
  then have k: "0 < k" and n: "length out < n" by auto
  obtain buf1 where "decode_loop debug ty n buf 0 out (map ((!) (map_of_type ty)) (sextets_of [a]) @ replicate k pad_char) =
      decode_loop debug ty n buf1 4 (out @ [a]) (replicate k pad_char)"
    by (rule decode_one [OF n])
  then show ?case by (simp only: decode_padding [OF k])
next
  case (3 a b)
  then have k: "0 < k" and n: "length out + 1 < n" by auto
  obtain buf1 where 1: "decode_loop debug ty n buf 0 out
      (map_of_type ty ! (byte_of a div 4) # map_of_type ty ! (byte_of a mod 4 * 16 + byte_of b div 16) #
       map_of_type ty ! (byte_of b mod 16 * 4 + 0) # replicate k pad_char) = decode_loop debug ty n buf1 2 (out @ [a, b]) (replicate k pad_char)"
    by (rule decode_two [OF n zero_less_numeral])
  show ?case
    using 1 by (simp only: sextets_of.simps list.map append_Cons append_Nil add_0_right decode_padding [OF k])
next
  case (4 a b c cs)
  define rest where "rest = map ((!) (map_of_type ty)) (sextets_of cs) @ replicate k pad_char"
  have len: "length (a # b # c # cs) = length cs + 3" by simp
  then have m: "length (a # b # c # cs) mod 3 = length cs mod 3" by (simp only: mod_add_self2)
  have n: "length out + 2 < n" using "4.prems"(1) by simp
  obtain buf1 where 1: "decode_loop debug ty n buf 0 out
      (map_of_type ty ! (byte_of a div 4) # map_of_type ty ! (byte_of a mod 4 * 16 + byte_of b div 16) #
       map_of_type ty ! (byte_of b mod 16 * 4 + byte_of c div 64) # map_of_type ty ! (byte_of c mod 64) # rest) =
    decode_loop debug ty n buf1 0 (out @ [a, b, c]) rest"
    by (rule decode_three [OF n])
  have "decode_loop debug ty n buf1 0 (out @ [a, b, c]) rest = Decoded ((out @ [a, b, c]) @ cs)"
    unfolding rest_def using "4.prems" m by (intro "4.IH") (simp_all add: len)
  then show ?case using 1 by (simp add: rest_def)
qed

text \<open>
  C33: Encoding never writes past its result, whose length is that of the input in groups of three bytes, each of four characters;
  and decoding it, in either build and with the same alphabet, gives the input.
\<close>

theorem base64_roundtrip:
  "\<exists>out. EncodeInto ty input = Some out \<and> length out = 4 * ((length input + 2) div 3) \<and> DecodeInto debug ty out = Decoded input"
proof -
  define q r where "q = length input div 3" and "r = length input mod 3"
  define k where "k = (if r = 0 then 0 else 3 - r)"
  define out where "out = map ((!) (map_of_type ty)) (sextets_of input) @ replicate k pad_char"
  have qr: "length input = 3 * q + r" and r: "r = 0 \<or> r = 1 \<or> r = 2" by (auto simp: q_def r_def)
  have l: "length (sextets_of input) = 4 * q + (if r = 0 then 0 else r + 1)" by (simp add: length_sextets q_def r_def)
  have e: "EncodeInto ty input = Some out"
    using r l by (auto simp: EncodeInto_def encode_is_sextets out_def k_def Let_def simp flip: q_def r_def)
  have lo: "length out = 4 * (if r = 0 then q else q + 1)" using r l by (auto simp: out_def k_def)
  have "(length input + 2) div 3 = (if r = 0 then q else q + 1)" using r qr by auto
  then have len: "length out = 4 * ((length input + 2) div 3)" using lo by simp
  have "3 * length out div 4 = 3 * (if r = 0 then q else q + 1)" by (simp add: lo)
  moreover have "decode_loop debug ty (3 * (if r = 0 then q else q + 1)) 0 0 [] out = Decoded ([] @ input)"
    unfolding out_def using r qr by (intro decode_sextets) (auto simp: k_def)
  ultimately show ?thesis using e len by (simp add: DecodeInto_def)
qed

end
