(* ===== verification/Split.thy ===== *)
theory Split
  imports Strings
begin

text \<open>
  Splitting and joining of text: \<^verbatim>\<open>src/bricks/strings/split.h\<close>, \<^verbatim>\<open>src/bricks/strings/join.h\<close> and \<^verbatim>\<open>Trim\<close>
  of \<^verbatim>\<open>src/bricks/strings/util.h\<close>.  A separator is the predicate \<^verbatim>\<open>impl::Match\<close> decides; the overloads of
  \<^verbatim>\<open>Split\<close> differ in how the text is stored and all run the loop modelled here.
\<close>

datatype empty_fields = EmptyFields_Skip | EmptyFields_Keep
datatype key_value_parsing = KeyValueParsing_Silent | KeyValueParsing_Throw
datatype split_exception = KeyValueNoValueException | KeyValueMultipleValuesException

text \<open>\<^verbatim>\<open>impl::Match\<close> for a character, for \<^verbatim>\<open>ByWhitespace\<close>, for \<^verbatim>\<open>ByLines\<close> and for a string of separators.\<close>

definition match_char :: "char \<Rightarrow> char \<Rightarrow> bool" where "match_char b a \<longleftrightarrow> a = b"
definition match_whitespace :: "char \<Rightarrow> bool" where "match_whitespace c \<longleftrightarrow> isspace c"
definition match_lines :: "char \<Rightarrow> bool" where "match_lines c \<longleftrightarrow> c = newline \<or> c = CHR 0x0D"
definition match_any :: "string \<Rightarrow> char \<Rightarrow> bool" where "match_any s c \<longleftrightarrow> c \<in> set s"

definition split_emit :: "empty_fields \<Rightarrow> string \<Rightarrow> string list" where
  "split_emit strategy field = (if strategy = EmptyFields_Keep \<or> field \<noteq> [] then [field] else [])"

text \<open>The loop: the second argument is the field \<^verbatim>\<open>s.substr(j, i - j)\<close> seen so far.\<close>

fun split_loop :: "empty_fields \<Rightarrow> (char \<Rightarrow> bool) \<Rightarrow> string \<Rightarrow> string \<Rightarrow> string list" where
  "split_loop strategy sep field [] = split_emit strategy field"
| "split_loop strategy sep field (c # s) =
     (if sep c then split_emit strategy field @ split_loop strategy sep [] s
      else split_loop strategy sep (field @ [c]) s)"

definition Split :: "string \<Rightarrow> (char \<Rightarrow> bool) \<Rightarrow> empty_fields \<Rightarrow> string list" where
  "Split s sep strategy = split_loop strategy sep [] s"

fun key_value_fields ::
  "(char \<Rightarrow> bool) \<Rightarrow> key_value_parsing \<Rightarrow> string list \<Rightarrow> split_exception + (string \<times> string) list" where
  "key_value_fields key_value_sep throw_mode [] = Inr []"
| "key_value_fields key_value_sep throw_mode (field # fs) =
     (let key_and_value = Split field key_value_sep EmptyFields_Skip in
      if length key_and_value \<ge> 2 then
        if length key_and_value = 2 then
          map_sum id (Cons (key_and_value ! 0, key_and_value ! 1)) (key_value_fields key_value_sep throw_mode fs)
        else if throw_mode = KeyValueParsing_Throw then Inl KeyValueMultipleValuesException
        else key_value_fields key_value_sep throw_mode fs
      else if throw_mode = KeyValueParsing_Throw then Inl KeyValueNoValueException
      else key_value_fields key_value_sep throw_mode fs)"

definition SplitIntoKeyValuePairs ::
  "string \<Rightarrow> (char \<Rightarrow> bool) \<Rightarrow> (char \<Rightarrow> bool) \<Rightarrow> key_value_parsing \<Rightarrow> split_exception + (string \<times> string) list" where
  "SplitIntoKeyValuePairs s key_value_sep fields_sep throw_mode =
     key_value_fields key_value_sep throw_mode (Split s fields_sep EmptyFields_Skip)"

fun join_loop :: "string \<Rightarrow> bool \<Rightarrow> string \<Rightarrow> string list \<Rightarrow> string" where
  "join_loop separator first result [] = result"
| "join_loop separator first result (c # cs) =
     join_loop separator False (if first then result @ c else result @ separator @ c) cs"

definition Join :: "string list \<Rightarrow> string \<Rightarrow> string" where
  "Join components separator = (if components = [] then [] else join_loop separator True [] components)"

definition Trim :: "string \<Rightarrow> string" where
  "Trim s = rev (dropWhile isspace (rev (dropWhile isspace s)))"

subsection \<open>The loops in closed form\<close>

lemma split_emit_simps [simp]:
  "split_emit EmptyFields_Keep field = [field]"
  "split_emit EmptyFields_Skip field = (if field = [] then [] else [field])"
  by (simp_all add: split_emit_def)

lemma split_loop_skip: "split_loop EmptyFields_Skip sep field s = filter (\<lambda>f. f \<noteq> []) (split_loop EmptyFields_Keep sep field s)"
  by (induction s arbitrary: field) auto

lemma split_loop_nonempty [simp]: "split_loop EmptyFields_Keep sep field s \<noteq> []"
  by (induction s arbitrary: field) auto

lemma split_loop_plain: "\<forall>c \<in> set s. \<not> sep c \<Longrightarrow> split_loop strategy sep field s = split_emit strategy (field @ s)"
  by (induction s arbitrary: field) auto

lemma split_loop_field:
  "\<forall>c \<in> set s. \<not> sep c \<Longrightarrow> sep d \<Longrightarrow>
     split_loop strategy sep field (s @ d # t) = split_emit strategy (field @ s) @ split_loop strategy sep [] t"
  by (induction s arbitrary: field) auto

lemma split_loop_fields_plain:
  "\<forall>c \<in> set field. \<not> sep c \<Longrightarrow> f \<in> set (split_loop strategy sep field s) \<Longrightarrow> \<forall>c \<in> set f. \<not> sep c"
proof (induction s arbitrary: field)
  case Nil
  then show ?case by (auto simp: split_emit_def split: if_splits)
next
  case (Cons c s)
  show ?case
  proof (cases "sep c")
    case True
    with Cons.prems(2) have "f = field \<or> f \<in> set (split_loop strategy sep [] s)"
      by (cases "split_emit strategy field") (auto simp: split_emit_def split: if_splits)
    then show ?thesis
    proof
      assume "f = field"
      then show ?thesis using Cons.prems(1) by simp
    next
      assume "f \<in> set (split_loop strategy sep [] s)"
      then show ?thesis by (rule Cons.IH [rotated]) simp
    qed
  next
    case False
    show ?thesis by (rule Cons.IH [of "field @ [c]"]) (use False Cons.prems in auto)
  qed
qed

lemma join_loop_rest:
  "join_loop separator False result cs = result @ concat (map (\<lambda>c. separator @ c) cs)"
  by (induction cs arbitrary: result) auto

lemma Join_Cons: "Join (c # cs) separator = c @ concat (map (\<lambda>c. separator @ c) cs)"
  by (simp add: Join_def join_loop_rest)

lemma Join_Nil [simp]: "Join [] separator = []"
  by (simp add: Join_def)

lemma Join_Cons_Cons: "cs \<noteq> [] \<Longrightarrow> Join (c # cs) separator = c @ separator @ Join cs separator"
  by (cases cs) (auto simp: Join_Cons)

lemma Join_split_loop: "Join (split_loop EmptyFields_Keep (match_char d) field s) [d] = field @ s"
proof (induction s arbitrary: field)
  case (Cons c s)
  then show ?case by (cases "c = d") (simp_all add: Join_Cons_Cons match_char_def)
qed (simp add: Join_Cons)

lemma Split_Join:
  "cs \<noteq> [] \<Longrightarrow> \<forall>c \<in> set cs. d \<notin> set c \<Longrightarrow> Split (Join cs [d]) (match_char d) EmptyFields_Keep = cs"
proof (induction cs)
  case (Cons c cs)
  have plain: "\<forall>x \<in> set c. \<not> match_char d x" using Cons.prems by (auto simp: match_char_def)
  show ?case
  proof (cases "cs = []")
    case True
    then show ?thesis using plain by (simp add: Split_def Join_Cons split_loop_plain)
  next
    case False
    have "Split (Join (c # cs) [d]) (match_char d) EmptyFields_Keep = c # Split (Join cs [d]) (match_char d) EmptyFields_Keep"
      using plain False by (simp add: Split_def Join_Cons_Cons split_loop_field match_char_def)
    with Cons False show ?thesis by simp
  qed
qed simp

lemma Split_skip_two:
  assumes "a \<noteq> []" "b \<noteq> []" "\<forall>c \<in> set a. \<not> sep c" "\<forall>c \<in> set b. \<not> sep c" "sep d"
  shows "Split (a @ d # b) sep EmptyFields_Skip = [a, b]"
  using assms by (simp add: Split_def split_loop_field split_loop_plain)

lemma Split_skip_one:
  "a \<noteq> [] \<Longrightarrow> \<forall>c \<in> set a. \<not> sep c \<Longrightarrow> Split a sep EmptyFields_Skip = [a]"
  by (simp add: Split_def split_loop_plain)

lemma dropWhile_split: "\<exists>a. s = a @ dropWhile P s \<and> (\<forall>c \<in> set a. P c)"
  by (metis set_takeWhileD takeWhile_dropWhile_id)

lemma dropWhile_hd: "dropWhile P s = [] \<or> \<not> P (hd (dropWhile P s))"
  by (metis hd_dropWhile)

subsection \<open>Properties\<close>

text \<open>
  C20: Splitting by a character and joining are inverse to each other when empty fields are kept: joining the
  fields of any text gives the text back, and splitting the joined fields gives them back whenever there is
  at least one of them and none holds the separator.  Skipping empty fields gives the non-empty ones among
  those, and no field ever holds a separator.
\<close>

theorem split_join_roundtrip:
  "Join (Split s (match_char d) EmptyFields_Keep) [d] = s \<and>
   (cs \<noteq> [] \<and> (\<forall>c \<in> set cs. d \<notin> set c) \<longrightarrow> Split (Join cs [d]) (match_char d) EmptyFields_Keep = cs) \<and>
   Split s sep EmptyFields_Skip = filter (\<lambda>f. f \<noteq> []) (Split s sep EmptyFields_Keep) \<and>
   (\<forall>f \<in> set (Split s sep strategy). \<forall>c \<in> set f. \<not> sep c)"
proof (intro conjI impI ballI)
  show "Join (Split s (match_char d) EmptyFields_Keep) [d] = s"
    using Join_split_loop [of d "[]" s] by (simp add: Split_def)
  show "Split (Join cs [d]) (match_char d) EmptyFields_Keep = cs" if "cs \<noteq> [] \<and> (\<forall>c \<in> set cs. d \<notin> set c)"
    using that by (blast intro: Split_Join)
  show "Split s sep EmptyFields_Skip = filter (\<lambda>f. f \<noteq> []) (Split s sep EmptyFields_Keep)"
    by (simp add: Split_def split_loop_skip)
  show "\<not> sep c" if "f \<in> set (Split s sep strategy)" "c \<in> set f" for f c
    using split_loop_fields_plain [of "[]" sep f strategy s] that by (simp add: Split_def)
qed

theorem split_join_roundtrip_witness:
  "Split ''a,,b'' (match_char (CHR '','')) EmptyFields_Keep = [''a'', [], ''b''] \<and>
   Split (Join [''a'', [], ''b''] '','') (match_char (CHR '','')) EmptyFields_Keep = [''a'', [], ''b''] \<and>
   Split ''a,,b'' (match_char (CHR '','')) EmptyFields_Skip = [''a'', ''b'']"
  using split_join_roundtrip [of "''a,,b''" "CHR '',''" "[''a'', [], ''b'']" "match_char (CHR '','')" EmptyFields_Keep]
  by (simp add: Split_def match_char_def)

text \<open>
  \<^verbatim>\<open>Trim\<close> removes white space from both ends and nothing else: what is left neither starts nor ends with
  white space, and the text is white space, then the result, then white space.
\<close>

theorem trim_removes_outer_space:
  "(\<exists>a b. s = a @ Trim s @ b \<and> list_all isspace a \<and> list_all isspace b) \<and>
   (Trim s = [] \<or> \<not> isspace (hd (Trim s)) \<and> \<not> isspace (last (Trim s)))"
proof -
  define t where "t = dropWhile isspace s"
  define u where "u = dropWhile isspace (rev t)"
  obtain a where a: "s = a @ t" "\<forall>c \<in> set a. isspace c"
    using dropWhile_split [of s isspace] unfolding t_def by blast
  obtain b where b: "rev t = b @ u" "\<forall>c \<in> set b. isspace c"
    using dropWhile_split [of "rev t" isspace] unfolding u_def by blast
  have trim: "Trim s = rev u" by (simp add: Trim_def t_def u_def)
  have t: "t = rev u @ rev b" using arg_cong [OF b(1), of rev] by simp
  have "hd t = hd (rev u)" if "u \<noteq> []" using that t by simp
  moreover have "t = [] \<or> \<not> isspace (hd t)" "u = [] \<or> \<not> isspace (hd u)"
    unfolding t_def u_def by (rule dropWhile_hd)+
  ultimately have "rev u = [] \<or> \<not> isspace (hd (rev u)) \<and> \<not> isspace (last (rev u))"
    using t by (cases "u = []") (auto simp: last_rev)
  moreover have "s = a @ rev u @ rev b" using a(1) t by simp
  ultimately show ?thesis
    unfolding trim using a(2) b(2) by (metis list_all_iff set_rev)
qed

end
