(* ===== verification/Journal.thy ===== *)
theory Journal
  imports Chrono "HOL-Library.List_Lexorder" "HOL-Library.Char_ord"
begin

text \<open>
  The mutation journal of \<^verbatim>\<open>src/storage/base.h\<close> with the transaction metadata of
  \<^verbatim>\<open>src/storage/transaction.h\<close>, and the contract that a field of a storage has with it:
  every mutation of a field is logged as an event that can be replayed and as a closure that
  rolls it back.

  A closure of the rollback log captures \<^verbatim>\<open>this\<close> and copies of keys, entries and timestamps; it is
  a function on the state \<open>'s\<close> of the field.  A \<open>ctx\<close> is what an operation of a field can touch:
  the clock, the journal (held by reference in the code) and the state of the field itself.
\<close>

text \<open>\<^verbatim>\<open>std::map<std::string, std::string>\<close>: an association list in the order of its keys.\<close>

fun ordered_put :: "'k::linorder \<Rightarrow> 'v \<Rightarrow> ('k \<times> 'v) list \<Rightarrow> ('k \<times> 'v) list" where
  "ordered_put key value [] = [(key, value)]"
| "ordered_put key value ((k, v) # m) =
     (if key < k then (key, value) # (k, v) # m
      else if key = k then (key, value) # m
      else (k, v) # ordered_put key value m)"

definition ordered_erase :: "'k \<Rightarrow> ('k \<times> 'v) list \<Rightarrow> ('k \<times> 'v) list" where
  "ordered_erase key m = filter (\<lambda>(k, v). k \<noteq> key) m"

record transaction_meta =
  begin_us :: microseconds
  end_us :: microseconds
  meta_fields :: "(string \<times> string) list"

record ('ev, 's) mutation_journal =
  meta :: transaction_meta
  commit_log :: "'ev list"
  rollback_log :: "('s \<Rightarrow> 's) list"

record ('ev, 's) ctx =
  clock :: clock
  journal :: "('ev, 's) mutation_journal"
  this :: 's

definition meta_cleared :: transaction_meta where
  "meta_cleared = \<lparr>begin_us = 0, end_us = 0, meta_fields = []\<rparr>"

definition empty_journal :: "('ev, 's) mutation_journal" where
  "empty_journal = \<lparr>meta = meta_cleared, commit_log = [], rollback_log = []\<rparr>"

definition LogMutation :: "'ev \<Rightarrow> ('s \<Rightarrow> 's) \<Rightarrow> ('ev, 's) ctx \<Rightarrow> ('ev, 's) ctx" where
  "LogMutation entry rollback c =
     c\<lparr>journal := (journal c)\<lparr>commit_log := commit_log (journal c) @ [entry],
                             rollback_log := rollback_log (journal c) @ [rollback]\<rparr>\<rparr>"

definition CtxNow :: "('ev, 's) ctx \<Rightarrow> microseconds \<times> ('ev, 's) ctx" where
  "CtxNow c = (case Now (clock c) of (now, k) \<Rightarrow> (now, c\<lparr>clock := k\<rparr>))"

definition BeforeTransaction :: "('ev, 's) ctx \<Rightarrow> ('ev, 's) ctx" where
  "BeforeTransaction c =
     (case CtxNow c of (now, c) \<Rightarrow>
        c\<lparr>journal := (journal c)\<lparr>meta := (meta (journal c))\<lparr>begin_us := now\<rparr>\<rparr>\<rparr>)"

definition AfterTransaction :: "('ev, 's) ctx \<Rightarrow> ('ev, 's) ctx" where
  "AfterTransaction c =
     (case CtxNow c of (now, c) \<Rightarrow>
        c\<lparr>journal := (journal c)\<lparr>meta := (meta (journal c))\<lparr>end_us := now\<rparr>\<rparr>\<rparr>)"

definition Clear :: "('ev, 's) mutation_journal \<Rightarrow> ('ev, 's) mutation_journal" where
  "Clear j = j\<lparr>meta := (meta j)\<lparr>begin_us := 0, end_us := 0, meta_fields := []\<rparr>,
               commit_log := [], rollback_log := []\<rparr>"

text \<open>The loop over \<^verbatim>\<open>rollback_log.rbegin() .. rend()\<close>.\<close>

definition run_rollback :: "('s \<Rightarrow> 's) list \<Rightarrow> 's \<Rightarrow> 's" where
  "run_rollback log s = fold (\<lambda>f s. f s) (rev log) s"

definition Rollback :: "('ev, 's) ctx \<Rightarrow> ('ev, 's) ctx" where
  "Rollback c = c\<lparr>this := run_rollback (rollback_log (journal c)) (this c), journal := Clear (journal c)\<rparr>"

definition AssertEmpty :: "('ev, 's) mutation_journal \<Rightarrow> bool" where
  "AssertEmpty j \<longleftrightarrow> begin_us (meta j) = 0 \<and> end_us (meta j) = 0 \<and> meta_fields (meta j) = [] \<and>
     commit_log j = [] \<and> rollback_log j = []"

definition SetTransactionMetaField :: "string \<Rightarrow> string \<Rightarrow> ('ev, 's) ctx \<Rightarrow> ('ev, 's) ctx" where
  "SetTransactionMetaField key value c =
     c\<lparr>journal := (journal c)\<lparr>meta := (meta (journal c))
        \<lparr>meta_fields := ordered_put key value (meta_fields (meta (journal c)))\<rparr>\<rparr>\<rparr>"

definition EraseTransactionMetaField :: "string \<Rightarrow> ('ev, 's) ctx \<Rightarrow> ('ev, 's) ctx" where
  "EraseTransactionMetaField key c =
     c\<lparr>journal := (journal c)\<lparr>meta := (meta (journal c))
        \<lparr>meta_fields := ordered_erase key (meta_fields (meta (journal c)))\<rparr>\<rparr>\<rparr>"

lemma map_of_ordered_put: "map_of (ordered_put key val m) = (map_of m)(key \<mapsto> val)"
  by (induction key val m rule: ordered_put.induct) (auto simp: fun_upd_twist)

lemma ordered_put_sorted:
  "sorted_wrt (<) (map fst m) \<Longrightarrow> sorted_wrt (<) (map fst (ordered_put key val m))"
proof (induction key val m rule: ordered_put.induct)
  case (2 key val k v m)
  have "fst ` set (ordered_put key val m) = insert key (fst ` set m)"
    by (induction key val m rule: ordered_put.induct) auto
  with 2 show ?case by (auto simp: image_iff)
qed simp

lemma map_of_ordered_erase: "map_of (ordered_erase key m) = (map_of m)(key := None)"
  by (induction m) (auto simp: ordered_erase_def fun_eq_iff)

lemma LogMutation_simps [simp]:
  "this (LogMutation ev rb c) = this c" "clock (LogMutation ev rb c) = clock c"
  "commit_log (journal (LogMutation ev rb c)) = commit_log (journal c) @ [ev]"
  "rollback_log (journal (LogMutation ev rb c)) = rollback_log (journal c) @ [rb]"
  "meta (journal (LogMutation ev rb c)) = meta (journal c)"
  by (simp_all add: LogMutation_def)

lemma Clear_eq: "Clear j = empty_journal"
  by (simp add: Clear_def empty_journal_def meta_cleared_def)

lemma AssertEmpty_iff: "AssertEmpty j \<longleftrightarrow> j = empty_journal"
  by (auto simp: AssertEmpty_def empty_journal_def meta_cleared_def)

lemma run_rollback_append: "run_rollback (xs @ ys) s = run_rollback xs (run_rollback ys s)"
  by (simp add: run_rollback_def)

lemma run_rollback_simps [simp]:
  "run_rollback [] s = s" "run_rollback [f] s = f s"
  by (simp_all add: run_rollback_def)

text \<open>A context between transactions, with a clock that reads 0, 1, 2, and so on.\<close>

definition fresh_ctx :: "'s \<Rightarrow> ('ev, 's) ctx" where
  "fresh_ctx s = \<lparr>clock = \<lparr>monotonic_now_us = 0, readings = int, ticks = 0\<rparr>, journal = empty_journal, this = s\<rparr>"

lemma fresh_ctx_simps [simp]: "this (fresh_ctx s) = s" "journal (fresh_ctx s) = empty_journal"
  by (simp_all add: fresh_ctx_def)

subsection \<open>What a logged mutation promises\<close>

text \<open>
  \<open>undoes\<close>: from any well-formed state that looks like the later one, the closures lead to one that
  looks like the earlier one.  \<open>redoes\<close>: from any well-formed state that looks like the earlier
  one, the events lead to one that looks like the later one.  Looks are compared through the
  abstraction \<open>view\<close>, since pointers differ between the original and a rebuilt object.
\<close>

definition undoes :: "('s \<Rightarrow> bool) \<Rightarrow> ('s \<Rightarrow> 'a) \<Rightarrow> ('s \<Rightarrow> 's) list \<Rightarrow> 's \<Rightarrow> 's \<Rightarrow> bool" where
  "undoes invar view rbs s s' \<longleftrightarrow>
     (\<forall>t. invar t \<and> view t = view s' \<longrightarrow> invar (run_rollback rbs t) \<and> view (run_rollback rbs t) = view s)"

definition redoes ::
  "('s \<Rightarrow> bool) \<Rightarrow> ('s \<Rightarrow> 'a) \<Rightarrow> ('ev \<Rightarrow> 's \<Rightarrow> 's) \<Rightarrow> 'ev list \<Rightarrow> 's \<Rightarrow> 's \<Rightarrow> bool" where
  "redoes invar view app evs s s' \<longleftrightarrow>
     (\<forall>t. invar t \<and> view t = view s \<longrightarrow> invar (fold app evs t) \<and> view (fold app evs t) = view s')"

definition stamped :: "('ev \<Rightarrow> microseconds) \<Rightarrow> clock \<Rightarrow> 'ev list \<Rightarrow> clock \<Rightarrow> bool" where
  "stamped us k evs k' \<longleftrightarrow> monotonic_now_us k \<le> monotonic_now_us k' \<and>
     sorted_wrt (<) (map us evs) \<and>
     (\<forall>e \<in> set evs. monotonic_now_us k < us e \<and> us e \<le> monotonic_now_us k')"

definition logged ::
  "('s \<Rightarrow> bool) \<Rightarrow> ('s \<Rightarrow> 'a) \<Rightarrow> ('ev \<Rightarrow> 's \<Rightarrow> 's) \<Rightarrow> ('ev \<Rightarrow> microseconds) \<Rightarrow>
   ('ev, 's) ctx \<Rightarrow> ('ev, 's) ctx \<Rightarrow> bool" where
  "logged invar view app us c c' \<longleftrightarrow> invar (this c') \<and>
     (\<exists>evs rbs. commit_log (journal c') = commit_log (journal c) @ evs \<and>
                rollback_log (journal c') = rollback_log (journal c) @ rbs \<and>
                undoes invar view rbs (this c) (this c') \<and>
                redoes invar view app evs (this c) (this c') \<and>
                stamped us (clock c) evs (clock c'))"

lemma undoes_append:
  "undoes invar view rbs s s' \<Longrightarrow> undoes invar view rbs' s' s'' \<Longrightarrow> undoes invar view (rbs @ rbs') s s''"
  by (simp add: undoes_def run_rollback_append)

lemma redoes_append:
  "redoes invar view app evs s s' \<Longrightarrow> redoes invar view app evs' s' s'' \<Longrightarrow>
     redoes invar view app (evs @ evs') s s''"
  by (simp add: redoes_def)

lemma stamped_append:
  "stamped us k evs k' \<Longrightarrow> stamped us k' evs' k'' \<Longrightarrow> stamped us k (evs @ evs') k''"
  by (fastforce simp: stamped_def sorted_wrt_append)

lemma logged_refl: "invar (this c) \<Longrightarrow> logged invar view app us c c"
  by (auto simp: logged_def undoes_def redoes_def stamped_def intro!: exI [of _ "[]"])

lemma logged_trans:
  assumes "logged invar view app us c c'" and "logged invar view app us c' c''"
  shows "logged invar view app us c c''"
proof -
  from assms obtain evs rbs evs' rbs' where
    "commit_log (journal c') = commit_log (journal c) @ evs"
    "rollback_log (journal c') = rollback_log (journal c) @ rbs"
    "undoes invar view rbs (this c) (this c')" "redoes invar view app evs (this c) (this c')"
    "stamped us (clock c) evs (clock c')"
    "commit_log (journal c'') = commit_log (journal c') @ evs'"
    "rollback_log (journal c'') = rollback_log (journal c') @ rbs'"
    "undoes invar view rbs' (this c') (this c'')" "redoes invar view app evs' (this c') (this c'')"
    "stamped us (clock c') evs' (clock c'')" "invar (this c'')"
    by (auto simp: logged_def)
  then show ?thesis
    unfolding logged_def
    by (auto intro!: exI [of _ "evs @ evs'"] exI [of _ "rbs @ rbs'"]
        intro: undoes_append redoes_append stamped_append)
qed

lemma CtxNow_simps:
  assumes "CtxNow c = (now, c')"
  shows "monotonic_now_us (clock c) < now" "monotonic_now_us (clock c') = now"
    "journal c' = journal c" "this c' = this c"
  using assms by (auto simp: CtxNow_def Now_greater Now_stored split: prod.splits)

lemma CtxNow_logged:
  "CtxNow c = (now, c') \<Longrightarrow> invar (this c) \<Longrightarrow> logged invar view app us c c'"
  by (auto simp: logged_def undoes_def redoes_def stamped_def CtxNow_simps less_imp_le dest: CtxNow_simps
      intro!: exI [of _ "[]"])

text \<open>The one-mutation step: read the clock, log the event with its rollback, change the state.\<close>

lemma logged_mutation:
  assumes now: "CtxNow c = (now, c1)" "us ev = now"
    and invar': "invar s'"
    and undo: "\<And>t. invar t \<Longrightarrow> view t = view s' \<Longrightarrow> invar (rb t) \<and> view (rb t) = view (this c)"
    and redo: "\<And>t. invar t \<Longrightarrow> view t = view (this c) \<Longrightarrow> invar (app ev t) \<and> view (app ev t) = view s'"
  shows "logged invar view app us c ((LogMutation ev rb c1)\<lparr>this := s'\<rparr>)"
  unfolding logged_def
  using invar' CtxNow_simps [OF now(1)] now(2) undo redo
  by (auto simp: LogMutation_def undoes_def redoes_def stamped_def
      intro!: exI [of _ "[ev]"] exI [of _ "[rb]"])

subsection \<open>The contract of a field\<close>

text \<open>
  \<open>run op\<close> is one operation of the field's interface, \<open>app\<close> its \<^verbatim>\<open>operator()\<close> on a persisted event,
  \<open>valid op\<close> what the caller has to respect.  The contract: an operation on a well-formed field never
  runs into undefined behaviour, and is logged.
\<close>

locale journaled_field =
  fixes invar :: "'s \<Rightarrow> bool"
    and view :: "'s \<Rightarrow> 'a"
    and app :: "'ev \<Rightarrow> 's \<Rightarrow> 's"
    and us :: "'ev \<Rightarrow> microseconds"
    and run :: "'op \<Rightarrow> ('ev, 's) ctx \<Rightarrow> ('ev, 's) ctx option"
    and valid :: "'op \<Rightarrow> bool"
  assumes run_logged:
    "invar (this c) \<Longrightarrow> valid op \<Longrightarrow> \<exists>c'. run op c = Some c' \<and> logged invar view app us c c'"
begin

lemma run_keeps_inv: "invar (this c) \<Longrightarrow> valid op \<Longrightarrow> run op c = Some c' \<Longrightarrow> invar (this c')"
  using run_logged [of c op] by (auto simp: logged_def)

lemma run_then_rollback:
  assumes "invar (this c)" "valid op" "run op c = Some c'" "journal c = empty_journal"
  shows "invar (this (Rollback c')) \<and> view (this (Rollback c')) = view (this c) \<and>
    journal (Rollback c') = empty_journal"
  using run_logged [OF assms(1,2)] assms(3,4)
  by (auto simp: logged_def Rollback_def Clear_eq undoes_def empty_journal_def)

lemma run_then_replay:
  assumes "invar (this c)" "valid op" "run op c = Some c'" "journal c = empty_journal"
    and "invar t" "view t = view (this c)"
  shows "view (fold app (commit_log (journal c')) t) = view (this c')"
  using run_logged [OF assms(1,2)] assms(3-6)
  by (auto simp: logged_def redoes_def empty_journal_def)

end

end
