(* ===== verification/Headers.thy ===== *)
theory Headers
  imports Split Journal
begin

text \<open>
  HTTP headers and cookies, \<^verbatim>\<open>src/bricks/net/http/headers/headers.h\<close>.  \<^verbatim>\<open>Headers\<close> owns its \<^verbatim>\<open>Header\<close>
  objects through a map compared by \<^verbatim>\<open>KeyComparator\<close> and keeps a list of bare pointers to them in the order
  of insertion.  Here the owned objects live in a heap of addresses, so that a pointer of the list can
  dangle; an operation that reads through such a pointer is \<^const>\<open>None\<close>.  The map is the association list of
  its keys and pointers: the code looks keys up by the equivalence of the comparator and never depends on
  the order of the tree.
\<close>

datatype header_exception =
    CookieIsNotYourRegularHeader
  | HeaderNotFoundException string

record http_header =
  hdr_header :: string
  hdr_value :: string

record cookie =
  ck_value :: string
  ck_params :: "(string \<times> string) list"

record headers =
  h_heap :: "nat \<rightharpoonup> http_header"
  h_next :: nat
  h_map :: "(string \<times> nat) list"
  h_list :: "(string \<times> nat) list"
  h_cookies :: "(string \<times> cookie) list"

definition headers_empty :: headers where
  "headers_empty = \<lparr>h_heap = (\<lambda>_. None), h_next = 0, h_map = [], h_list = [], h_cookies = []\<rparr>"

definition Canonical :: "char \<Rightarrow> char" where
  "Canonical c =
     (if c = CHR ''-'' then CHR ''_''
      else if of_char c \<ge> (65 :: nat) \<and> of_char c \<le> (90 :: nat) then char_of (of_char c + (32 :: nat)) else c)"

text \<open>The comparator; \<^verbatim>\<open>char\<close> is signed, so bytes from 128 on order before the others.\<close>

definition signed_char :: "char \<Rightarrow> int" where
  "signed_char c = (let n = int (of_char c) in if n \<ge> 128 then n - 256 else n)"

fun KeyComparator :: "string \<Rightarrow> string \<Rightarrow> bool" where
  "KeyComparator (a # lhs) (b # rhs) =
     (if signed_char (Canonical a) < signed_char (Canonical b) then True
      else if signed_char (Canonical b) < signed_char (Canonical a) then False
      else KeyComparator lhs rhs)"
| "KeyComparator lhs rhs = (lhs = [] \<and> rhs \<noteq> [])"

definition key_equiv :: "string \<Rightarrow> string \<Rightarrow> bool" where
  "key_equiv a b \<longleftrightarrow> \<not> KeyComparator a b \<and> \<not> KeyComparator b a"

definition IsCookieHeader :: "string \<Rightarrow> bool" where
  "IsCookieHeader header \<longleftrightarrow> key_equiv header ''Cookie'' \<or> key_equiv header ''Set-Cookie''"

text \<open>\<^verbatim>\<open>map.find\<close>, and the pointer under \<^verbatim>\<open>map[header]\<close> after the object was created if there was none.\<close>

definition map_find :: "string \<Rightarrow> headers \<Rightarrow> (string \<times> nat) option" where
  "map_find header h = find (\<lambda>e. key_equiv (fst e) header) (h_map h)"

definition placeholder :: "string \<Rightarrow> headers \<Rightarrow> nat \<times> headers" where
  "placeholder header h =
     (case map_find header h of
        Some e \<Rightarrow> (snd e, h)
      | None \<Rightarrow>
          (h_next h, h\<lparr>h_heap := (h_heap h)(h_next h \<mapsto> \<lparr>hdr_header = header, hdr_value = []\<rparr>),
                       h_next := h_next h + 1,
                       h_map := h_map h @ [(header, h_next h)], h_list := h_list h @ [(header, h_next h)]\<rparr>))"

definition append_value :: "string \<Rightarrow> string \<Rightarrow> string" where
  "append_value old value = (if value = [] then old else (if old \<noteq> [] then old @ '', '' else old) @ value)"

definition SetHeader :: "string \<Rightarrow> string \<Rightarrow> headers \<Rightarrow> (header_exception + headers) option" where
  "SetHeader header value h =
     (if IsCookieHeader header then Some (Inl CookieIsNotYourRegularHeader)
      else if header = [] then Some (Inr h)
      else case placeholder header h of
        (p, h) \<Rightarrow> do {
          x \<leftarrow> h_heap h p;
          Some (Inr (h\<lparr>h_heap := (h_heap h)(p \<mapsto> x\<lparr>hdr_value := append_value (hdr_value x) value\<rparr>)\<rparr>)) })"

definition RemoveHeader :: "string \<Rightarrow> headers \<Rightarrow> header_exception + headers" where
  "RemoveHeader header h =
     (if IsCookieHeader header then Inl CookieIsNotYourRegularHeader
      else case map_find header h of
        None \<Rightarrow> Inr h
      | Some e \<Rightarrow>
          Inr (h\<lparr>h_heap := (h_heap h)(snd e := None),
                 h_map := filter (\<lambda>x. x \<noteq> e) (h_map h),
                 h_list := filter (\<lambda>x. fst x \<noteq> header) (h_list h)\<rparr>))"

definition HasHeader :: "string \<Rightarrow> headers \<Rightarrow> header_exception + bool" where
  "HasHeader header h =
     (if IsCookieHeader header then Inl CookieIsNotYourRegularHeader else Inr (map_find header h \<noteq> None))"

definition GetHeader :: "string \<Rightarrow> headers \<Rightarrow> (header_exception + string) option" where
  "GetHeader header h =
     (if IsCookieHeader header then Some (Inl CookieIsNotYourRegularHeader)
      else case map_find header h of
        Some e \<Rightarrow> do { x \<leftarrow> h_heap h (snd e); Some (Inr (hdr_value x)) }
      | None \<Rightarrow> Some (Inl (HeaderNotFoundException header)))"

definition GetOrDefault :: "string \<Rightarrow> string \<Rightarrow> headers \<Rightarrow> (header_exception + string) option" where
  "GetOrDefault header value_if_not_found h =
     (if IsCookieHeader header then Some (Inl CookieIsNotYourRegularHeader)
      else case map_find header h of
        Some e \<Rightarrow> do { x \<leftarrow> h_heap h (snd e); Some (Inr (hdr_value x)) }
      | None \<Rightarrow> Some (Inr value_if_not_found))"

text \<open>\<^verbatim>\<open>headers[name] = value\<close> through the mutable \<^verbatim>\<open>operator[]\<close>.\<close>

definition AssignHeader :: "string \<Rightarrow> string \<Rightarrow> headers \<Rightarrow> (header_exception + headers) option" where
  "AssignHeader header value h =
     (if IsCookieHeader header then Some (Inl CookieIsNotYourRegularHeader)
      else case placeholder header h of
        (p, h) \<Rightarrow> do {
          x \<leftarrow> h_heap h p;
          Some (Inr (h\<lparr>h_heap := (h_heap h)(p \<mapsto> x\<lparr>hdr_value := value\<rparr>)\<rparr>)) })"

text \<open>Iteration: every pointer of the list is read.\<close>

fun read_all :: "(nat \<rightharpoonup> http_header) \<Rightarrow> (string \<times> nat) list \<Rightarrow> http_header list option" where
  "read_all heap [] = Some []"
| "read_all heap (e # es) = do { x \<leftarrow> heap (snd e); xs \<leftarrow> read_all heap es; Some (x # xs) }"

definition headers_iterate :: "headers \<Rightarrow> http_header list option" where
  "headers_iterate h = read_all (h_heap h) (h_list h)"

text \<open>
  \<^verbatim>\<open>DeepCopyFrom\<close>: the first loop copies the objects under fresh addresses, destroying what the target had
  under the key; the second appends to the list of the target; both the copy constructor and the
  assignment are this function.
\<close>

definition copy_object :: "headers \<Rightarrow> string \<times> nat \<Rightarrow> headers \<Rightarrow> headers option" where
  "copy_object rhs e h = do {
     x \<leftarrow> h_heap rhs (snd e);
     let heap = (case map_find (fst e) h of Some old \<Rightarrow> (h_heap h)(snd old := None) | None \<Rightarrow> h_heap h);
     let m = (if map_find (fst e) h = None then h_map h @ [(fst e, h_next h)]
              else map (\<lambda>y. if key_equiv (fst y) (fst e) then (fst y, h_next h) else y) (h_map h));
     Some (h\<lparr>h_heap := heap(h_next h \<mapsto> x), h_next := h_next h + 1, h_map := m\<rparr>) }"

fun copy_objects :: "headers \<Rightarrow> (string \<times> nat) list \<Rightarrow> headers \<Rightarrow> headers option" where
  "copy_objects rhs [] h = Some h"
| "copy_objects rhs (e # es) h = do { h \<leftarrow> copy_object rhs e h; copy_objects rhs es h }"

fun copy_list :: "(string \<times> nat) list \<Rightarrow> headers \<Rightarrow> headers option" where
  "copy_list [] h = Some h"
| "copy_list (e # es) h = do {
     m \<leftarrow> map_find (fst e) h;
     copy_list es (h\<lparr>h_list := h_list h @ [(fst e, snd m)]\<rparr>) }"

definition DeepCopyFrom :: "headers \<Rightarrow> headers \<Rightarrow> headers option" where
  "DeepCopyFrom rhs h = do {
     h \<leftarrow> copy_objects rhs (h_map rhs) h;
     h \<leftarrow> copy_list (h_list rhs) h;
     Some (h\<lparr>h_cookies := h_cookies rhs\<rparr>) }"

definition headers_copy :: "headers \<Rightarrow> headers option" where
  "headers_copy rhs = DeepCopyFrom rhs headers_empty"

text \<open>Cookies: \<^verbatim>\<open>std::map::emplace\<close> keeps a cookie that is already there.\<close>

definition cookie_emplace :: "string \<Rightarrow> string \<Rightarrow> (string \<times> cookie) list \<Rightarrow> (string \<times> cookie) list" where
  "cookie_emplace name value cs =
     (if map_of cs name = None then ordered_put name \<lparr>ck_value = value, ck_params = []\<rparr> cs else cs)"

definition ApplyCookieHeader :: "string \<Rightarrow> headers \<Rightarrow> headers" where
  "ApplyCookieHeader value h =
     (case SplitIntoKeyValuePairs value (match_char (CHR ''='')) (match_char (CHR '';'')) KeyValueParsing_Silent of
        Inr kvs \<Rightarrow> h\<lparr>h_cookies := fold (\<lambda>kv. cookie_emplace (Trim (fst kv)) (Trim (snd kv))) kvs (h_cookies h)\<rparr>
      | Inl x \<Rightarrow> h)"

definition SetHeaderOrCookie :: "string \<Rightarrow> string \<Rightarrow> headers \<Rightarrow> (header_exception + headers) option" where
  "SetHeaderOrCookie header value h =
     (if IsCookieHeader header then Some (Inr (ApplyCookieHeader value h)) else SetHeader header value h)"

text \<open>\<^verbatim>\<open>cookies[name] = value\<close> for a string assigns the value and keeps the parameters of an existing cookie.\<close>

definition SetCookie :: "string \<Rightarrow> string \<Rightarrow> headers \<Rightarrow> headers" where
  "SetCookie name value h =
     (let params = (case map_of (h_cookies h) name of Some c \<Rightarrow> ck_params c | None \<Rightarrow> [])
      in h\<lparr>h_cookies := ordered_put name \<lparr>ck_value = value, ck_params = params\<rparr> (h_cookies h)\<rparr>)"

definition SetCookieWithParams :: "string \<Rightarrow> string \<Rightarrow> (string \<times> string) list \<Rightarrow> headers \<Rightarrow> headers" where
  "SetCookieWithParams name value params h =
     h\<lparr>h_cookies := ordered_put name \<lparr>ck_value = value, ck_params = params\<rparr> (h_cookies h)\<rparr>"

fun cookies_loop :: "string \<Rightarrow> (string \<times> cookie) list \<Rightarrow> string" where
  "cookies_loop result [] = result"
| "cookies_loop result (c # cs) =
     cookies_loop ((if result \<noteq> [] then result @ ''; '' else result) @ fst c @ ''='' @ ck_value (snd c)) cs"

definition CookiesAsString :: "headers \<Rightarrow> string" where
  "CookiesAsString h = (if h_cookies h = [] then [] else cookies_loop [] (h_cookies h))"

subsection \<open>Keys\<close>

lemma signed_char_inj [simp]: "signed_char a = signed_char b \<longleftrightarrow> a = b"
proof
  assume eq: "signed_char a = signed_char b"
  have bound: "n = m" if "(if int n \<ge> 128 then int n - 256 else int n) = (if int m \<ge> 128 then int m - 256 else int m)"
    "n < 256" "m < 256" for n m :: nat
    using that by (auto split: if_splits)
  have "of_char a = (of_char b :: nat)"
    using bound [OF eq [unfolded signed_char_def Let_def]] by simp
  then show "a = b" by simp
qed simp

lemma key_equiv_iff: "key_equiv a b \<longleftrightarrow> map Canonical a = map Canonical b"
proof (induction a b rule: KeyComparator.induct)
  case (1 a lhs b rhs)
  then show ?case
    by (cases "signed_char (Canonical a)" "signed_char (Canonical b)" rule: linorder_cases)
      (auto simp: key_equiv_def)
qed (auto simp: key_equiv_def)

lemma key_equiv_refl [simp]: "key_equiv a a"
  by (simp add: key_equiv_iff)

lemma key_equiv_sym: "key_equiv a b \<longleftrightarrow> key_equiv b a"
  by (auto simp: key_equiv_iff)

subsection \<open>The invariant and the contents\<close>

definition deref :: "headers \<Rightarrow> string \<times> nat \<Rightarrow> http_header" where
  "deref h e = (case h_heap h (snd e) of Some x \<Rightarrow> x | None \<Rightarrow> \<lparr>hdr_header = [], hdr_value = []\<rparr>)"

definition headers_inv :: "headers \<Rightarrow> bool" where
  "headers_inv h \<longleftrightarrow> h_list h = h_map h \<and> distinct (map snd (h_map h)) \<and>
     distinct (map (\<lambda>e. map Canonical (fst e)) (h_map h)) \<and>
     (\<forall>e \<in> set (h_map h). snd e < h_next h \<and> h_heap h (snd e) \<noteq> None \<and> hdr_header (deref h e) = fst e)"

definition set_in_list :: "string \<Rightarrow> string \<Rightarrow> http_header list \<Rightarrow> http_header list" where
  "set_in_list header value xs =
     (if \<exists>x \<in> set xs. key_equiv (hdr_header x) header
      then map (\<lambda>x. if key_equiv (hdr_header x) header then x\<lparr>hdr_value := append_value (hdr_value x) value\<rparr> else x) xs
      else xs @ [\<lparr>hdr_header = header, hdr_value = append_value [] value\<rparr>])"

definition get_from_list :: "string \<Rightarrow> http_header list \<Rightarrow> string option" where
  "get_from_list header xs = map_option hdr_value (find (\<lambda>x. key_equiv (hdr_header x) header) xs)"

lemma read_all_deref:
  "\<forall>e \<in> set es. h_heap h (snd e) \<noteq> None \<Longrightarrow> read_all (h_heap h) es = Some (map (deref h) es)"
  by (induction es) (auto simp: deref_def)

lemma read_all_dangling: "e \<in> set es \<Longrightarrow> heap (snd e) = None \<Longrightarrow> read_all heap es = None"
proof (induction es)
  case (Cons a es)
  then show ?case by (cases "heap (snd a)") auto
qed simp

lemma headers_iterate_inv: "headers_inv h \<Longrightarrow> headers_iterate h = Some (map (deref h) (h_map h))"
  by (simp add: headers_iterate_def headers_inv_def read_all_deref)

lemma map_find_Some: "map_find header h = Some e \<Longrightarrow> e \<in> set (h_map h) \<and> key_equiv (fst e) header"
  by (auto simp: map_find_def find_Some_iff in_set_conv_nth)

lemma map_find_None: "map_find header h = None \<longleftrightarrow> (\<forall>e \<in> set (h_map h). \<not> key_equiv (fst e) header)"
  by (auto simp: map_find_def find_None_iff)

lemma headers_inv_unique:
  assumes "headers_inv h" "e \<in> set (h_map h)" "f \<in> set (h_map h)" "key_equiv (fst e) header" "key_equiv (fst f) header"
  shows "e = f"
  using assms by (auto simp: headers_inv_def key_equiv_iff distinct_map inj_on_def)

lemma map_find_inv:
  assumes inv: "headers_inv h" and e: "e \<in> set (h_map h)" "key_equiv (fst e) header"
  shows "map_find header h = Some e"
proof (cases "map_find header h")
  case None
  with e show ?thesis by (simp add: map_find_None)
next
  case (Some f)
  with map_find_Some [OF Some] headers_inv_unique [OF inv e(1) _ e(2), of f] show ?thesis by simp
qed

lemma headers_inv_ptr_unique:
  assumes "headers_inv h" "e \<in> set (h_map h)" "f \<in> set (h_map h)" "snd e = snd f"
  shows "e = f"
  using assms by (auto simp: headers_inv_def distinct_map inj_on_def)

lemma deref_cong: "h_heap h' (snd e) = h_heap h (snd e) \<Longrightarrow> deref h' e = deref h e"
  by (simp add: deref_def)

subsection \<open>The operations keep the invariant\<close>

lemma placeholder_inv:
  assumes inv: "headers_inv h" and p: "placeholder header h = (p, h')"
  shows "headers_inv h'" "\<exists>e \<in> set (h_map h'). snd e = p \<and> key_equiv (fst e) header"
    "map (deref h') (h_map h') =
       (if map_find header h = None then map (deref h) (h_map h) @ [\<lparr>hdr_header = header, hdr_value = []\<rparr>]
        else map (deref h) (h_map h))"
    "h_cookies h' = h_cookies h"
proof -
  have "headers_inv h' \<and> (\<exists>e \<in> set (h_map h'). snd e = p \<and> key_equiv (fst e) header) \<and>
    map (deref h') (h_map h') =
       (if map_find header h = None then map (deref h) (h_map h) @ [\<lparr>hdr_header = header, hdr_value = []\<rparr>]
        else map (deref h) (h_map h)) \<and> h_cookies h' = h_cookies h"
  proof (cases "map_find header h")
    case (Some e)
    then show ?thesis using inv p map_find_Some [OF Some] by (auto simp: placeholder_def)
  next
    case None
    let ?e = "(header, h_next h)"
    have fresh: "h_heap h' (snd e) = h_heap h (snd e)" if "e \<in> set (h_map h)" for e
      using inv that p None by (auto simp: headers_inv_def placeholder_def)
    have old: "map (deref h') (h_map h) = map (deref h) (h_map h)"
      using fresh by (auto intro: deref_cong)
    have new: "deref h' ?e = \<lparr>hdr_header = header, hdr_value = []\<rparr>"
      using p None by (auto simp: placeholder_def deref_def)
    have m: "h_map h' = h_map h @ [?e]" "h_list h' = h_list h @ [?e]" "h_next h' = h_next h + 1" "p = h_next h"
        "h_cookies h' = h_cookies h" "h_heap h' (h_next h) \<noteq> None"
      using p None by (auto simp: placeholder_def)
    have keys: "map Canonical header \<notin> set (map (\<lambda>e. map Canonical (fst e)) (h_map h))"
      using None by (auto simp: map_find_None key_equiv_iff)
    have "headers_inv h'"
      using inv keys fresh deref_cong [OF fresh] new
      by (auto simp: headers_inv_def m)
    then show ?thesis using None old new by (auto simp: m)
  qed
  then show "headers_inv h'" "\<exists>e \<in> set (h_map h'). snd e = p \<and> key_equiv (fst e) header"
    "map (deref h') (h_map h') =
       (if map_find header h = None then map (deref h) (h_map h) @ [\<lparr>hdr_header = header, hdr_value = []\<rparr>]
        else map (deref h) (h_map h))"
    "h_cookies h' = h_cookies h"
    by blast+
qed

text \<open>Writing the value of one object.\<close>

lemma heap_write_inv:
  fixes h :: headers and v :: string
  assumes inv: "headers_inv h" and e: "e \<in> set (h_map h)" and x: "h_heap h (snd e) = Some x"
  defines "h' \<equiv> h\<lparr>h_heap := (h_heap h)(snd e \<mapsto> x\<lparr>hdr_value := v\<rparr>)\<rparr>"
  shows "headers_inv h'"
    "map (deref h') (h_map h') =
       map (\<lambda>y. if key_equiv (hdr_header y) (fst e) then y\<lparr>hdr_value := v\<rparr> else y) (map (deref h) (h_map h))"
proof -
  have deref: "deref h' f = (if f = e then (deref h f)\<lparr>hdr_value := v\<rparr> else deref h f)" if "f \<in> set (h_map h)" for f
  proof (cases "f = e")
    case False
    then have "snd f \<noteq> snd e" using headers_inv_ptr_unique [OF inv that e] by blast
    with False show ?thesis by (simp add: h'_def deref_def)
  qed (simp add: h'_def deref_def x)
  have names: "hdr_header (deref h f) = fst f" if "f \<in> set (h_map h)" for f
    using inv that by (auto simp: headers_inv_def)
  have eq: "key_equiv (fst f) (fst e) \<longleftrightarrow> f = e" if "f \<in> set (h_map h)" for f
    using headers_inv_unique [OF inv that e] by auto
  show "headers_inv h'"
    using inv deref names by (auto simp: headers_inv_def h'_def)
  have "h_map h' = h_map h" by (simp add: h'_def)
  then show "map (deref h') (h_map h') =
      map (\<lambda>y. if key_equiv (hdr_header y) (fst e) then y\<lparr>hdr_value := v\<rparr> else y) (map (deref h) (h_map h))"
    by (auto simp: deref names eq)
qed

lemma SetHeader_spec:
  assumes inv: "headers_inv h" and cookie: "\<not> IsCookieHeader header" and name: "header \<noteq> []"
  obtains h' where "SetHeader header value h = Some (Inr h')" "headers_inv h'" "h_cookies h' = h_cookies h"
    "map (deref h') (h_map h') = set_in_list header value (map (deref h) (h_map h))"
proof -
  obtain p k where pk: "placeholder header h = (p, k)" by (cases "placeholder header h")
  note k = placeholder_inv [OF inv pk]
  obtain e where e: "e \<in> set (h_map k)" "snd e = p" "key_equiv (fst e) header" using k(2) by blast
  obtain x where x: "h_heap k (snd e) = Some x" using k(1) e(1) by (auto simp: headers_inv_def)
  let ?v = "append_value (hdr_value x) value"
  define h' where "h' = k\<lparr>h_heap := (h_heap k)(snd e \<mapsto> x\<lparr>hdr_value := ?v\<rparr>)\<rparr>"
  note h' = heap_write_inv [OF k(1) e(1) x, of ?v, folded h'_def]
  have set: "SetHeader header value h = Some (Inr h')"
    using cookie name x e(2) by (simp add: SetHeader_def pk h'_def)
  have same: "key_equiv y (fst e) \<longleftrightarrow> key_equiv y header" for y
    using e(3) by (simp add: key_equiv_iff)
  have xe: "y = x" if "y \<in> set (map (deref k) (h_map k))" "key_equiv (hdr_header y) header" for y
  proof -
    from that(1) obtain f where f: "f \<in> set (h_map k)" "y = deref k f" unfolding set_map by blast
    then have "hdr_header y = fst f" using k(1) by (auto simp: headers_inv_def)
    with that(2) headers_inv_unique [OF k(1) f(1) e(1) _ e(3)] have "f = e" by auto
    then show ?thesis using f(2) x by (simp add: deref_def)
  qed
  have upd: "map (deref h') (h_map h') =
      map (\<lambda>y. if key_equiv (hdr_header y) header then y\<lparr>hdr_value := append_value (hdr_value y) value\<rparr> else y)
        (map (deref k) (h_map k))"
    unfolding h'(2) same using xe by (intro map_cong) auto
  have found: "(\<exists>x \<in> set (map (deref h) (h_map h)). key_equiv (hdr_header x) header) \<longleftrightarrow> map_find header h \<noteq> None"
    using inv by (auto simp: map_find_None headers_inv_def)
  have "map (deref h') (h_map h') = set_in_list header value (map (deref h) (h_map h))"
  proof (cases "map_find header h")
    case None
    then have none: "\<not> key_equiv (hdr_header y) header" if "y \<in> set (map (deref h) (h_map h))" for y
      using found that by blast
    have "map (\<lambda>y. if key_equiv (hdr_header y) header then y\<lparr>hdr_value := append_value (hdr_value y) value\<rparr> else y)
        (map (deref h) (h_map h)) = map (deref h) (h_map h)"
      using none by (intro map_idI) auto
    then show ?thesis using None none unfolding upd k(3) set_in_list_def by auto
  next
    case (Some f)
    then show ?thesis using found unfolding upd k(3) set_in_list_def by auto
  qed
  moreover have "h_cookies h' = h_cookies h" using k(4) by (simp add: h'_def)
  ultimately show thesis using that [OF set h'(1)] by blast
qed

lemma GetHeader_spec:
  assumes inv: "headers_inv h" and cookie: "\<not> IsCookieHeader header"
  shows "GetHeader header h =
    Some (case get_from_list header (map (deref h) (h_map h)) of
            Some v \<Rightarrow> Inr v | None \<Rightarrow> Inl (HeaderNotFoundException header))"
proof -
  have "find (\<lambda>x. key_equiv (hdr_header x) header) (map (deref h) es) =
        map_option (deref h) (find (\<lambda>e. key_equiv (fst e) header) es)"
    if "\<forall>e \<in> set es. hdr_header (deref h e) = fst e" for es
    using that by (induction es) auto
  then have get: "get_from_list header (map (deref h) (h_map h)) =
      map_option (\<lambda>e. hdr_value (deref h e)) (map_find header h)"
    using inv by (simp add: get_from_list_def map_find_def headers_inv_def option.map_comp comp_def)
  show ?thesis
  proof (cases "map_find header h")
    case (Some e)
    then obtain x where "h_heap h (snd e) = Some x"
      using inv map_find_Some [OF Some] by (auto simp: headers_inv_def)
    then show ?thesis using Some cookie by (simp add: GetHeader_def get deref_def)
  qed (simp add: GetHeader_def get cookie)
qed

lemma RemoveHeader_exact:
  assumes inv: "headers_inv h" and cookie: "\<not> IsCookieHeader header" and e: "(header, p) \<in> set (h_map h)"
  shows "\<exists>h'. RemoveHeader header h = Inr h' \<and> headers_inv h' \<and>
    map (deref h') (h_map h') = filter (\<lambda>x. \<not> key_equiv (hdr_header x) header) (map (deref h) (h_map h))"
proof -
  have eq: "key_equiv (fst f) header \<longleftrightarrow> f = (header, p)" if "f \<in> set (h_map h)" for f
    using headers_inv_unique [OF inv that e] by auto
  have find: "map_find header h = Some (header, p)"
    by (rule map_find_inv [OF inv e]) simp
  have names: "fst f \<noteq> header \<longleftrightarrow> f \<noteq> (header, p)" if "f \<in> set (h_map h)" for f
    using eq [OF that] by auto
  have ptr: "snd f \<noteq> p" if "f \<in> set (h_map h)" "f \<noteq> (header, p)" for f
    using headers_inv_ptr_unique [OF inv that(1) e] that(2) by auto
  define h' where "h' = h\<lparr>h_heap := (h_heap h)(p := None), h_map := filter (\<lambda>x. x \<noteq> (header, p)) (h_map h),
    h_list := filter (\<lambda>x. fst x \<noteq> header) (h_list h)\<rparr>"
  have rm: "RemoveHeader header h = Inr h'" by (simp add: RemoveHeader_def cookie find h'_def)
  have deref: "deref h' f = deref h f" if "f \<in> set (h_map h)" "f \<noteq> (header, p)" for f
    using ptr [OF that] by (simp add: deref_def h'_def)
  have list: "filter (\<lambda>x. fst x \<noteq> header) (h_list h) = filter (\<lambda>x. x \<noteq> (header, p)) (h_map h)"
  proof -
    have "h_list h = h_map h" using inv by (simp add: headers_inv_def)
    then show ?thesis using names by (simp cong: filter_cong)
  qed
  have "headers_inv h'"
    using inv list deref ptr by (auto simp: headers_inv_def h'_def distinct_map inj_on_def)
  moreover have "map (deref h') (h_map h') = filter (\<lambda>x. \<not> key_equiv (hdr_header x) header) (map (deref h) (h_map h))"
  proof -
    have "map (deref h') (h_map h') = map (deref h) (filter (\<lambda>x. x \<noteq> (header, p)) (h_map h))"
      using deref by (simp add: h'_def)
    also have "\<dots> = map (deref h) (filter (\<lambda>x. \<not> key_equiv (hdr_header (deref h x)) header) (h_map h))"
      using eq inv by (intro arg_cong [where f = "map (deref h)"] filter_cong) (auto simp: headers_inv_def)
    finally show ?thesis by (simp add: filter_map comp_def)
  qed
  ultimately show ?thesis using rm by blast
qed

text \<open>Under another spelling of its name, the object dies and its pointer stays in the list.\<close>

lemma RemoveHeader_other_spelling:
  assumes inv: "headers_inv h" and cookie: "\<not> IsCookieHeader header"
    and e: "(name, p) \<in> set (h_map h)" "key_equiv name header" "name \<noteq> header"
  shows "\<exists>h'. RemoveHeader header h = Inr h' \<and> headers_iterate h' = None \<and> HasHeader header h' = Inr False"
proof -
  have "map_find header h = Some (name, p)"
    by (rule map_find_inv [OF inv e(1)]) (simp add: e(2))
  moreover define h' where "h' = h\<lparr>h_heap := (h_heap h)(p := None), h_map := filter (\<lambda>x. x \<noteq> (name, p)) (h_map h),
    h_list := filter (\<lambda>x. fst x \<noteq> header) (h_list h)\<rparr>"
  ultimately have rm: "RemoveHeader header h = Inr h'" by (simp add: RemoveHeader_def cookie h'_def)
  have "(name, p) \<in> set (h_list h')" using e inv by (simp add: h'_def headers_inv_def)
  moreover have "h_heap h' (snd (name, p)) = None" by (simp add: h'_def)
  ultimately have "headers_iterate h' = None" unfolding headers_iterate_def by (rule read_all_dangling)
  moreover have "map_find header h' = None"
    unfolding map_find_None
  proof
    fix f
    assume "f \<in> set (h_map h')"
    then have "f \<in> set (h_map h)" "f \<noteq> (name, p)" by (simp_all add: h'_def)
    then show "\<not> key_equiv (fst f) header" using headers_inv_unique [OF inv _ e(1), of f header] e(2) by auto
  qed
  ultimately show ?thesis using rm cookie by (simp add: HasHeader_def)
qed

subsection \<open>Copies\<close>

definition copies_into :: "headers \<Rightarrow> (string \<times> nat) list \<Rightarrow> headers \<Rightarrow> headers \<Rightarrow> bool" where
  "copies_into rhs es h h' \<longleftrightarrow>
     h_map h' = h_map h @ zip (map fst es) [h_next h..<h_next h + length es] \<and>
     h_list h' = h_list h \<and> h_cookies h' = h_cookies h \<and> h_next h' = h_next h + length es \<and>
     (\<forall>p < h_next h. h_heap h' p = h_heap h p) \<and>
     (\<forall>i < length es. h_heap h' (h_next h + i) = h_heap rhs (snd (es ! i)))"

lemma copy_objects_fresh:
  assumes "\<forall>e \<in> set es. h_heap rhs (snd e) \<noteq> None"
    and "distinct (map (\<lambda>e. map Canonical (fst e)) (h_map h @ es))"
    and "\<forall>e \<in> set (h_map h). snd e < h_next h"
  shows "\<exists>h'. copy_objects rhs es h = Some h' \<and> copies_into rhs es h h'"
  using assms
proof (induction es arbitrary: h)
  case Nil
  then show ?case by (simp add: copies_into_def)
next
  case (Cons e es)
  obtain x where x: "h_heap rhs (snd e) = Some x" using Cons.prems(1) by (cases "h_heap rhs (snd e)") simp_all
  have "map Canonical (fst e) \<notin> (\<lambda>e. map Canonical (fst e)) ` set (h_map h)" using Cons.prems(2) by simp
  then have new: "map_find (fst e) h = None" by (auto simp: map_find_None key_equiv_iff image_iff)
  define k where "k = h\<lparr>h_heap := (h_heap h)(h_next h \<mapsto> x), h_next := h_next h + 1,
    h_map := h_map h @ [(fst e, h_next h)]\<rparr>"
  have step: "copy_object rhs e h = Some k" by (simp add: copy_object_def x new k_def)
  have "\<exists>h'. copy_objects rhs es k = Some h' \<and> copies_into rhs es k h'"
  proof (rule Cons.IH)
    show "\<forall>e \<in> set es. h_heap rhs (snd e) \<noteq> None" using Cons.prems(1) by simp
    show "distinct (map (\<lambda>e. map Canonical (fst e)) (h_map k @ es))" using Cons.prems(2) by (simp add: k_def)
    show "\<forall>e \<in> set (h_map k). snd e < h_next k" using Cons.prems(3) by (auto simp: k_def)
  qed
  then obtain h' where h': "copy_objects rhs es k = Some h'" "copies_into rhs es k h'" by blast
  have k: "h_map k = h_map h @ [(fst e, h_next h)]" "h_list k = h_list h" "h_cookies k = h_cookies h"
      "h_next k = Suc (h_next h)" "h_heap k (h_next h) = Some x" "\<forall>p < h_next h. h_heap k p = h_heap h p"
    by (simp_all add: k_def)
  have "copies_into rhs (e # es) h h'"
    unfolding copies_into_def
  proof (intro conjI allI impI)
    have "[h_next h..<h_next h + length (e # es)] = h_next h # [Suc (h_next h)..<Suc (h_next h) + length es]"
      by (subst upt_rec) simp
    then show "h_map h' = h_map h @ zip (map fst (e # es)) [h_next h..<h_next h + length (e # es)]"
      using h'(2) unfolding copies_into_def k by simp
    show "h_heap h' p = h_heap h p" if "p < h_next h" for p
      using h'(2) k(6) that unfolding copies_into_def k(4) by (metis less_SucI)
    show "h_heap h' (h_next h + i) = h_heap rhs (snd ((e # es) ! i))" if "i < length (e # es)" for i
    proof (cases i)
      case 0
      then show ?thesis using h'(2) x unfolding copies_into_def k(4) by (simp add: k(5))
    next
      case (Suc j)
      then have "h_heap h' (Suc (h_next h) + j) = h_heap rhs (snd (es ! j))"
        using h'(2) that unfolding copies_into_def k(4) by simp
      then show ?thesis using Suc by simp
    qed
  qed (use h'(2) in \<open>simp_all add: copies_into_def k\<close>)
  then show ?case using h'(1) step by simp
qed

lemma copy_list_found:
  assumes "\<forall>e \<in> set es. map_find (fst e) h = Some (fst e, f e)"
  shows "copy_list es h = Some (h\<lparr>h_list := h_list h @ map (\<lambda>e. (fst e, f e)) es\<rparr>)"
  using assms
proof (induction es arbitrary: h)
  case (Cons e es)
  let ?k = "h\<lparr>h_list := h_list h @ [(fst e, f e)]\<rparr>"
  have "map_find x ?k = map_find x h" for x by (simp add: map_find_def)
  then have "copy_list es ?k = Some (?k\<lparr>h_list := h_list ?k @ map (\<lambda>e. (fst e, f e)) es\<rparr>)"
    by (intro Cons.IH) (use Cons.prems in auto)
  then show ?case using Cons.prems by simp
qed simp

lemma copied_map:
  assumes inv: "headers_inv rhs" and k: "copies_into rhs (h_map rhs) headers_empty k"
  defines "h' \<equiv> k\<lparr>h_list := h_map k, h_cookies := h_cookies rhs\<rparr>"
  shows "headers_inv h'" "map (deref h') (h_map h') = map (deref rhs) (h_map rhs)" "map fst (h_map k) = map fst (h_map rhs)"
proof -
  let ?es = "h_map rhs"
  have m: "h_map k = zip (map fst ?es) [0..<length ?es]" "h_next k = length ?es"
      "\<And>i. i < length ?es \<Longrightarrow> h_heap k i = h_heap rhs (snd (?es ! i))"
    using k by (simp_all add: copies_into_def headers_empty_def)
  have h': "deref h' = deref k" "h_map h' = h_map k" by (simp_all add: h'_def deref_def fun_eq_iff)
  have len: "length (h_map k) = length ?es" by (simp add: m)
  have deref_k: "deref k (h_map k ! i) = deref rhs (?es ! i)" if "i < length ?es" for i
    using that m(3) by (simp add: deref_def m(1))
  show keys: "map fst (h_map k) = map fst ?es" by (simp add: m)
  show "map (deref h') (h_map h') = map (deref rhs) ?es"
    by (rule nth_equalityI) (simp_all add: h' len deref_k)
  have "map (\<lambda>e. map Canonical (fst e)) (h_map k) = map (map Canonical) (map fst (h_map k))" by simp
  also have "\<dots> = map (\<lambda>e. map Canonical (fst e)) ?es" unfolding keys by simp
  finally have canon: "distinct (map (\<lambda>e. map Canonical (fst e)) (h_map k))"
    using inv by (simp add: headers_inv_def)
  have "snd e < h_next k \<and> h_heap k (snd e) \<noteq> None \<and> hdr_header (deref k e) = fst e" if e: "e \<in> set (h_map k)" for e
  proof -
    obtain i where i: "i < length ?es" "e = h_map k ! i" using e len by (metis in_set_conv_nth)
    have mem: "?es ! i \<in> set ?es" using i(1) by simp
    then have "hdr_header (deref rhs (?es ! i)) = fst (?es ! i)" "h_heap rhs (snd (?es ! i)) \<noteq> None"
      using inv unfolding headers_inv_def by blast+
    then show ?thesis using i deref_k [OF i(1)] m(3) [OF i(1)] by (simp add: m(1,2))
  qed
  then show "headers_inv h'"
    unfolding headers_inv_def h' using canon by (simp add: h'_def m(1))
qed

lemma headers_copy_spec:
  assumes inv: "headers_inv rhs"
  shows "\<exists>h'. headers_copy rhs = Some h' \<and> headers_inv h' \<and>
    map (deref h') (h_map h') = map (deref rhs) (h_map rhs) \<and> h_cookies h' = h_cookies rhs"
proof -
  let ?es = "h_map rhs"
  have "\<exists>k. copy_objects rhs ?es headers_empty = Some k \<and> copies_into rhs ?es headers_empty k"
    by (rule copy_objects_fresh) (use inv in \<open>simp_all add: headers_inv_def headers_empty_def\<close>)
  then obtain k where k: "copy_objects rhs ?es headers_empty = Some k" "copies_into rhs ?es headers_empty k" by blast
  define h' where "h' = k\<lparr>h_list := h_map k, h_cookies := h_cookies rhs\<rparr>"
  note h' = copied_map [OF inv k(2), folded h'_def]
  have found: "map_find (fst e) k = Some e" if "e \<in> set (h_map k)" for e
  proof -
    have "map_find (fst e) k = map_find (fst e) h'" by (simp add: map_find_def h'_def)
    also have "\<dots> = Some e" by (rule map_find_inv [OF h'(1)]) (use that in \<open>simp_all add: h'_def\<close>)
    finally show ?thesis .
  qed
  define f where "f = (\<lambda>e :: string \<times> nat. case map_find (fst e) k of Some m \<Rightarrow> snd m | None \<Rightarrow> 0)"
  have find: "map_find (fst (?es ! i)) k = Some (h_map k ! i) \<and> fst (h_map k ! i) = fst (?es ! i)" if "i < length ?es" for i
  proof -
    have len: "length (h_map k) = length ?es" using arg_cong [OF h'(3), of length] by simp
    then have "fst (h_map k ! i) = fst (?es ! i)" using that h'(3) by (metis nth_map)
    with found [of "h_map k ! i"] that len show ?thesis by simp
  qed
  have es: "\<forall>e \<in> set ?es. map_find (fst e) k = Some (fst e, f e)"
  proof
    fix e
    assume "e \<in> set ?es"
    then obtain i where i: "i < length ?es" "e = ?es ! i" by (metis in_set_conv_nth)
    from find [OF i(1)] show "map_find (fst e) k = Some (fst e, f e)"
      unfolding i(2) f_def by (cases "h_map k ! i") simp
  qed
  have "map (\<lambda>e. (fst e, f e)) ?es = h_map k"
  proof (rule nth_equalityI)
    show "length (map (\<lambda>e. (fst e, f e)) ?es) = length (h_map k)" using arg_cong [OF h'(3), of length] by simp
    fix i
    assume "i < length (map (\<lambda>e. (fst e, f e)) ?es)"
    then show "map (\<lambda>e. (fst e, f e)) ?es ! i = h_map k ! i" using find [of i] es by simp
  qed
  moreover have "h_list rhs = ?es" "h_list k = []" using inv k(2) by (simp_all add: headers_inv_def copies_into_def headers_empty_def)
  ultimately have "headers_copy rhs = Some h'"
    using k(1) copy_list_found [OF es] by (simp add: headers_copy_def DeepCopyFrom_def h'_def)
  then show ?thesis using h' by (auto simp: h'_def)
qed

text \<open>An assignment over a header that was already there leaves a dangling pointer in the list.\<close>

lemma find_append_Some: "find P xs = Some x \<Longrightarrow> find P (xs @ ys) = Some x"
  by (induction xs) auto

lemma find_map_others:
  "find P xs = Some x \<Longrightarrow> \<forall>y \<in> set xs. f y = y \<or> \<not> P y \<and> \<not> P (f y) \<Longrightarrow> find P (map f xs) = Some x"
  by (induction xs) (auto split: if_splits)

lemma map_find_cong: "key_equiv a b \<Longrightarrow> map_find a h = map_find b h"
  by (simp add: map_find_def key_equiv_iff)

lemma copy_object_step:
  assumes step: "copy_object rhs e h = Some h'" and p: "p < h_next h"
  shows "p < h_next h'" "h_list h' = h_list h" "h_heap h p = None \<Longrightarrow> h_heap h' p = None"
    "map_find (fst e) h = Some (n, p) \<Longrightarrow> h_heap h' p = None"
    "map_find n h = Some (n, p) \<Longrightarrow> \<not> key_equiv n (fst e) \<Longrightarrow> map_find n h' = Some (n, p)"
proof -
  obtain x m heap where h': "h' = h\<lparr>h_heap := heap(h_next h \<mapsto> x), h_next := h_next h + 1, h_map := m\<rparr>"
    and heap: "heap = (case map_find (fst e) h of Some old \<Rightarrow> (h_heap h)(snd old := None) | None \<Rightarrow> h_heap h)"
    and m: "m = (if map_find (fst e) h = None then h_map h @ [(fst e, h_next h)]
              else map (\<lambda>y. if key_equiv (fst y) (fst e) then (fst y, h_next h) else y) (h_map h))"
    using step by (auto simp: copy_object_def bind_eq_Some_conv Let_def)
  show "p < h_next h'" "h_list h' = h_list h" using p by (simp_all add: h')
  show "h_heap h' p = None" if "h_heap h p = None" using that p by (simp add: h' heap split: option.split)
  show "h_heap h' p = None" if "map_find (fst e) h = Some (n, p)" using that p by (simp add: h' heap)
  show "map_find n h' = Some (n, p)" if find: "map_find n h = Some (n, p)" and other: "\<not> key_equiv n (fst e)"
  proof (cases "map_find (fst e) h = None")
    case True
    then show ?thesis using find by (simp add: h' m map_find_def find_append_Some)
  next
    case False
    have "\<not> key_equiv (fst y) n" if "key_equiv (fst y) (fst e)" for y
      using that other by (simp add: key_equiv_iff)
    then have "find (\<lambda>e. key_equiv (fst e) n)
        (map (\<lambda>y. if key_equiv (fst y) (fst e) then (fst y, h_next h) else y) (h_map h)) = Some (n, p)"
      using find unfolding map_find_def by (intro find_map_others) auto
    moreover have "m = map (\<lambda>y. if key_equiv (fst y) (fst e) then (fst y, h_next h) else y) (h_map h)"
      unfolding m using False by (rule if_not_P)
    ultimately show ?thesis by (simp add: h' map_find_def)
  qed
qed

lemma copy_objects_kill:
  assumes "copy_objects rhs es h = Some h'" "p < h_next h"
    "h_heap h p = None \<or> map_find n h = Some (n, p) \<and> (\<exists>e \<in> set es. key_equiv n (fst e))"
  shows "h_heap h' p = None \<and> h_list h' = h_list h"
  using assms
proof (induction es arbitrary: h)
  case (Cons e es)
  then obtain k where k: "copy_object rhs e h = Some k" "copy_objects rhs es k = Some h'"
    by (auto simp: bind_eq_Some_conv)
  note step = copy_object_step [OF k(1) Cons.prems(2)]
  have "h_heap k p = None \<or> map_find n k = Some (n, p) \<and> (\<exists>e \<in> set es. key_equiv n (fst e))"
  proof (cases "h_heap h p = None")
    case True
    then show ?thesis using step(3) by blast
  next
    case False
    have "map_find n h = Some (n, p) \<and> (\<exists>e \<in> set (e # es). key_equiv n (fst e))"
      by (rule disjE [OF Cons.prems(3)]) (simp_all add: False)
    note find = conjunct1 [OF this] and ex = conjunct2 [OF this]
    show ?thesis
    proof (cases "key_equiv n (fst e)")
      case True
      then show ?thesis using step(4) find map_find_cong [OF True, of h] by simp
    next
      case other: False
      then show ?thesis using step(5) find ex by simp
    qed
  qed
  with Cons.IH [OF k(2) step(1)] step(2) show ?case by simp
qed auto

lemma copy_list_keeps:
  "copy_list es h = Some h' \<Longrightarrow> h_heap h' = h_heap h \<and> set (h_list h) \<subseteq> set (h_list h')"
proof (induction es arbitrary: h)
  case (Cons e es)
  then obtain m where "copy_list es (h\<lparr>h_list := h_list h @ [(fst e, snd m)]\<rparr>) = Some h'"
    by (auto simp: bind_eq_Some_conv)
  from Cons.IH [OF this] show ?case by simp
qed simp

lemma assignment_dangles:
  assumes inv: "headers_inv h" and common: "(n, p) \<in> set (h_map h)" "e \<in> set (h_map rhs)" "key_equiv n (fst e)"
  shows "Option.bind (DeepCopyFrom rhs h) headers_iterate = None"
proof (cases "DeepCopyFrom rhs h")
  case (Some h')
  then obtain k l where k: "copy_objects rhs (h_map rhs) h = Some k" "copy_list (h_list rhs) k = Some l"
    "h' = l\<lparr>h_cookies := h_cookies rhs\<rparr>"
    by (auto simp: DeepCopyFrom_def bind_eq_Some_conv)
  have "p < h_next h" "map_find n h = Some (n, p)" "(n, p) \<in> set (h_list h)"
    using inv common(1) map_find_inv [OF inv common(1), of n] by (auto simp: headers_inv_def)
  moreover have "\<exists>e \<in> set (h_map rhs). key_equiv n (fst e)" using common(2,3) by blast
  ultimately have dead: "h_heap k p = None" "(n, p) \<in> set (h_list k)"
    using copy_objects_kill [OF k(1), of p n] by simp_all
  then have "h_heap h' p = None" "(n, p) \<in> set (h_list h')"
    using copy_list_keeps [OF k(2)] k(3) by auto
  then show ?thesis using Some read_all_dangling [of "(n, p)" "h_list h'" "h_heap h'"] by (simp add: headers_iterate_def)
qed simp

subsection \<open>Properties\<close>

text \<open>
  C21: Setting and reading headers.  On well-formed headers, \<^verbatim>\<open>Set\<close> with a non-empty name that is not one of
  the cookie headers succeeds and keeps them well-formed: iteration then shows the value appended after a
  comma to the header of that name, in whatever capitalization and with \<^verbatim>\<open>-\<close> and \<^verbatim>\<open>_\<close> alike, or a new header at the
  end; and \<^verbatim>\<open>Get\<close> under any name gives what iteration shows under that name.
\<close>

theorem headers_set_get:
  assumes "headers_inv h" "\<not> IsCookieHeader header" "header \<noteq> []" "headers_iterate h = Some xs"
  shows "\<exists>h'. SetHeader header value h = Some (Inr h') \<and> headers_inv h' \<and>
    headers_iterate h' = Some (set_in_list header value xs) \<and>
    (\<forall>name. \<not> IsCookieHeader name \<longrightarrow> GetHeader name h' =
       Some (case get_from_list name (set_in_list header value xs) of
               Some v \<Rightarrow> Inr v | None \<Rightarrow> Inl (HeaderNotFoundException name)))"
proof -
  have xs: "xs = map (deref h) (h_map h)" using assms(1,4) by (simp add: headers_iterate_inv)
  obtain h' where h': "SetHeader header value h = Some (Inr h')" "headers_inv h'"
    "map (deref h') (h_map h') = set_in_list header value (map (deref h) (h_map h))"
    using SetHeader_spec [OF assms(1,2,3)] by metis
  then show ?thesis using GetHeader_spec [OF h'(2)] by (simp add: xs headers_iterate_inv)
qed

definition two_headers :: headers where
  "two_headers = \<lparr>h_heap = [0 \<mapsto> \<lparr>hdr_header = ''accept'', hdr_value = ''a''\<rparr>, 1 \<mapsto> \<lparr>hdr_header = ''x-key'', hdr_value = ''k''\<rparr>],
     h_next = 2, h_map = [(''accept'', 0), (''x-key'', 1)], h_list = [(''accept'', 0), (''x-key'', 1)], h_cookies = []\<rparr>"

lemma two_headers_inv: "headers_inv two_headers"
  by (simp add: headers_inv_def two_headers_def deref_def Canonical_def)

theorem headers_set_get_witness:
  "\<exists>h'. SetHeader ''x_key'' ''l'' two_headers = Some (Inr h') \<and> GetHeader ''x-key'' h' = Some (Inr ''k, l'')"
proof -
  have c: "\<not> IsCookieHeader ''x_key''" "\<not> IsCookieHeader ''x-key''"
    by (simp_all add: IsCookieHeader_def key_equiv_iff Canonical_def)
  have it: "headers_iterate two_headers =
      Some [\<lparr>hdr_header = ''accept'', hdr_value = ''a''\<rparr>, \<lparr>hdr_header = ''x-key'', hdr_value = ''k''\<rparr>]"
    by (simp add: headers_iterate_def two_headers_def)
  from headers_set_get [OF two_headers_inv c(1) _ it, of "''l''"] obtain h' where
    h': "SetHeader ''x_key'' ''l'' two_headers = Some (Inr h')"
    "GetHeader ''x-key'' h' = Some (case get_from_list ''x-key'' (set_in_list ''x_key'' ''l''
       [\<lparr>hdr_header = ''accept'', hdr_value = ''a''\<rparr>, \<lparr>hdr_header = ''x-key'', hdr_value = ''k''\<rparr>]) of
               Some v \<Rightarrow> Inr v | None \<Rightarrow> Inl (HeaderNotFoundException ''x-key''))"
    using c(2) by auto
  then show ?thesis
    by (simp add: set_in_list_def get_from_list_def key_equiv_iff Canonical_def append_value_def)
qed

text \<open>
  Copying and removing.  A copy of well-formed headers is well-formed and shows the same headers and cookies,
  and removing a header under the spelling it was created with removes exactly that header.
\<close>

theorem headers_copy_remove:
  assumes "headers_inv h" "headers_iterate h = Some xs"
  shows "(\<exists>h'. headers_copy h = Some h' \<and> headers_inv h' \<and> headers_iterate h' = Some xs \<and> h_cookies h' = h_cookies h) \<and>
    (\<forall>x \<in> set xs. \<not> IsCookieHeader (hdr_header x) \<longrightarrow>
       (\<exists>h'. RemoveHeader (hdr_header x) h = Inr h' \<and> headers_inv h' \<and>
          headers_iterate h' = Some (filter (\<lambda>y. \<not> key_equiv (hdr_header y) (hdr_header x)) xs)))"
proof -
  have xs: "xs = map (deref h) (h_map h)" using assms by (simp add: headers_iterate_inv)
  obtain h' where "headers_copy h = Some h'" "headers_inv h'" "map (deref h') (h_map h') = xs" "h_cookies h' = h_cookies h"
    using headers_copy_spec [OF assms(1)] unfolding xs by blast
  then have copy: "\<exists>h'. headers_copy h = Some h' \<and> headers_inv h' \<and> headers_iterate h' = Some xs \<and> h_cookies h' = h_cookies h"
    by (auto simp: headers_iterate_inv)
  have "\<exists>h'. RemoveHeader (hdr_header x) h = Inr h' \<and> headers_inv h' \<and>
      headers_iterate h' = Some (filter (\<lambda>y. \<not> key_equiv (hdr_header y) (hdr_header x)) xs)"
    if x: "x \<in> set xs" "\<not> IsCookieHeader (hdr_header x)" for x
  proof -
    from x(1) obtain e where e: "e \<in> set (h_map h)" "x = deref h e" unfolding xs set_map by blast
    then have "(hdr_header x, snd e) \<in> set (h_map h)" using assms(1) by (auto simp: headers_inv_def)
    from RemoveHeader_exact [OF assms(1) x(2) this] show ?thesis unfolding xs by (auto simp: headers_iterate_inv)
  qed
  with copy show ?thesis by blast
qed

theorem headers_copy_remove_witness:
  "\<exists>h'. RemoveHeader ''x-key'' two_headers = Inr h' \<and>
     headers_iterate h' = Some [\<lparr>hdr_header = ''accept'', hdr_value = ''a''\<rparr>]"
proof -
  let ?xs = "[\<lparr>hdr_header = ''accept'', hdr_value = ''a''\<rparr>, \<lparr>hdr_header = ''x-key'', hdr_value = ''k''\<rparr>]"
  have it: "headers_iterate two_headers = Some ?xs" by (simp add: headers_iterate_def two_headers_def)
  have c: "\<not> IsCookieHeader ''x-key''" by (simp add: IsCookieHeader_def key_equiv_iff Canonical_def)
  from headers_copy_remove [OF two_headers_inv it, THEN conjunct2] c obtain h' where
    "RemoveHeader ''x-key'' two_headers = Inr h'"
    "headers_iterate h' = Some (filter (\<lambda>y. \<not> key_equiv (hdr_header y) ''x-key'') ?xs)"
    by (metis http_header.select_convs(1) list.set_intros(1) list.set_intros(2))
  then show ?thesis by (simp add: key_equiv_iff Canonical_def)
qed

text \<open>
  C22: Dangling headers.  Removing a header under another spelling of its name (\<^verbatim>\<open>content-type\<close> for
  \<^verbatim>\<open>Content-Type\<close>) destroys it and keeps the pointer to it in the list, and so does assigning other headers that have
  one of the same name: iterating over the result reads a destroyed object.
\<close>

theorem headers_dangle:
  assumes "headers_inv h" "(name, p) \<in> set (h_map h)" "key_equiv name header"
  shows "(name \<noteq> header \<and> \<not> IsCookieHeader header \<longrightarrow>
      (\<exists>h'. RemoveHeader header h = Inr h' \<and> headers_iterate h' = None)) \<and>
    (\<forall>rhs q. (header, q) \<in> set (h_map rhs) \<longrightarrow> Option.bind (DeepCopyFrom rhs h) headers_iterate = None)"
  using RemoveHeader_other_spelling [OF assms(1) _ assms(2,3)] assignment_dangles [OF assms(1,2)] assms(3) by fastforce

theorem headers_dangle_witness:
  "(\<exists>h'. RemoveHeader ''x_key'' two_headers = Inr h' \<and> headers_iterate h' = None) \<and>
   Option.bind (DeepCopyFrom two_headers two_headers) headers_iterate = None"
proof -
  have e: "(''x-key'', 1) \<in> set (h_map two_headers)" "key_equiv ''x-key'' ''x_key''" "\<not> IsCookieHeader ''x_key''"
    by (simp_all add: two_headers_def key_equiv_iff Canonical_def IsCookieHeader_def)
  have "\<exists>h'. RemoveHeader ''x_key'' two_headers = Inr h' \<and> headers_iterate h' = None"
    using headers_dangle [OF two_headers_inv e(1,2), THEN conjunct1] e(3) by simp
  moreover have "Option.bind (DeepCopyFrom two_headers two_headers) headers_iterate = None"
    using headers_dangle [OF two_headers_inv e(1) key_equiv_refl, THEN conjunct2] e(1) by blast
  ultimately show ?thesis by blast
qed

end
