(* ===== verification/Http.thy ===== *)
theory Http
  imports Headers
begin

text \<open>
  Sending HTTP responses, \<^verbatim>\<open>src/bricks/net/http/impl/server.h\<close> with \<^verbatim>\<open>codes.h\<close> and \<^verbatim>\<open>constants.h\<close>: the head of a
  response, whole responses, chunked responses with their write cache, and the server's side of a
  connection, which must be responded to exactly once.

  A TCP connection is the text written to it so far and the number of further writes that will succeed
  before the peer goes away, \<^const>\<open>None\<close> when it stays: a write that fails throws, and so do all later ones.
\<close>

definition kCRLF :: string where "kCRLF = [CHR 0x0D, CHR 0x0A]"
definition kDefaultContentType :: string where "kDefaultContentType = ''text/plain''"
definition kDefaultJSONContentType :: string where
  "kDefaultJSONContentType = ''application/json; charset=utf-8''"
definition kDefaultHTMLContentType :: string where "kDefaultHTMLContentType = ''text/html; charset=utf-8''"

record connection =
  co_sent :: string
  co_left :: "nat option"

text \<open>\<^const>\<open>None\<close> is a \<^verbatim>\<open>SocketException\<close>.  Writing an empty container does nothing.\<close>

definition BlockingWrite :: "string \<Rightarrow> connection \<Rightarrow> connection option" where
  "BlockingWrite data c =
     (if data = [] then Some c
      else if co_left c = Some 0 then None
      else Some (c\<lparr>co_sent := co_sent c @ data, co_left := map_option (\<lambda>n. n - 1) (co_left c)\<rparr>))"

text \<open>Several writes in a row: whether all succeeded, and the connection.\<close>

fun writes :: "string list \<Rightarrow> connection \<Rightarrow> bool \<times> connection" where
  "writes [] c = (True, c)"
| "writes (d # ds) c = (case BlockingWrite d c of None \<Rightarrow> (False, c) | Some c \<Rightarrow> writes ds c)"

definition response_codes :: "(int \<times> string) list" where
  "response_codes = [
     (100, ''Continue''), (101, ''Switching Protocols''), (200, ''OK''), (201, ''Created''), (202, ''Accepted''),
     (203, ''Non-Authoritative Information''), (204, ''No Content''), (205, ''Reset Content''),
     (206, ''Partial Content''), (300, ''Multiple Choices''), (301, ''Moved Permanently''), (302, ''Found''),
     (303, ''See Other''), (304, ''Not Modified''), (305, ''Use Proxy''), (307, ''Temporary Redirect''),
     (400, ''Bad Request''), (401, ''Unauthorized''), (402, ''Payment Required''), (403, ''Forbidden''),
     (404, ''Not Found''), (405, ''Method Not Allowed''), (406, ''Not Acceptable''),
     (407, ''Proxy Authentication Required''), (408, ''Request Time-out''), (409, ''Conflict''), (410, ''Gone''),
     (411, ''Length Required''), (412, ''Precondition Failed''), (413, ''Request Entity Too Large''),
     (414, ''Request-URI Too Large''), (415, ''Unsupported Media Type''),
     (416, ''Requested range not satisfiable''), (417, ''Expectation Failed''), (500, ''Internal Server Error''),
     (501, ''Not Implemented''), (502, ''Bad Gateway''), (503, ''Service Unavailable''),
     (504, ''Gateway Time-out''), (505, ''HTTP Version not supported''), (-1, ''<UNINITIALIZED>'')]"

definition HTTPResponseCodeAsString :: "int \<Rightarrow> string" where
  "HTTPResponseCodeAsString code =
     (case map_of response_codes code of Some s \<Rightarrow> s | None \<Rightarrow> ''Unknown Code'')"

datatype connection_type = ConnectionClose | ConnectionKeepAlive

definition header_line :: "http_header \<Rightarrow> string" where
  "header_line h = hdr_header h @ '': '' @ hdr_value h @ kCRLF"

definition cookie_param :: "string \<times> string \<Rightarrow> string" where
  "cookie_param p = ''; '' @ fst p @ (if snd p \<noteq> [] then ''='' @ snd p else [])"

definition cookie_line :: "string \<times> cookie \<Rightarrow> string" where
  "cookie_line c =
     ''Set-Cookie: '' @ fst c @ ''='' @ ck_value (snd c) @ concat (map cookie_param (ck_params (snd c))) @ kCRLF"

text \<open>The headers are given as iteration over \<^verbatim>\<open>Headers\<close> yields them.\<close>

definition PrepareHTTPResponseHeader ::
  "connection_type \<Rightarrow> int \<Rightarrow> http_header list \<Rightarrow> (string \<times> cookie) list \<Rightarrow> string \<Rightarrow> string" where
  "PrepareHTTPResponseHeader connection_type code hs cookies content_type =
     ''HTTP/1.1 '' @ to_string code @ '' '' @ HTTPResponseCodeAsString code @ kCRLF @
     ''Content-Type: '' @ content_type @ kCRLF @
     ''Connection: '' @ (if connection_type = ConnectionKeepAlive then ''keep-alive'' else ''close'') @ kCRLF @
     concat (map header_line hs) @ concat (map cookie_line cookies)"

definition SendHTTPResponseImpl ::
  "string \<Rightarrow> int \<Rightarrow> http_header list \<Rightarrow> (string \<times> cookie) list \<Rightarrow> string \<Rightarrow> connection \<Rightarrow> bool \<times> connection" where
  "SendHTTPResponseImpl body code hs cookies content_type c =
     writes [PrepareHTTPResponseHeader ConnectionClose code hs cookies content_type @
             ''Content-Length: '' @ to_string_nat (length body) @ kCRLF @ kCRLF, body] c"

subsection \<open>Chunked responses\<close>

text \<open>\<^verbatim>\<open>Printf("%lX", n)\<close>.\<close>

definition hex_char :: "nat \<Rightarrow> char" where
  "hex_char d = (if d < 10 then char_of (48 + d) else char_of (55 + d))"

fun to_hex :: "nat \<Rightarrow> string" where
  "to_hex n = (if n < 16 then [hex_char n] else to_hex (n div 16) @ [hex_char (n mod 16)])"

declare to_hex.simps [simp del]

record chunk_sender =
  cs_connection :: connection
  cs_can_no_longer_write :: bool
  cs_cache :: string

definition sender_of :: "connection \<Rightarrow> chunk_sender" where
  "sender_of c = \<lparr>cs_connection = c, cs_can_no_longer_write = False, cs_cache = []\<rparr>"

text \<open>A write of the sender: it throws when the connection does, after remembering it.\<close>

definition sender_write :: "string list \<Rightarrow> chunk_sender \<Rightarrow> bool \<times> chunk_sender" where
  "sender_write ds s =
     (case writes ds (cs_connection s) of
        (ok, c) \<Rightarrow> (ok, s\<lparr>cs_connection := c, cs_can_no_longer_write := cs_can_no_longer_write s \<or> \<not> ok\<rparr>))"

definition chunk_header :: "string \<Rightarrow> string" where
  "chunk_header data = to_hex (length data) @ kCRLF"

definition chunk_text :: "string \<Rightarrow> string" where
  "chunk_text data = chunk_header data @ data @ kCRLF"

definition flush_cache :: "chunk_sender \<Rightarrow> bool \<times> chunk_sender" where
  "flush_cache s =
     (case sender_write [cs_cache s] s of
        (True, s) \<Rightarrow> (True, s\<lparr>cs_cache := []\<rparr>) | (False, s) \<Rightarrow> (False, s))"

definition SendImpl :: "nat \<Rightarrow> string \<Rightarrow> bool \<Rightarrow> chunk_sender \<Rightarrow> bool \<times> chunk_sender" where
  "SendImpl CACHE_SIZE data flush s =
     (if data \<noteq> [] \<or> flush \<and> cs_cache s \<noteq> [] then
        if data \<noteq> [] then
          let chunk_size = length (chunk_header data) + length data + 2 in
          (case (if cs_cache s \<noteq> [] \<and> (flush \<or> chunk_size > CACHE_SIZE - length (cs_cache s))
                 then flush_cache s else (True, s)) of
             (False, s) \<Rightarrow> (False, s)
           | (True, s) \<Rightarrow>
               if flush \<or> chunk_size > CACHE_SIZE then sender_write [chunk_header data, data, kCRLF] s
               else (True, s\<lparr>cs_cache := cs_cache s @ chunk_header data @ data @ kCRLF\<rparr>))
        else flush_cache s
      else (True, s))"

text \<open>The destructor; a failure is only reported to the standard error stream.\<close>

definition sender_destroy :: "chunk_sender \<Rightarrow> connection" where
  "sender_destroy s =
     (if cs_can_no_longer_write s then cs_connection s
      else snd (writes ((if cs_cache s \<noteq> [] then [cs_cache s] else []) @ [''0'', kCRLF, kCRLF]) (cs_connection s)))"

fun send_all :: "nat \<Rightarrow> (string \<times> bool) list \<Rightarrow> chunk_sender \<Rightarrow> bool \<times> chunk_sender" where
  "send_all CACHE_SIZE [] s = (True, s)"
| "send_all CACHE_SIZE (d # ds) s =
     (case SendImpl CACHE_SIZE (fst d) (snd d) s of
        (True, s) \<Rightarrow> send_all CACHE_SIZE ds s | (False, s) \<Rightarrow> (False, s))"

subsection \<open>The server's side of a connection\<close>

datatype respond_exception = AttemptedToSendHTTPResponseMoreThanOnce | ResponseSocketException

record server_connection =
  sc_responded :: bool
  sc_connection :: connection

definition SendHTTPResponse ::
  "string \<Rightarrow> int \<Rightarrow> http_header list \<Rightarrow> (string \<times> cookie) list \<Rightarrow> string \<Rightarrow> server_connection \<Rightarrow>
   respond_exception option \<times> server_connection" where
  "SendHTTPResponse body code hs cookies content_type s =
     (if sc_responded s then (Some AttemptedToSendHTTPResponseMoreThanOnce, s)
      else case SendHTTPResponseImpl body code hs cookies content_type (sc_connection s) of
        (True, c) \<Rightarrow> (None, s\<lparr>sc_connection := c, sc_responded := True\<rparr>)
      | (False, c) \<Rightarrow> (Some ResponseSocketException, s\<lparr>sc_connection := c\<rparr>))"

definition SendChunkedHTTPResponse ::
  "int \<Rightarrow> http_header list \<Rightarrow> (string \<times> cookie) list \<Rightarrow> string \<Rightarrow> server_connection \<Rightarrow>
   respond_exception option \<times> server_connection" where
  "SendChunkedHTTPResponse code hs cookies content_type s =
     (if sc_responded s then (Some AttemptedToSendHTTPResponseMoreThanOnce, s)
      else case writes [PrepareHTTPResponseHeader ConnectionKeepAlive code hs cookies content_type @
                        ''Transfer-Encoding: chunked'' @ kCRLF @ kCRLF] (sc_connection s) of
        (True, c) \<Rightarrow> (None, s\<lparr>sc_connection := c, sc_responded := True\<rparr>)
      | (False, c) \<Rightarrow> (Some ResponseSocketException, s\<lparr>sc_connection := c, sc_responded := True\<rparr>))"

definition DoNotSendAnyResponse :: "server_connection \<Rightarrow> respond_exception option \<times> server_connection" where
  "DoNotSendAnyResponse s =
     (if sc_responded s then (Some AttemptedToSendHTTPResponseMoreThanOnce, s)
      else (None, s\<lparr>sc_responded := True\<rparr>))"

definition DefaultInternalServerErrorMessage :: string where
  "DefaultInternalServerErrorMessage = ''<h1>INTERNAL SERVER ERROR</h1>'' @ [newline]"

definition server_destroy :: "server_connection \<Rightarrow> connection" where
  "server_destroy s =
     (if sc_responded s then sc_connection s
      else snd (SendHTTPResponseImpl DefaultInternalServerErrorMessage 500 [] [] kDefaultHTMLContentType (sc_connection s)))"

datatype respond_op =
    Respond string int "http_header list" "(string \<times> cookie) list" string
  | RespondChunked int "http_header list" "(string \<times> cookie) list" string
  | RespondNothing

fun respond :: "respond_op \<Rightarrow> server_connection \<Rightarrow> respond_exception option \<times> server_connection" where
  "respond (Respond body code hs cookies content_type) s = SendHTTPResponse body code hs cookies content_type s"
| "respond (RespondChunked code hs cookies content_type) s = SendChunkedHTTPResponse code hs cookies content_type s"
| "respond RespondNothing s = DoNotSendAnyResponse s"

text \<open>A handler that attempts several responses, going on after exceptions.\<close>

fun respond_all :: "respond_op list \<Rightarrow> server_connection \<Rightarrow> respond_exception option list \<times> server_connection" where
  "respond_all [] s = ([], s)"
| "respond_all (r # rs) s =
     (case respond r s of (x, s) \<Rightarrow> case respond_all rs s of (xs, s) \<Rightarrow> (x # xs, s))"

subsection \<open>What the peer receives\<close>

lemma writes_alive: "co_left c = None \<Longrightarrow> writes ds c = (True, c\<lparr>co_sent := co_sent c @ concat ds\<rparr>)"
proof (induction ds arbitrary: c)
  case (Cons d ds)
  then show ?case by (cases "d = []") (simp_all add: BlockingWrite_def)
qed simp

lemma writes_prefix:
  "writes ds c = (ok, c') \<Longrightarrow>
     (\<exists>t. co_sent c @ concat ds = co_sent c' @ t \<and> (ok \<longrightarrow> t = [])) \<and> (\<exists>u. co_sent c' = co_sent c @ u)"
proof (induction ds arbitrary: c)
  case (Cons d ds)
  show ?case
  proof (cases "BlockingWrite d c")
    case None
    with Cons.prems show ?thesis by auto
  next
    case (Some k)
    then have k: "co_sent k = co_sent c @ d" by (auto simp: BlockingWrite_def split: if_splits)
    from Some Cons.prems have "writes ds k = (ok, c')" by simp
    from Cons.IH [OF this] k show ?thesis by auto
  qed
qed simp

definition chunk_encoding :: "string list \<Rightarrow> string" where
  "chunk_encoding ds = concat (map chunk_text (filter (\<lambda>d. d \<noteq> []) ds))"

lemma chunk_encoding_simps [simp]:
  "chunk_encoding [] = []"
  "chunk_encoding (d # ds) = (if d = [] then [] else chunk_text d) @ chunk_encoding ds"
  by (simp_all add: chunk_encoding_def)

text \<open>
  What the sender has accepted so far is what it has written followed by its cache; after a failed
  write, what it has written is an initial part of what it was given.
\<close>

definition sender_inv :: "nat \<Rightarrow> string \<Rightarrow> chunk_sender \<Rightarrow> bool" where
  "sender_inv CACHE_SIZE text s \<longleftrightarrow> length (cs_cache s) \<le> CACHE_SIZE \<and> \<not> cs_can_no_longer_write s \<and>
     co_sent (cs_connection s) @ cs_cache s = text"

definition sender_broken :: "nat \<Rightarrow> string \<Rightarrow> chunk_sender \<Rightarrow> bool" where
  "sender_broken CACHE_SIZE text s \<longleftrightarrow> length (cs_cache s) \<le> CACHE_SIZE \<and> cs_can_no_longer_write s \<and>
     (\<exists>t. co_sent (cs_connection s) @ t = text) \<and> co_left (cs_connection s) \<noteq> None"

lemma BlockingWrite_None: "BlockingWrite d c = None \<Longrightarrow> co_left c = Some 0"
  by (auto simp: BlockingWrite_def split: if_splits)

lemma writes_left: "writes ds c = (ok, c') \<Longrightarrow> (co_left c' = None) = (co_left c = None) \<and> (\<not> ok \<longrightarrow> co_left c' \<noteq> None)"
proof (induction ds arbitrary: c)
  case (Cons d ds)
  show ?case
  proof (cases "BlockingWrite d c")
    case None
    with Cons.prems BlockingWrite_None [OF None] show ?thesis by auto
  next
    case (Some k)
    then have k: "(co_left k = None) = (co_left c = None)" by (auto simp: BlockingWrite_def split: if_splits)
    from Some Cons.prems have "writes ds k = (ok, c')" by simp
    from Cons.IH [OF this] k show ?thesis by auto
  qed
qed simp

lemma sender_write_cases:
  assumes "sender_write ds s = (ok, s')" "\<not> cs_can_no_longer_write s"
  shows "cs_cache s' = cs_cache s" "cs_can_no_longer_write s' = (\<not> ok)"
    "ok \<Longrightarrow> co_sent (cs_connection s') = co_sent (cs_connection s) @ concat ds"
    "\<not> ok \<Longrightarrow> (\<exists>t. co_sent (cs_connection s') @ t = co_sent (cs_connection s) @ concat ds) \<and> co_left (cs_connection s') \<noteq> None"
    "(co_left (cs_connection s') = None) = (co_left (cs_connection s) = None)"
proof -
  obtain c' where w: "writes ds (cs_connection s) = (ok, c')" and s': "s' = s\<lparr>cs_connection := c', cs_can_no_longer_write := \<not> ok\<rparr>"
    using assms by (auto simp: sender_write_def split: prod.splits)
  show "cs_cache s' = cs_cache s" "cs_can_no_longer_write s' = (\<not> ok)" by (simp_all add: s')
  show "co_sent (cs_connection s') = co_sent (cs_connection s) @ concat ds" if ok
    using writes_prefix [OF w] that by (auto simp: s')
  show "(\<exists>t. co_sent (cs_connection s') @ t = co_sent (cs_connection s) @ concat ds) \<and> co_left (cs_connection s') \<noteq> None" if "\<not> ok"
    using writes_prefix [OF w] writes_left [OF w] that by (auto simp: s')
  show "(co_left (cs_connection s') = None) = (co_left (cs_connection s) = None)"
    using writes_left [OF w] by (auto simp: s')
qed

lemma flush_cache_cases:
  assumes inv: "sender_inv n text s" and f: "flush_cache s = (ok, s')"
  shows "ok \<Longrightarrow> sender_inv n text s' \<and> cs_cache s' = []" "\<not> ok \<Longrightarrow> sender_broken n text s'"
    "(co_left (cs_connection s') = None) = (co_left (cs_connection s) = None)"
proof -
  obtain b k where k: "sender_write [cs_cache s] s = (b, k)" by fastforce
  have live: "\<not> cs_can_no_longer_write s" using inv by (simp add: sender_inv_def)
  note w = sender_write_cases [OF k live]
  have s': "ok = b" "s' = (if b then k\<lparr>cs_cache := []\<rparr> else k)" using f k by (auto simp: flush_cache_def split: bool.splits)
  show "sender_inv n text s' \<and> cs_cache s' = []" if ok using that w inv by (simp add: s' sender_inv_def)
  show "sender_broken n text s'" if "\<not> ok"
    using that w(1,2) w(4) inv by (auto simp: s' sender_inv_def sender_broken_def)
  show "(co_left (cs_connection s') = None) = (co_left (cs_connection s) = None)" using w(5) by (simp add: s')
qed

lemma chunk_size: "length (chunk_header data) + length data + 2 = length (chunk_text data)"
  by (simp add: chunk_text_def kCRLF_def)

lemma sender_broken_append: "sender_broken n text s \<Longrightarrow> sender_broken n (text @ u) s"
  unfolding sender_broken_def by (metis append.assoc)

lemma SendImpl_cases:
  assumes inv: "sender_inv n text s" and send: "SendImpl n data flush s = (ok, s')"
  shows "ok \<Longrightarrow> sender_inv n (text @ chunk_encoding [data]) s'" (is "_ \<Longrightarrow> ?good")
    "\<not> ok \<Longrightarrow> sender_broken n (text @ chunk_encoding [data]) s'" (is "_ \<Longrightarrow> ?bad")
    "(co_left (cs_connection s') = None) = (co_left (cs_connection s) = None)" (is ?left)
proof -
  have "(if ok then ?good else ?bad) \<and> ?left"
  proof (cases "data = []")
    case True
    then show ?thesis
      using send inv flush_cache_cases [OF inv, of ok s'] by (auto simp: SendImpl_def split: if_splits)
  next
    case False
    let ?flushes = "cs_cache s \<noteq> [] \<and> (flush \<or> length (chunk_text data) > n - length (cs_cache s))"
    obtain b k where k: "(if ?flushes then flush_cache s else (True, s)) = (b, k)" by fastforce
    have "SendImpl n data flush s = (case (if ?flushes then flush_cache s else (True, s)) of
        (False, s) \<Rightarrow> (False, s)
      | (True, s) \<Rightarrow>
          if flush \<or> length (chunk_text data) > n then sender_write [chunk_header data, data, kCRLF] s
          else (True, s\<lparr>cs_cache := cs_cache s @ chunk_text data\<rparr>))"
      using False unfolding SendImpl_def Let_def chunk_size chunk_text_def [symmetric] by simp
    then have step: "(ok, s') = (if \<not> b then (False, k)
        else if flush \<or> length (chunk_text data) > n then sender_write [chunk_header data, data, kCRLF] k
        else (True, k\<lparr>cs_cache := cs_cache k @ chunk_text data\<rparr>))"
      unfolding k send by (cases b) simp_all
    have left: "(co_left (cs_connection k) = None) = (co_left (cs_connection s) = None)"
      using k flush_cache_cases(3) [OF inv, of b k] by (auto split: if_splits)
    show ?thesis
    proof (cases b)
      case False
      then have "flush_cache s = (False, k)" using k by (auto split: if_splits)
      from flush_cache_cases(2) [OF inv this] have "sender_broken n text k" by simp
      then show ?thesis using step False left sender_broken_append by auto
    next
      case True
      have inv_k: "sender_inv n text k"
        using k True inv flush_cache_cases(1) [OF inv, of True k] by (auto split: if_splits)
      then have live: "\<not> cs_can_no_longer_write k" by (simp add: sender_inv_def)
      have room: "cs_cache k = [] \<or> \<not> flush \<and> length (chunk_text data) \<le> n - length (cs_cache k)"
        using k True flush_cache_cases(1) [OF inv, of True k] by (auto split: if_splits)
      show ?thesis
      proof (cases "flush \<or> length (chunk_text data) > n")
        case direct: True
        then have empty: "cs_cache k = []" using room by auto
        have w: "sender_write [chunk_header data, data, kCRLF] k = (ok, s')" using step True direct by auto
        note w = sender_write_cases [OF w live]
        have enc: "concat [chunk_header data, data, kCRLF] = chunk_encoding [data]"
          using \<open>data \<noteq> []\<close> by (simp add: chunk_text_def)
        have "co_sent (cs_connection k) = text" using inv_k empty by (simp add: sender_inv_def)
        then show ?thesis
          using w left empty unfolding enc by (auto simp: sender_inv_def sender_broken_def)
      next
        case cached: False
        then show ?thesis
          using step True inv_k room left \<open>data \<noteq> []\<close> by (auto simp: sender_inv_def)
      qed
    qed
  qed
  then show "ok \<Longrightarrow> ?good" "\<not> ok \<Longrightarrow> ?bad" ?left by (auto split: if_splits)
qed

lemma send_all_cases:
  assumes "sender_inv n text s" "send_all n ds s = (ok, s')"
  shows "(if ok then sender_inv n (text @ chunk_encoding (map fst ds)) s'
      else sender_broken n (text @ chunk_encoding (map fst ds)) s') \<and>
    (co_left (cs_connection s') = None) = (co_left (cs_connection s) = None)"
  using assms
proof (induction ds arbitrary: s "text")
  case (Cons d ds)
  obtain b k where k: "SendImpl n (fst d) (snd d) s = (b, k)" by fastforce
  note step = SendImpl_cases [OF Cons.prems(1) k]
  have enc: "chunk_encoding (map fst (d # ds)) = chunk_encoding [fst d] @ chunk_encoding (map fst ds)" by simp
  show ?case
  proof (cases b)
    case True
    then have rest: "send_all n ds k = (ok, s')" using Cons.prems(2) k by simp
    from Cons.IH [OF step(1) [OF True] rest] show ?thesis unfolding enc append_assoc [symmetric] step(3) .
  next
    case False
    then have "ok = False" "s' = k" using Cons.prems(2) k by simp_all
    then show ?thesis using sender_broken_append [OF step(2) [OF False]] step(3) unfolding enc by simp
  qed
qed simp

lemma sender_of_inv: "sender_inv n (co_sent c) (sender_of c)"
  by (simp add: sender_inv_def sender_of_def)

subsection \<open>Properties\<close>

text \<open>
  C23: Chunked sending.  Whatever is sent through a chunked response, with or without flushing, the write
  cache is never overrun, and what the peer has received after the response is destroyed is an initial part of
  the chunked encoding of the non-empty pieces in their order followed by the final chunk; it is all of it if
  the connection stays up.
\<close>

theorem chunked_sender_correct:
  assumes "send_all n ds (sender_of c) = (ok, s)"
  shows "length (cs_cache s) \<le> n \<and>
    (\<exists>t. co_sent (sender_destroy s) @ t = co_sent c @ chunk_encoding (map fst ds) @ ''0'' @ kCRLF @ kCRLF) \<and>
    (co_left c = None \<longrightarrow> ok \<and>
       co_sent (sender_destroy s) = co_sent c @ chunk_encoding (map fst ds) @ ''0'' @ kCRLF @ kCRLF)"
proof -
  let ?text = "co_sent c @ chunk_encoding (map fst ds)"
  have all: "if ok then sender_inv n ?text s else sender_broken n ?text s"
    "(co_left (cs_connection s) = None) = (co_left c = None)"
    using send_all_cases [OF sender_of_inv assms] by (simp_all add: sender_of_def)
  show ?thesis
  proof (cases ok)
    case True
    then have inv: "sender_inv n ?text s" using all(1) by simp
    let ?ws = "(if cs_cache s \<noteq> [] then [cs_cache s] else []) @ [''0'', kCRLF, kCRLF]"
    obtain b k where k: "writes ?ws (cs_connection s) = (b, k)" by fastforce
    have d: "sender_destroy s = k" using inv k by (simp add: sender_destroy_def sender_inv_def)
    have ws: "co_sent (cs_connection s) @ concat ?ws = ?text @ ''0'' @ kCRLF @ kCRLF"
      using inv by (cases "cs_cache s") (auto simp: sender_inv_def)
    have "\<exists>t. co_sent k @ t = ?text @ ''0'' @ kCRLF @ kCRLF"
      using writes_prefix [OF k] unfolding ws by metis
    moreover have "co_sent k = ?text @ ''0'' @ kCRLF @ kCRLF" if "co_left c = None"
    proof -
      have "writes ?ws (cs_connection s) = (True, (cs_connection s)\<lparr>co_sent := co_sent (cs_connection s) @ concat ?ws\<rparr>)"
        by (rule writes_alive) (simp add: that all(2))
      then show ?thesis using k unfolding ws by auto
    qed
    ultimately show ?thesis using True inv unfolding d by (simp add: sender_inv_def)
  next
    case False
    then have "sender_broken n ?text s" using all(1) by simp
    from sender_broken_append [OF this, of "''0'' @ kCRLF @ kCRLF"] show ?thesis
      using all(2) by (auto simp: sender_broken_def sender_destroy_def)
  qed
qed

theorem chunked_sender_correct_witness:
  "\<exists>s. send_all 100 [(''ab'', False), ([], True), (''c'', True)] (sender_of \<lparr>co_sent = [], co_left = None\<rparr>) = (True, s) \<and>
     co_sent (sender_destroy s) = ''2'' @ kCRLF @ ''ab'' @ kCRLF @ ''1'' @ kCRLF @ ''c'' @ kCRLF @ ''0'' @ kCRLF @ kCRLF"
proof -
  obtain ok s where s: "send_all 100 [(''ab'', False), ([], True), (''c'', True)] (sender_of \<lparr>co_sent = [], co_left = None\<rparr>) = (ok, s)"
    by fastforce
  show ?thesis
    using chunked_sender_correct [OF s] s
    by (simp add: chunk_text_def chunk_header_def to_hex.simps hex_char_def char_of_def bit_0)
qed

fun response_text :: "respond_op \<Rightarrow> string" where
  "response_text (Respond body code hs cookies content_type) =
     PrepareHTTPResponseHeader ConnectionClose code hs cookies content_type @
     ''Content-Length: '' @ to_string_nat (length body) @ kCRLF @ kCRLF @ body"
| "response_text (RespondChunked code hs cookies content_type) =
     PrepareHTTPResponseHeader ConnectionKeepAlive code hs cookies content_type @
     ''Transfer-Encoding: chunked'' @ kCRLF @ kCRLF"
| "response_text RespondNothing = []"

lemma respond_first:
  "co_left c = None \<Longrightarrow> respond r \<lparr>sc_responded = False, sc_connection = c\<rparr> =
     (None, \<lparr>sc_responded = True, sc_connection = c\<lparr>co_sent := co_sent c @ response_text r\<rparr>\<rparr>)"
  by (cases r) (simp_all add: SendHTTPResponse_def SendHTTPResponseImpl_def SendChunkedHTTPResponse_def
      DoNotSendAnyResponse_def writes_alive del: writes.simps)

lemma respond_again: "sc_responded s \<Longrightarrow> respond r s = (Some AttemptedToSendHTTPResponseMoreThanOnce, s)"
  by (cases r) (simp_all add: SendHTTPResponse_def SendChunkedHTTPResponse_def DoNotSendAnyResponse_def)

lemma respond_all_again:
  "sc_responded s \<Longrightarrow> respond_all rs s = (replicate (length rs) (Some AttemptedToSendHTTPResponseMoreThanOnce), s)"
  by (induction rs) (simp_all add: respond_again)

text \<open>
  One response per request.  Whatever responses the handler of a request attempts on a live connection, exactly
  the first one reaches the client and every later attempt throws; when it attempts none, the client gets
  \<^verbatim>\<open>500 Internal Server Error\<close> as the connection object is destroyed.
\<close>

theorem responds_once:
  assumes "co_left c = None"
  shows "\<exists>s. respond_all rs \<lparr>sc_responded = False, sc_connection = c\<rparr> =
      ((case rs of [] \<Rightarrow> [] | r # rs \<Rightarrow> None # replicate (length rs) (Some AttemptedToSendHTTPResponseMoreThanOnce)), s) \<and>
    co_sent (server_destroy s) = co_sent c @
      response_text (case rs of [] \<Rightarrow> Respond DefaultInternalServerErrorMessage 500 [] [] kDefaultHTMLContentType | r # _ \<Rightarrow> r)"
proof (cases rs)
  case Nil
  then show ?thesis
    using assms by (simp add: server_destroy_def SendHTTPResponseImpl_def writes_alive del: writes.simps)
next
  case (Cons r rs)
  then show ?thesis
    using assms by (simp add: respond_first respond_all_again server_destroy_def)
qed

theorem responds_once_witness:
  "\<exists>s. respond_all [RespondNothing, Respond ''x'' 200 [] [] ''text/plain''] \<lparr>sc_responded = False, sc_connection = \<lparr>co_sent = [], co_left = None\<rparr>\<rparr> =
      ([None, Some AttemptedToSendHTTPResponseMoreThanOnce], s) \<and> co_sent (server_destroy s) = []"
  using responds_once [of "\<lparr>co_sent = [], co_left = None\<rparr>" "[RespondNothing, Respond ''x'' 200 [] [] ''text/plain'']"] by simp

end
