(* ===== verification/HttpParser.thy ===== *)
theory HttpParser
  imports Http
begin

text \<open>
  Parsing HTTP messages: the constructor of \<^verbatim>\<open>GenericHTTPRequestData\<close> in \<^verbatim>\<open>src/bricks/net/http/impl/server.h\<close>,
  which servers run on requests and clients on responses.  It reads from the connection into a buffer and
  processes complete lines as they appear; bodies come by length or in chunks.

  The buffer is the list of bytes read and not yet processed (what precedes \<^verbatim>\<open>current_line_offset\<close> is never
  looked at again, and moving the rest to the front or growing the buffer does not change it).  The
  network is the list of the pieces that successive reads return; reads with \<^verbatim>\<open>FillFullBuffer\<close> wait for as many
  bytes as they ask for.  The class template's parameter \<^verbatim>\<open>HELPER\<close> is a record of its callbacks, which may throw.
\<close>

subsection \<open>Text functions of the C library\<close>

definition tolower_char :: "char \<Rightarrow> char" where
  "tolower_char c = (if of_char c \<ge> (65 :: nat) \<and> of_char c \<le> (90 :: nat) then char_of (of_char c + (32 :: nat)) else c)"

definition toupper_char :: "char \<Rightarrow> char" where
  "toupper_char c = (if of_char c \<ge> (97 :: nat) \<and> of_char c \<le> (122 :: nat) then char_of (of_char c - (32 :: nat)) else c)"

definition isxdigit :: "char \<Rightarrow> bool" where
  "isxdigit c \<longleftrightarrow> isdigit c \<or> (let n = of_char c :: nat in 65 \<le> n \<and> n \<le> 70 \<or> 97 \<le> n \<and> n \<le> 102)"

definition xdigit_value :: "char \<Rightarrow> nat" where
  "xdigit_value c = (let n = of_char c in if n < 58 then n - 48 else if n < 71 then n - 55 else n - 87)"

definition xdigits_value :: "string \<Rightarrow> nat" where
  "xdigits_value = foldl (\<lambda>acc c. acc * 16 + xdigit_value c) 0"

datatype stoi_error = StoiInvalidArgument | StoiOutOfRange

definition strip_0x :: "string \<Rightarrow> string" where
  "strip_0x s =
     (case s of
        a # b # c # t \<Rightarrow> if a = CHR ''0'' \<and> (b = CHR ''x'' \<or> b = CHR ''X'') \<and> isxdigit c then c # t else s
      | _ \<Rightarrow> s)"

text \<open>\<^verbatim>\<open>std::stoi(s, nullptr, 16)\<close> for a 32-bit \<^verbatim>\<open>int\<close>.\<close>

definition stoi16 :: "string \<Rightarrow> stoi_error + int" where
  "stoi16 s =
     (let s = dropWhile isspace s;
          negative = (s \<noteq> [] \<and> hd s = CHR ''-'');
          s = (if s \<noteq> [] \<and> (hd s = CHR ''-'' \<or> hd s = CHR ''+'') then tl s else s);
          digits = takeWhile isxdigit (strip_0x s);
          value = (if negative then - int (xdigits_value digits) else int (xdigits_value digits))
      in if digits = [] then Inl StoiInvalidArgument
         else if value < - (2 ^ 31) \<or> 2 ^ 31 \<le> value then Inl StoiOutOfRange
         else Inr value)"

text \<open>\<^verbatim>\<open>atoi\<close>, as a truncation to \<^verbatim>\<open>int\<close> of the saturating \<^verbatim>\<open>strtol\<close>.\<close>

definition atoi :: "string \<Rightarrow> int" where
  "atoi s =
     (let s = dropWhile isspace s;
          negative = (s \<noteq> [] \<and> hd s = CHR ''-'');
          s = (if s \<noteq> [] \<and> (hd s = CHR ''-'' \<or> hd s = CHR ''+'') then tl s else s);
          n = int (digits_value (takeWhile isdigit s));
          v = (if negative then max int64_min (- n) else min int64_max n)
      in (v + 2 ^ 31) mod 2 ^ 32 - 2 ^ 31)"

definition NormalizeHeaderChar :: "char \<Rightarrow> char" where
  "NormalizeHeaderChar c = (if c \<noteq> CHR ''_'' then tolower_char c else CHR ''-'')"

fun HeaderNameEquals :: "string \<Rightarrow> string \<Rightarrow> bool" where
  "HeaderNameEquals (a # lhs) (b # rhs) =
     (if NormalizeHeaderChar a \<noteq> NormalizeHeaderChar b then False else HeaderNameEquals lhs rhs)"
| "HeaderNameEquals lhs rhs = (lhs = [] \<and> rhs = [])"

definition NeedContentLengthHeader :: "string \<Rightarrow> bool" where
  "NeedContentLengthHeader http_method \<longleftrightarrow> http_method = ''POST'' \<or> http_method = ''PUT'' \<or> http_method = ''PATCH''"

definition kMaxHTTPPayloadSizeInBytes :: nat where "kMaxHTTPPayloadSizeInBytes = 1024 * 1024 * 16"

text \<open>\<^verbatim>\<open>strstr(buffer, "\r\n")\<close>: the line before the first line break, and what follows it; a zero byte ends the search.\<close>

fun find_crlf :: "string \<Rightarrow> (string \<times> string) option" where
  "find_crlf (a # b # s) =
     (if a = CHR 0x00 then None
      else if a = CHR 0x0D \<and> b = CHR 0x0A then Some ([], s)
      else map_option (\<lambda>(l, r). (a # l, r)) (find_crlf (b # s)))"
| "find_crlf s = None"

definition split_colon :: "string \<Rightarrow> (string \<times> string) option" where
  "split_colon line =
     (let after = dropWhile (\<lambda>c. c \<noteq> CHR '':'') line
      in if after = [] then None else Some (takeWhile (\<lambda>c. c \<noteq> CHR '':'') line, tl after))"

definition IsSpaceOrTab :: "char \<Rightarrow> bool" where
  "IsSpaceOrTab c \<longleftrightarrow> c = CHR '' '' \<or> c = tab"

definition trim_blanks :: "string \<Rightarrow> string" where
  "trim_blanks s = rev (dropWhile IsSpaceOrTab (rev (dropWhile IsSpaceOrTab s)))"

subsection \<open>The parser\<close>

datatype 'x http_exception =
    SocketException
  | ChunkSizeNotAValidHEXValue
  | ChunkSizeOutOfRange
  | ChunkLengthError
  | HTTPPayloadTooLarge
  | HTTPRequestBodyLengthNotProvided
  | HelperException 'x

record ('h, 'x) http_helper =
  OnHeader :: "string \<Rightarrow> string \<Rightarrow> 'h \<Rightarrow> 'h \<times> 'x option"
  OnChunk :: "string \<Rightarrow> 'h \<Rightarrow> 'h \<times> 'x option"
  OnChunkedBodyDone :: "'h \<Rightarrow> 'h \<times> string option"

record 'h http_state =
  hp_first_line_parsed :: bool
  hp_method :: string
  hp_raw_path :: string
  hp_chunked_transfer_encoding :: bool
  hp_receiving_body_in_chunks :: bool
  hp_body_length :: "nat option"
  hp_error_response :: "int option"
  hp_helper :: 'h

definition http_init :: "'h \<Rightarrow> 'h http_state" where
  "http_init h = \<lparr>hp_first_line_parsed = False, hp_method = [], hp_raw_path = [], hp_chunked_transfer_encoding = False,
     hp_receiving_body_in_chunks = False, hp_body_length = None, hp_error_response = None, hp_helper = h\<rparr>"

text \<open>The result is the body, \<^const>\<open>None\<close> for the null pointer.\<close>

datatype ('h, 'x) line_result =
    LineContinue "'h http_state" string "string list"
  | LineFinished "'h http_state" "'x http_exception + string option"

text \<open>The next \<open>n\<close> bytes: those in the buffer, then those of a \<^verbatim>\<open>FillFullBuffer\<close> read.\<close>

fun drop_bytes :: "nat \<Rightarrow> string list \<Rightarrow> string list" where
  "drop_bytes n [] = []"
| "drop_bytes n (p # ps) = (if n < length p then drop n p # ps else drop_bytes (n - length p) ps)"

definition take_bytes :: "nat \<Rightarrow> string \<Rightarrow> string list \<Rightarrow> (string \<times> string \<times> string list) option" where
  "take_bytes n buffer packets =
     (if n \<le> length buffer then Some (take n buffer, drop n buffer, packets)
      else let missing = n - length buffer in
        if length (concat packets) < missing then None
        else Some (buffer @ take missing (concat packets), [], drop_bytes missing packets))"

definition first_line :: "string \<Rightarrow> 'h http_state \<Rightarrow> 'h http_state" where
  "first_line line st =
     (let pieces = Split line match_whitespace EmptyFields_Skip;
          st = (if length pieces \<ge> 1 then st\<lparr>hp_method := pieces ! 0\<rparr> else st);
          st = (if length pieces \<ge> 2 then st\<lparr>hp_raw_path := pieces ! 1\<rparr> else st)
      in st\<lparr>hp_first_line_parsed := True\<rparr>)"

definition chunk_line ::
  "('h, 'x) http_helper \<Rightarrow> string \<Rightarrow> string \<Rightarrow> string list \<Rightarrow> 'h http_state \<Rightarrow> ('h, 'x) line_result" where
  "chunk_line H line rest packets st =
     (case stoi16 line of
        Inl StoiInvalidArgument \<Rightarrow> LineFinished (st\<lparr>hp_error_response := Some 400\<rparr>) (Inl ChunkSizeNotAValidHEXValue)
      | Inl StoiOutOfRange \<Rightarrow> LineFinished st (Inl ChunkSizeOutOfRange)
      | Inr n \<Rightarrow>
          if n = 0 then
            (case OnChunkedBodyDone H (hp_helper st) of (h, body) \<Rightarrow> LineFinished (st\<lparr>hp_helper := h\<rparr>) (Inr body))
          else if n < 0 then LineFinished st (Inl ChunkLengthError)
          else case take_bytes (nat n) rest packets of
            None \<Rightarrow> LineFinished st (Inl SocketException)
          | Some (data, rest, packets) \<Rightarrow>
              (case OnChunk H data (hp_helper st) of
                 (h, None) \<Rightarrow> LineContinue (st\<lparr>hp_helper := h\<rparr>) rest packets
               | (h, Some x) \<Rightarrow> LineFinished (st\<lparr>hp_helper := h\<rparr>) (Inl (HelperException x))))"

definition header_effect ::
  "string \<Rightarrow> string \<Rightarrow> 'h http_state \<Rightarrow> 'h http_state \<times> 'x http_exception option" where
  "header_effect key value st =
     (if HeaderNameEquals key ''Content-Length'' then
        let n = atoi value; st = st\<lparr>hp_body_length := (if n < 0 then None else Some (nat n))\<rparr> in
        if n < 0 \<or> nat n > kMaxHTTPPayloadSizeInBytes
        then (st\<lparr>hp_error_response := Some 413\<rparr>, Some HTTPPayloadTooLarge) else (st, None)
      else if HeaderNameEquals key ''X-HTTP-Method-Override'' then (st\<lparr>hp_method := map toupper_char value\<rparr>, None)
      else if HeaderNameEquals key ''Transfer-Encoding'' then
        (if HeaderNameEquals value ''chunked'' then st\<lparr>hp_chunked_transfer_encoding := True\<rparr> else st, None)
      else (st, None))"

definition parse_header_line ::
  "('h, 'x) http_helper \<Rightarrow> string \<Rightarrow> string \<Rightarrow> string list \<Rightarrow> 'h http_state \<Rightarrow> ('h, 'x) line_result" where
  "parse_header_line H line rest packets st =
     (case split_colon line of
        None \<Rightarrow> LineContinue st rest packets
      | Some (key, value) \<Rightarrow>
          (case OnHeader H key (trim_blanks value) (hp_helper st) of
             (h, Some x) \<Rightarrow> LineFinished (st\<lparr>hp_helper := h\<rparr>) (Inl (HelperException x))
           | (h, None) \<Rightarrow>
               (case header_effect key (trim_blanks value) (st\<lparr>hp_helper := h\<rparr>) of
                  (st, None) \<Rightarrow> LineContinue st rest packets
                | (st, Some x) \<Rightarrow> LineFinished st (Inl x))))"

definition end_of_headers :: "string \<Rightarrow> string list \<Rightarrow> 'h http_state \<Rightarrow> ('h, 'x) line_result" where
  "end_of_headers rest packets st =
     (if \<not> hp_chunked_transfer_encoding st then
        (case hp_body_length st of
           Some n \<Rightarrow>
             (case take_bytes n rest packets of
                None \<Rightarrow> LineFinished st (Inl SocketException)
              | Some (body, _, _) \<Rightarrow> LineFinished st (Inr (Some body)))
         | None \<Rightarrow>
             if NeedContentLengthHeader (hp_method st)
             then LineFinished (st\<lparr>hp_error_response := Some 411\<rparr>) (Inl HTTPRequestBodyLengthNotProvided)
             else LineFinished st (Inr None))
      else LineContinue (st\<lparr>hp_receiving_body_in_chunks := True\<rparr>) rest packets)"

definition http_line ::
  "('h, 'x) http_helper \<Rightarrow> string \<Rightarrow> string \<Rightarrow> string list \<Rightarrow> 'h http_state \<Rightarrow> ('h, 'x) line_result" where
  "http_line H line rest packets st =
     (if \<not> hp_first_line_parsed st then
        LineContinue (if line \<noteq> [] then first_line line st else st) rest packets
      else if hp_receiving_body_in_chunks st then
        if line \<noteq> [] then chunk_line H line rest packets st else LineContinue st rest packets
      else if line \<noteq> [] then parse_header_line H line rest packets st
      else end_of_headers rest packets st)"

lemma find_crlf_parts: "find_crlf s = Some (l, r) \<Longrightarrow> s = l @ kCRLF @ r"
proof (induction s arbitrary: l rule: find_crlf.induct)
  case (1 a b s)
  then show ?case by (auto simp: kCRLF_def split: if_splits)
qed auto

lemma length_concat_drop_bytes: "length (concat (drop_bytes n ps)) \<le> length (concat ps)"
  by (induction n ps rule: drop_bytes.induct) auto

lemma length_drop_bytes: "length (drop_bytes n ps) \<le> length ps"
  by (induction n ps rule: drop_bytes.induct) auto

lemma take_bytes_size:
  "take_bytes n p ps = Some (d, p', ps') \<Longrightarrow>
     length p' \<le> length p \<and> length (concat ps') \<le> length (concat ps) \<and> length ps' \<le> length ps"
  using length_concat_drop_bytes [of "n - length p" ps] length_drop_bytes [of "n - length p" ps]
  by (auto simp: take_bytes_def Let_def split: if_splits)

lemma http_line_size:
  "http_line H line rest packets st = LineContinue st' rest' packets' \<Longrightarrow>
     length rest' \<le> length rest \<and> length (concat packets') \<le> length (concat packets) \<and> length packets' \<le> length packets"
  by (auto simp: http_line_def chunk_line_def parse_header_line_def end_of_headers_def
      dest: take_bytes_size split: if_splits sum.splits stoi_error.splits option.splits prod.splits)

function http_parse ::
  "('h, 'x) http_helper \<Rightarrow> 'h http_state \<Rightarrow> string \<Rightarrow> string list \<Rightarrow>
   'h http_state \<times> ('x http_exception + string option)" where
  "http_parse H st buffer packets =
     (case find_crlf buffer of
        Some (line, rest) \<Rightarrow>
          (case http_line H line rest packets st of
             LineContinue st rest packets \<Rightarrow> http_parse H st rest packets
           | LineFinished st result \<Rightarrow> (st, result))
      | None \<Rightarrow>
          (case packets of
             [] \<Rightarrow> (st, Inl SocketException)
           | p # ps \<Rightarrow> http_parse H st (buffer @ p) ps))"
  by pat_completeness auto
termination
proof (relation "measure (\<lambda>(H, st, buffer, packets). length buffer + length (concat packets) + length packets)")
  fix H :: "('h, 'x) http_helper" and st st' :: "'h http_state" and buffer packets x y rest rest' packets'
  assume "find_crlf buffer = Some x" "(y, rest) = x" "http_line H y rest packets st = LineContinue st' rest' packets'"
  with http_line_size [of H y rest packets st st' rest' packets'] find_crlf_parts [of buffer y rest]
  show "((H, st', rest', packets'), H, st, buffer, packets) \<in>
      measure (\<lambda>(H, st, buffer, packets). length buffer + length (concat packets) + length packets)"
    by (auto simp: kCRLF_def)
qed auto

declare http_parse.simps [simp del]

text \<open>
  The two helpers: \<^verbatim>\<open>HTTPDefaultHelper\<close> collects headers and body (an undefined header operation is reported as
  \<^const>\<open>None\<close>), and \<^verbatim>\<open>ChunkByChunkHTTPResponseReceiver\<close> hands headers and chunks to callbacks.
\<close>

definition HTTPDefaultHelper :: "(headers \<times> string, header_exception option) http_helper" where
  "HTTPDefaultHelper = \<lparr>
     OnHeader = (\<lambda>key value (hs, body).
       case SetHeaderOrCookie key value hs of
         Some (Inr hs') \<Rightarrow> ((hs', body), None)
       | Some (Inl x) \<Rightarrow> ((hs, body), Some (Some x))
       | None \<Rightarrow> ((hs, body), Some None)),
     OnChunk = (\<lambda>data (hs, body). ((hs, body @ data), None)),
     OnChunkedBodyDone = (\<lambda>(hs, body). ((hs, body), Some body))\<rparr>"

definition ChunkByChunkHTTPResponseReceiver ::
  "(string \<Rightarrow> string \<Rightarrow> 'h \<Rightarrow> 'h \<times> 'x option) \<Rightarrow> (string \<Rightarrow> 'h \<Rightarrow> 'h \<times> 'x option) \<Rightarrow> ('h \<Rightarrow> 'h) \<Rightarrow> ('h, 'x) http_helper" where
  "ChunkByChunkHTTPResponseReceiver header_callback chunk_callback done_callback =
     \<lparr>OnHeader = header_callback, OnChunk = chunk_callback, OnChunkedBodyDone = (\<lambda>h. (done_callback h, None))\<rparr>"

subsection \<open>The result does not depend on how the network cuts the text\<close>

lemma concat_drop_bytes: "concat (drop_bytes n ps) = drop n (concat ps)"
  by (induction n ps rule: drop_bytes.induct) auto

lemma take_bytes_flat:
  "take_bytes n (rest @ concat packets) [] =
     map_option (\<lambda>(d, r, ps). (d, r @ concat ps, [])) (take_bytes n rest packets)"
  by (auto simp: take_bytes_def Let_def concat_drop_bytes)

fun flat_result :: "('h, 'x) line_result \<Rightarrow> ('h, 'x) line_result" where
  "flat_result (LineContinue st rest packets) = LineContinue st (rest @ concat packets) []"
| "flat_result (LineFinished st r) = LineFinished st r"

lemma http_line_flat: "flat_result (http_line H line rest packets st) = http_line H line (rest @ concat packets) [] st"
proof -
  have "flat_result (chunk_line H line rest packets st) = chunk_line H line (rest @ concat packets) [] st"
    by (auto simp: chunk_line_def take_bytes_flat split: sum.split stoi_error.split option.split prod.split)
  moreover have "flat_result (end_of_headers rest packets st :: ('a, 'b) line_result) = end_of_headers (rest @ concat packets) [] st"
    by (auto simp: end_of_headers_def take_bytes_flat split: option.split prod.split)
  moreover have "flat_result (parse_header_line H line rest packets st) = parse_header_line H line (rest @ concat packets) [] st"
    by (auto simp: parse_header_line_def split: option.split prod.split)
  ultimately show ?thesis by (simp add: http_line_def)
qed

lemma find_crlf_append: "find_crlf b = Some (l, r) \<Longrightarrow> find_crlf (b @ t) = Some (l, r @ t)"
proof (induction b arbitrary: l rule: find_crlf.induct)
  case (1 a b s)
  then show ?case by (auto split: if_splits)
qed auto

lemma http_parse_flat: "http_parse H st b ps = http_parse H st (b @ concat ps) []"
proof (induction H st b ps rule: http_parse.induct)
  case (1 H st b ps)
  show ?case
  proof (cases "find_crlf b")
    case None
    then show ?thesis
    proof (cases ps)
      case (Cons p qs)
      then show ?thesis using None 1(1) [OF None Cons] by (subst http_parse.simps) simp
    qed simp
  next
    case (Some lr)
    obtain l r where lr: "lr = (l, r)" by fastforce
    have crlf: "find_crlf b = Some (l, r)" "find_crlf (b @ concat ps) = Some (l, r @ concat ps)"
      using Some lr find_crlf_append by simp_all
    note flat = http_line_flat [of H l r ps st, symmetric]
    show ?thesis
    proof (cases "http_line H l r ps st")
      case (LineContinue st' r' ps')
      have "http_parse H st' r' ps' = http_parse H st' (r' @ concat ps') []"
        by (rule 1(2) [OF Some _ LineContinue]) (simp add: lr)
      then show ?thesis
        using LineContinue flat by (subst (1 2) http_parse.simps) (simp add: crlf)
    next
      case (LineFinished st' res)
      then show ?thesis using flat by (subst (1 2) http_parse.simps) (simp add: crlf)
    qed
  qed
qed

subsection \<open>Reading back chunks\<close>

lemma find_crlf_line: "CHR 0x0D \<notin> set l \<Longrightarrow> CHR 0x00 \<notin> set l \<Longrightarrow> find_crlf (l @ kCRLF @ r) = Some (l, r)"
proof (induction l)
  case Nil
  then show ?case by (simp add: kCRLF_def)
next
  case (Cons a l)
  then have "find_crlf (l @ kCRLF @ r) = Some (l, r)" by simp
  moreover obtain b t where "l @ kCRLF @ r = b # t" by (cases l) (auto simp: kCRLF_def)
  ultimately show ?case using Cons.prems by auto
qed

lemma hex_char_facts:
  assumes "d < 16"
  shows "isxdigit (hex_char d)" "xdigit_value (hex_char d) = d"
  using assms by (auto simp: hex_char_def isxdigit_def isdigit_def xdigit_value_def Let_def)

lemma xdigits_value_snoc: "xdigits_value (xs @ [c]) = xdigits_value xs * 16 + xdigit_value c"
  by (simp add: xdigits_value_def)

lemma to_hex_facts: "to_hex n \<noteq> [] \<and> (\<forall>c \<in> set (to_hex n). isxdigit c) \<and> xdigits_value (to_hex n) = n"
proof (induction n rule: to_hex.induct)
  case (1 n)
  show ?case
  proof (cases "n < 16")
    case True
    then show ?thesis
      using hex_char_facts [of n] by (subst (1 2 3) to_hex.simps) (simp add: xdigits_value_def)
  next
    case False
    then show ?thesis
      using 1 hex_char_facts [of "n mod 16"] by (subst (1 2 3) to_hex.simps) (auto simp: xdigits_value_snoc)
  qed
qed

lemma isxdigit_plain:
  assumes "isxdigit c"
  shows "\<not> isspace c" "c \<noteq> CHR ''-''" "c \<noteq> CHR ''+''" "c \<noteq> CHR ''x''" "c \<noteq> CHR ''X''" "c \<noteq> CHR 0x0D" "c \<noteq> CHR 0x00"
  using assms by (auto simp: isxdigit_def isdigit_def isspace_def Let_def)

lemma stoi16_hex:
  assumes "ds \<noteq> []" "\<forall>c \<in> set ds. isxdigit c"
  shows "stoi16 ds = (if xdigits_value ds < 2 ^ 31 then Inr (int (xdigits_value ds)) else Inl StoiOutOfRange)"
    "stoi16 (CHR ''-'' # ds) = (if xdigits_value ds \<le> 2 ^ 31 then Inr (- int (xdigits_value ds)) else Inl StoiOutOfRange)"
proof -
  obtain c t where ds: "ds = c # t" using assms(1) by (cases ds) auto
  have c: "isxdigit c" using assms(2) ds by simp
  have prefix: "strip_0x ds = ds"
    using assms(2) isxdigit_plain(4,5) by (auto simp: strip_0x_def split: list.split)
  have drop: "dropWhile isspace ds = ds" using isxdigit_plain(1) [OF c] by (simp add: ds)
  have hd: "hd ds \<noteq> CHR ''-''" "hd ds \<noteq> CHR ''+''" using isxdigit_plain(2,3) [OF c] by (simp_all add: ds)
  have digits: "takeWhile isxdigit ds = ds" using assms(2) by simp
  have bound: "int (xdigits_value ds) < 2 ^ 31 \<longleftrightarrow> xdigits_value ds < 2 ^ 31"
    "int (xdigits_value ds) \<le> 2 ^ 31 \<longleftrightarrow> xdigits_value ds \<le> 2 ^ 31" by simp_all
  show "stoi16 ds = (if xdigits_value ds < 2 ^ 31 then Inr (int (xdigits_value ds)) else Inl StoiOutOfRange)"
    using assms(1) bound unfolding stoi16_def Let_def drop by (simp add: hd prefix digits)
  have minus: "dropWhile isspace (CHR ''-'' # ds) = CHR ''-'' # ds" by (simp add: isspace_def)
  show "stoi16 (CHR ''-'' # ds) = (if xdigits_value ds \<le> 2 ^ 31 then Inr (- int (xdigits_value ds)) else Inl StoiOutOfRange)"
    using assms(1) bound unfolding stoi16_def Let_def minus by (simp add: prefix digits)
qed

lemma stoi16_digits:
  "ds \<noteq> [] \<Longrightarrow> \<forall>c \<in> set ds. isxdigit c \<Longrightarrow> xdigits_value ds < 2 ^ 31 \<Longrightarrow> stoi16 ds = Inr (int (xdigits_value ds))"
  using stoi16_hex(1) [of ds] by simp

lemma stoi16_to_hex: "n < 2 ^ 31 \<Longrightarrow> stoi16 (to_hex n) = Inr (int n)"
  using stoi16_digits [of "to_hex n"] to_hex_facts [of n] by simp

fun feed_chunks :: "('h, 'x) http_helper \<Rightarrow> string list \<Rightarrow> 'h \<Rightarrow> 'h \<times> 'x option" where
  "feed_chunks H [] h = (h, None)"
| "feed_chunks H (d # ds) h =
     (case OnChunk H d h of (h, None) \<Rightarrow> feed_chunks H ds h | (h, Some x) \<Rightarrow> (h, Some x))"

definition in_chunks :: "'h http_state \<Rightarrow> bool" where
  "in_chunks st \<longleftrightarrow> hp_first_line_parsed st \<and> hp_receiving_body_in_chunks st"

lemma parse_chunk:
  assumes st: "in_chunks st" and d: "d \<noteq> []" "length d < 2 ^ 31"
  shows "http_parse H st (chunk_text d @ rest) [] =
    (case OnChunk H d (hp_helper st) of
       (h, None) \<Rightarrow> http_parse H (st\<lparr>hp_helper := h\<rparr>) rest []
     | (h, Some x) \<Rightarrow> (st\<lparr>hp_helper := h\<rparr>, Inl (HelperException x)))"
proof -
  have plain: "CHR 0x0D \<notin> set (to_hex n)" "CHR 0x00 \<notin> set (to_hex n)" for n
    using to_hex_facts [of n] isxdigit_plain(6,7) by blast+
  have blank: "http_parse H st' (kCRLF @ rest) [] = http_parse H st' rest []" if "in_chunks st'" for st'
    using that find_crlf_line [of "[]" rest] by (subst http_parse.simps) (simp add: http_line_def in_chunks_def)
  have "find_crlf (chunk_text d @ rest) = Some (to_hex (length d), d @ kCRLF @ rest)"
    using find_crlf_line [OF plain] by (simp add: chunk_text_def chunk_header_def)
  moreover have "take_bytes (length d) (d @ kCRLF @ rest) [] = Some (d, kCRLF @ rest, [])"
    by (simp add: take_bytes_def)
  ultimately show ?thesis
    using st d to_hex_facts [of "length d"] stoi16_to_hex [OF d(2)] blank
    by (subst http_parse.simps)
      (auto simp: http_line_def chunk_line_def in_chunks_def split: prod.split option.split)
qed

lemma parse_chunks:
  assumes "in_chunks st" "\<forall>d \<in> set ds. length d < 2 ^ 31"
  shows "http_parse H st (chunk_encoding ds @ ''0'' @ kCRLF @ kCRLF) [] =
    (case feed_chunks H (filter (\<lambda>d. d \<noteq> []) ds) (hp_helper st) of
       (h, None) \<Rightarrow> (case OnChunkedBodyDone H h of (h, body) \<Rightarrow> (st\<lparr>hp_helper := h\<rparr>, Inr body))
     | (h, Some x) \<Rightarrow> (st\<lparr>hp_helper := h\<rparr>, Inl (HelperException x)))"
  using assms
proof (induction ds arbitrary: st)
  case Nil
  have "find_crlf (''0'' @ kCRLF @ kCRLF) = Some (''0'', kCRLF)" by (rule find_crlf_line) simp_all
  moreover have "stoi16 ''0'' = Inr 0"
    using stoi16_digits [of "''0''"] by (simp add: isxdigit_def isdigit_def xdigits_value_def xdigit_value_def)
  ultimately show ?case
    using Nil.prems by (subst http_parse.simps)
      (simp add: http_line_def chunk_line_def in_chunks_def split: prod.split)
next
  case (Cons d ds)
  show ?case
  proof (cases "d = []")
    case True
    then show ?thesis using Cons by simp
  next
    case False
    obtain h x where hx: "OnChunk H d (hp_helper st) = (h, x)" by fastforce
    have "in_chunks (st\<lparr>hp_helper := h\<rparr>)" using Cons.prems(1) by (simp add: in_chunks_def)
    from Cons.IH [OF this] Cons.prems parse_chunk [OF Cons.prems(1) False, of H] show ?thesis
      using False hx by (cases x) simp_all
  qed
qed

subsection \<open>Reading back the head of a response\<close>

definition plain_text :: "string \<Rightarrow> bool" where
  "plain_text s \<longleftrightarrow> CHR 0x0D \<notin> set s \<and> CHR 0x00 \<notin> set s"

text \<open>A header that survives the trip: one line, no colon in its name, no outer blanks in its value, and none of the
  three headers that the parser itself acts on.\<close>

definition header_ok :: "http_header \<Rightarrow> bool" where
  "header_ok x \<longleftrightarrow> plain_text (hdr_header x) \<and> plain_text (hdr_value x) \<and> CHR '':'' \<notin> set (hdr_header x) \<and>
     trim_blanks (hdr_value x) = hdr_value x \<and> \<not> HeaderNameEquals (hdr_header x) ''Content-Length'' \<and>
     \<not> HeaderNameEquals (hdr_header x) ''X-HTTP-Method-Override'' \<and> \<not> HeaderNameEquals (hdr_header x) ''Transfer-Encoding''"

fun feed_headers :: "('h, 'x) http_helper \<Rightarrow> http_header list \<Rightarrow> 'h \<Rightarrow> 'h \<times> 'x option" where
  "feed_headers H [] h = (h, None)"
| "feed_headers H (x # xs) h =
     (case OnHeader H (hdr_header x) (hdr_value x) h of (h, None) \<Rightarrow> feed_headers H xs h | (h, Some e) \<Rightarrow> (h, Some e))"

definition in_headers :: "'h http_state \<Rightarrow> bool" where
  "in_headers st \<longleftrightarrow> hp_first_line_parsed st \<and> \<not> hp_receiving_body_in_chunks st"

lemma plain_text_simps [simp]:
  "plain_text []" "plain_text (c # s) \<longleftrightarrow> c \<noteq> CHR 0x0D \<and> c \<noteq> CHR 0x00 \<and> plain_text s"
  "plain_text (s @ t) \<longleftrightarrow> plain_text s \<and> plain_text t"
  by (auto simp: plain_text_def)

lemma split_colon_header: "CHR '':'' \<notin> set k \<Longrightarrow> split_colon (k @ '': '' @ v) = Some (k, '' '' @ v)"
  by (simp add: split_colon_def Let_def dropWhile_append takeWhile_append)

lemma trim_blanks_space: "trim_blanks (CHR '' '' # v) = trim_blanks v"
  by (simp add: trim_blanks_def IsSpaceOrTab_def)

lemma parse_header_text:
  fixes H :: "('h, 'x) http_helper"
  assumes st: "in_headers st" and x: "plain_text (hdr_header x)" "plain_text (hdr_value x)" "CHR '':'' \<notin> set (hdr_header x)"
    "trim_blanks (hdr_value x) = hdr_value x"
    and h: "OnHeader H (hdr_header x) (hdr_value x) (hp_helper st) = (h, None)"
    and eff: "header_effect (hdr_header x) (hdr_value x) (st\<lparr>hp_helper := h\<rparr>) = (st', None :: 'x http_exception option)"
  shows "http_parse H st (header_line x @ rest) [] = http_parse H st' rest []"
proof -
  let ?l = "hdr_header x @ '': '' @ hdr_value x"
  have "find_crlf (header_line x @ rest) = Some (?l, rest)"
    using find_crlf_line [of ?l rest] x by (simp add: header_line_def plain_text_def)
  moreover have "parse_header_line H ?l rest [] st = LineContinue st' rest []"
    unfolding parse_header_line_def split_colon_header [OF x(3)] using x(4) h eff by (simp add: trim_blanks_space)
  ultimately show ?thesis using st by (subst http_parse.simps) (simp add: http_line_def in_headers_def)
qed

lemma parse_header_thrown:
  assumes st: "in_headers st" and x: "header_ok x" and h: "OnHeader H (hdr_header x) (hdr_value x) (hp_helper st) = (h, Some e)"
  shows "http_parse H st (header_line x @ rest) [] = (st\<lparr>hp_helper := h\<rparr>, Inl (HelperException e))"
proof -
  let ?l = "hdr_header x @ '': '' @ hdr_value x"
  have "find_crlf (header_line x @ rest) = Some (?l, rest)"
    using find_crlf_line [of ?l rest] x by (simp add: header_line_def header_ok_def plain_text_def)
  moreover have "CHR '':'' \<notin> set (hdr_header x)" using x by (simp add: header_ok_def)
  from split_colon_header [OF this] have "parse_header_line H ?l rest [] st = LineFinished (st\<lparr>hp_helper := h\<rparr>) (Inl (HelperException e))"
    unfolding parse_header_line_def using x h by (simp add: header_ok_def trim_blanks_space)
  ultimately show ?thesis using st by (subst http_parse.simps) (simp add: http_line_def in_headers_def)
qed

lemma parse_headers:
  assumes "in_headers st" "\<forall>x \<in> set hs. header_ok x"
  shows "http_parse H st (concat (map header_line hs) @ rest) [] =
    (case feed_headers H hs (hp_helper st) of
       (h, None) \<Rightarrow> http_parse H (st\<lparr>hp_helper := h\<rparr>) rest []
     | (h, Some x) \<Rightarrow> (st\<lparr>hp_helper := h\<rparr>, Inl (HelperException x)))"
  using assms
proof (induction hs arbitrary: st)
  case (Cons x hs)
  obtain h e where he: "OnHeader H (hdr_header x) (hdr_value x) (hp_helper st) = (h, e)" by fastforce
  show ?case
  proof (cases e)
    case None
    let ?st = "st\<lparr>hp_helper := h\<rparr>"
    have "header_effect (hdr_header x) (hdr_value x) ?st = (?st, None)"
      using Cons.prems(2) by (simp add: header_effect_def header_ok_def)
    then have "http_parse H st (header_line x @ concat (map header_line hs) @ rest) [] =
        http_parse H ?st (concat (map header_line hs) @ rest) []"
      using Cons.prems he None by (intro parse_header_text) (auto simp: header_ok_def)
    moreover have "in_headers ?st" using Cons.prems(1) by (simp add: in_headers_def)
    ultimately show ?thesis using Cons.IH [of ?st] Cons.prems(2) he None by (simp split: prod.split option.split)
  next
    case (Some y)
    then show ?thesis using parse_header_thrown [OF Cons.prems(1), of x H h y] he Cons.prems(2) by simp
  qed
qed simp

lemma code_text_plain: "plain_text (HTTPResponseCodeAsString code)"
proof (cases "map_of response_codes code")
  case (Some t)
  then have "(code, t) \<in> set response_codes" by (rule map_of_SomeD)
  moreover have "\<forall>p \<in> set response_codes. plain_text (snd p)" by (simp add: response_codes_def)
  ultimately show ?thesis using Some by (auto simp: HTTPResponseCodeAsString_def)
qed (simp add: HTTPResponseCodeAsString_def)

lemma to_string_chars: "c \<in> set (to_string x) \<Longrightarrow> isdigit c \<or> c = CHR ''-''"
  using to_string_nat_digits by (auto simp: to_string_def split: if_splits)

lemma isdigit_isxdigit: "isdigit c \<Longrightarrow> isxdigit c"
  by (simp add: isxdigit_def)

lemma digits_no_space: "\<forall>c \<in> set s. isdigit c \<or> c = CHR ''-'' \<Longrightarrow> plain_text s \<and> (\<forall>c \<in> set s. \<not> isspace c)"
proof -
  assume "\<forall>c \<in> set s. isdigit c \<or> c = CHR ''-''"
  then have "c \<noteq> CHR 0x0D \<and> c \<noteq> CHR 0x00 \<and> \<not> isspace c" if "c \<in> set s" for c
    using that isxdigit_plain(1,6,7) [OF isdigit_isxdigit, of c] by (cases "isdigit c") (auto simp: isspace_def)
  then show ?thesis by (auto simp: plain_text_def)
qed

definition head_state :: "int \<Rightarrow> 'h \<Rightarrow> 'h http_state" where
  "head_state code h = (http_init h)\<lparr>hp_first_line_parsed := True, hp_method := ''HTTP/1.1'', hp_raw_path := to_string code\<rparr>"

lemma first_line_response:
  "first_line (''HTTP/1.1 '' @ to_string code @ '' '' @ HTTPResponseCodeAsString code) (http_init h) = head_state code h"
proof -
  have sp: "\<forall>c \<in> set (to_string code). \<not> match_whitespace c"
    using digits_no_space [of "to_string code"] to_string_chars by (simp add: match_whitespace_def)
  have ne: "to_string code \<noteq> []" by (simp add: to_string_def)
  have "Split (''HTTP/1.1'' @ CHR '' '' # to_string code @ CHR '' '' # HTTPResponseCodeAsString code) match_whitespace EmptyFields_Skip =
      ''HTTP/1.1'' # to_string code # Split (HTTPResponseCodeAsString code) match_whitespace EmptyFields_Skip"
    unfolding Split_def
    by (subst split_loop_field, simp_all add: match_whitespace_def isspace_def del: split_loop.simps)
      (subst split_loop_field, use sp ne in \<open>simp_all add: match_whitespace_def isspace_def\<close>)
  then show ?thesis by (simp add: first_line_def Let_def head_state_def http_init_def)
qed

lemma parse_response_head:
  assumes hs: "\<forall>x \<in> set hs. header_ok x" and ct: "plain_text content_type" "trim_blanks content_type = content_type"
  shows "http_parse H (http_init h) (PrepareHTTPResponseHeader connection_type code hs [] content_type @ rest) [] =
    (case feed_headers H (\<lparr>hdr_header = ''Content-Type'', hdr_value = content_type\<rparr> #
         \<lparr>hdr_header = ''Connection'', hdr_value = (if connection_type = ConnectionKeepAlive then ''keep-alive'' else ''close'')\<rparr> # hs) h of
       (h, None) \<Rightarrow> http_parse H (head_state code h) rest []
     | (h, Some x) \<Rightarrow> (head_state code h, Inl (HelperException x)))"
proof -
  let ?first = "''HTTP/1.1 '' @ to_string code @ '' '' @ HTTPResponseCodeAsString code"
  let ?all = "\<lparr>hdr_header = ''Content-Type'', hdr_value = content_type\<rparr> #
    \<lparr>hdr_header = ''Connection'', hdr_value = (if connection_type = ConnectionKeepAlive then ''keep-alive'' else ''close'')\<rparr> # hs"
  have split: "PrepareHTTPResponseHeader connection_type code hs [] content_type @ rest =
      ?first @ kCRLF @ concat (map header_line ?all) @ rest"
    by (simp add: PrepareHTTPResponseHeader_def header_line_def)
  have plain: "plain_text ?first"
    using digits_no_space [of "to_string code"] to_string_chars code_text_plain [of code] by simp
  have ok: "\<forall>x \<in> set ?all. header_ok x"
    using hs ct by (simp add: header_ok_def NormalizeHeaderChar_def tolower_char_def trim_blanks_def IsSpaceOrTab_def char_of_def bit_0)
  have "http_parse H (http_init h) (?first @ kCRLF @ concat (map header_line ?all) @ rest) [] =
      http_parse H (head_state code h) (concat (map header_line ?all) @ rest) []"
    using find_crlf_line [of ?first "concat (map header_line ?all) @ rest"] plain first_line_response [of code h]
    by (subst http_parse.simps) (simp add: plain_text_def http_line_def http_init_def)
  also have "\<dots> = (case feed_headers H ?all h of
       (h, None) \<Rightarrow> http_parse H (head_state code h) rest []
     | (h, Some x) \<Rightarrow> (head_state code h, Inl (HelperException x)))"
    using parse_headers [of "head_state code h" ?all H rest] ok
    by (simp add: in_headers_def head_state_def http_init_def split: prod.split option.split)
  finally show ?thesis unfolding split .
qed

definition response_headers :: "connection_type \<Rightarrow> string \<Rightarrow> http_header list \<Rightarrow> http_header \<Rightarrow> http_header list" where
  "response_headers connection_type content_type hs body_header =
     [\<lparr>hdr_header = ''Content-Type'', hdr_value = content_type\<rparr>,
      \<lparr>hdr_header = ''Connection'', hdr_value = (if connection_type = ConnectionKeepAlive then ''keep-alive'' else ''close'')\<rparr>] @
     hs @ [body_header]"

lemma feed_headers_append:
  "feed_headers H (xs @ ys) h = (case feed_headers H xs h of (h, None) \<Rightarrow> feed_headers H ys h | (h, Some x) \<Rightarrow> (h, Some x))"
  by (induction xs arbitrary: h) (auto split: prod.split option.split)

lemma HeaderNameEquals_refl [simp]: "HeaderNameEquals a a"
  by (induction a) auto

text \<open>The last header, which says how the body comes.\<close>

lemma parse_response:
  fixes H :: "('h, 'x) http_helper"
  assumes hs: "\<forall>x \<in> set hs. header_ok x" and ct: "plain_text content_type" "trim_blanks content_type = content_type"
    and x: "plain_text (hdr_header x)" "plain_text (hdr_value x)" "CHR '':'' \<notin> set (hdr_header x)" "trim_blanks (hdr_value x) = hdr_value x"
    and feed: "feed_headers H (response_headers connection_type content_type hs x) h = (h1, None)"
    and eff: "header_effect (hdr_header x) (hdr_value x) (head_state code h1) = (st', None :: 'x http_exception option)"
  shows "http_parse H (http_init h) (PrepareHTTPResponseHeader connection_type code hs [] content_type @ header_line x @ rest) [] =
    http_parse H st' rest []"
proof -
  let ?all = "\<lparr>hdr_header = ''Content-Type'', hdr_value = content_type\<rparr> #
    \<lparr>hdr_header = ''Connection'', hdr_value = (if connection_type = ConnectionKeepAlive then ''keep-alive'' else ''close'')\<rparr> # hs"
  obtain h0 where h0: "feed_headers H ?all h = (h0, None)" "OnHeader H (hdr_header x) (hdr_value x) h0 = (h1, None)"
    using feed feed_headers_append [of H ?all "[x]" h]
    by (auto simp: response_headers_def split: prod.splits option.splits)
  have "http_parse H (http_init h) (PrepareHTTPResponseHeader connection_type code hs [] content_type @ header_line x @ rest) [] =
      http_parse H (head_state code h0) (header_line x @ rest) []"
    using parse_response_head [OF hs ct, of H h connection_type code] h0(1) by simp
  also have "\<dots> = http_parse H st' rest []"
  proof (rule parse_header_text [OF _ x])
    show "in_headers (head_state code h0)" by (simp add: in_headers_def head_state_def http_init_def)
    show "OnHeader H (hdr_header x) (hdr_value x) (hp_helper (head_state code h0)) = (h1, None)"
      using h0(2) by (simp add: head_state_def http_init_def)
    have "(head_state code h0)\<lparr>hp_helper := h1\<rparr> = head_state code h1" by (simp add: head_state_def http_init_def)
    then show "header_effect (hdr_header x) (hdr_value x) ((head_state code h0)\<lparr>hp_helper := h1\<rparr>) = (st', None :: 'x http_exception option)"
      using eff by simp
  qed
  finally show ?thesis .
qed

lemma parse_blank: "in_headers st \<Longrightarrow> http_parse H st (kCRLF @ rest) [] =
    (case end_of_headers rest [] st of LineContinue st r ps \<Rightarrow> http_parse H st r ps | LineFinished st x \<Rightarrow> (st, x))"
  using find_crlf_line [of "[]" rest] by (subst http_parse.simps) (simp add: http_line_def in_headers_def)

lemma atoi_to_string: "n < 2 ^ 31 \<Longrightarrow> atoi (to_string_nat n) = int n"
proof -
  assume n: "n < 2 ^ 31"
  obtain c t where ds: "to_string_nat n = c # t" by (cases "to_string_nat n") auto
  have c: "isxdigit c" using to_string_nat_digits [of n] ds by (simp add: isdigit_isxdigit)
  have drop: "dropWhile isspace (to_string_nat n) = to_string_nat n" using isxdigit_plain(1) [OF c] by (simp add: ds)
  have hd: "hd (to_string_nat n) \<noteq> CHR ''-''" "hd (to_string_nat n) \<noteq> CHR ''+''"
    using isxdigit_plain(2,3) [OF c] by (simp_all add: ds)
  have tw: "takeWhile isdigit (to_string_nat n) = to_string_nat n" using to_string_nat_digits by simp
  have "(int n + 2 ^ 31) mod 2 ^ 32 = int n + 2 ^ 31" using n by (intro mod_pos_pos_trivial) auto
  moreover have "min int64_max (int n) = int n" using n by (simp add: int64_max_def)
  ultimately show ?thesis unfolding atoi_def Let_def drop by (simp add: hd tw)
qed

lemma trim_blanks_id: "\<forall>c \<in> set s. \<not> IsSpaceOrTab c \<Longrightarrow> trim_blanks s = s"
proof -
  have drop: "dropWhile IsSpaceOrTab t = t" if "\<forall>c \<in> set t. \<not> IsSpaceOrTab c" for t
    using that by (cases t) auto
  assume "\<forall>c \<in> set s. \<not> IsSpaceOrTab c"
  then show ?thesis using drop [of s] drop [of "rev s"] by (simp add: trim_blanks_def)
qed

subsection \<open>Properties\<close>



text \<open>
  C25: A chunked response is read back as it was sent: with headers that fit on a line, and pieces of less than two
  gigabytes, the parser of the client passes the headers and then exactly the non-empty pieces, in order, to its
  callbacks, stopping at the first callback that throws, however the text is cut on the way.
\<close>

theorem chunked_response_roundtrip:
  assumes "\<forall>x \<in> set hs. header_ok x" "plain_text content_type" "trim_blanks content_type = content_type"
    and "\<forall>d \<in> set ds. length d < 2 ^ 31"
    and "concat packets = response_text (RespondChunked code hs [] content_type) @ chunk_encoding ds @ ''0'' @ kCRLF @ kCRLF"
    and "feed_headers H (response_headers ConnectionKeepAlive content_type hs
           \<lparr>hdr_header = ''Transfer-Encoding'', hdr_value = ''chunked''\<rparr>) h = (h1, None)"
  shows "\<exists>st. hp_method st = ''HTTP/1.1'' \<and> hp_raw_path st = to_string code \<and>
    http_parse H (http_init h) [] packets =
      (case feed_chunks H (filter (\<lambda>d. d \<noteq> []) ds) h1 of
         (h2, None) \<Rightarrow> (case OnChunkedBodyDone H h2 of (h3, body) \<Rightarrow> (st\<lparr>hp_helper := h3\<rparr>, Inr body))
       | (h2, Some x) \<Rightarrow> (st\<lparr>hp_helper := h2\<rparr>, Inl (HelperException x)))"
proof -
  let ?x = "\<lparr>hdr_header = ''Transfer-Encoding'', hdr_value = ''chunked''\<rparr>"
  let ?rest = "kCRLF @ chunk_encoding ds @ ''0'' @ kCRLF @ kCRLF"
  let ?st = "(head_state code h1)\<lparr>hp_chunked_transfer_encoding := True\<rparr>"
  let ?st' = "?st\<lparr>hp_receiving_body_in_chunks := True\<rparr>"
  have split: "response_text (RespondChunked code hs [] content_type) @ chunk_encoding ds @ ''0'' @ kCRLF @ kCRLF =
      PrepareHTTPResponseHeader ConnectionKeepAlive code hs [] content_type @ header_line ?x @ ?rest"
    by (simp add: header_line_def)
  have "http_parse H (http_init h) [] packets = http_parse H (http_init h) (concat packets) []"
    using http_parse_flat [of H "http_init h" "[]" packets] by simp
  also have "\<dots> = http_parse H ?st ?rest []"
    unfolding assms(5) split
    by (rule parse_response [OF assms(1,2,3) _ _ _ _ assms(6)])
      (simp_all add: header_effect_def NormalizeHeaderChar_def tolower_char_def trim_blanks_def IsSpaceOrTab_def char_of_def bit_0)
  also have "\<dots> = http_parse H ?st' (chunk_encoding ds @ ''0'' @ kCRLF @ kCRLF) []"
    by (subst parse_blank) (simp_all add: in_headers_def head_state_def http_init_def end_of_headers_def)
  also have "\<dots> = (case feed_chunks H (filter (\<lambda>d. d \<noteq> []) ds) (hp_helper ?st') of
       (h, None) \<Rightarrow> (case OnChunkedBodyDone H h of (h, body) \<Rightarrow> (?st'\<lparr>hp_helper := h\<rparr>, Inr body))
     | (h, Some x) \<Rightarrow> (?st'\<lparr>hp_helper := h\<rparr>, Inl (HelperException x)))"
    by (rule parse_chunks) (use assms(4) in \<open>simp_all add: in_chunks_def head_state_def http_init_def\<close>)
  finally show ?thesis
    by (intro exI [of _ ?st']) (simp add: head_state_def http_init_def)
qed

definition recorder :: "(string list \<times> string list, unit) http_helper" where
  "recorder = ChunkByChunkHTTPResponseReceiver (\<lambda>k v (hs, cs). ((hs @ [k], cs), None)) (\<lambda>d (hs, cs). ((hs, cs @ [d]), None)) id"

theorem chunked_response_roundtrip_witness:
  "\<exists>st. http_parse recorder (http_init ([], [])) []
      [response_text (RespondChunked 200 [] [] ''text/plain''), chunk_encoding [''ab'', [], ''c''], ''0'' @ kCRLF @ kCRLF] =
    (st\<lparr>hp_helper := ([''Content-Type'', ''Connection'', ''Transfer-Encoding''], [''ab'', ''c''])\<rparr>, Inr None)"
  using chunked_response_roundtrip [of "[]" "''text/plain''" "[''ab'', [], ''c'']"
      "[response_text (RespondChunked 200 [] [] ''text/plain''), chunk_encoding [''ab'', [], ''c''], ''0'' @ kCRLF @ kCRLF]" 200 recorder "([], [])"]
  by (simp add: recorder_def ChunkByChunkHTTPResponseReceiver_def response_headers_def trim_blanks_def IsSpaceOrTab_def
      del: chunk_encoding_simps response_text.simps) blast

text \<open>
  A whole response of at most the maximal size is read back as it was sent: the parser returns the body that was
  given to \<^verbatim>\<open>SendHTTPResponse\<close>, after passing the headers to its callback.
\<close>

theorem response_roundtrip:
  assumes "\<forall>x \<in> set hs. header_ok x" "plain_text content_type" "trim_blanks content_type = content_type"
    and "length body \<le> kMaxHTTPPayloadSizeInBytes"
    and "concat packets = response_text (Respond body code hs [] content_type)"
    and "feed_headers H (response_headers ConnectionClose content_type hs
           \<lparr>hdr_header = ''Content-Length'', hdr_value = to_string_nat (length body)\<rparr>) h = (h1, None)"
  shows "\<exists>st. hp_method st = ''HTTP/1.1'' \<and> hp_raw_path st = to_string code \<and> hp_helper st = h1 \<and>
    http_parse H (http_init h) [] packets = (st, Inr (Some body))"
proof -
  let ?x = "\<lparr>hdr_header = ''Content-Length'', hdr_value = to_string_nat (length body)\<rparr>"
  let ?st = "(head_state code h1)\<lparr>hp_body_length := Some (length body)\<rparr>"
  have digits: "\<forall>c \<in> set (to_string_nat (length body)). isdigit c" by (rule to_string_nat_digits)
  then have plain: "plain_text (to_string_nat (length body))" "\<forall>c \<in> set (to_string_nat (length body)). \<not> isspace c"
    using digits_no_space [of "to_string_nat (length body)"] by blast+
  have "\<forall>c \<in> set (to_string_nat (length body)). \<not> IsSpaceOrTab c"
    using plain(2) by (auto simp: IsSpaceOrTab_def isspace_def)
  then have trim: "trim_blanks (to_string_nat (length body)) = to_string_nat (length body)" by (rule trim_blanks_id)
  have len: "length body < 2 ^ 31" using assms(4) by (simp add: kMaxHTTPPayloadSizeInBytes_def)
  have split: "response_text (Respond body code hs [] content_type) =
      PrepareHTTPResponseHeader ConnectionClose code hs [] content_type @ header_line ?x @ kCRLF @ body"
    by (simp add: header_line_def)
  have "http_parse H (http_init h) [] packets = http_parse H (http_init h) (concat packets) []"
    using http_parse_flat [of H "http_init h" "[]" packets] by simp
  also have "\<dots> = http_parse H ?st (kCRLF @ body) []"
    unfolding assms(5) split
    by (rule parse_response [OF assms(1,2,3) _ _ _ _ assms(6)])
      (use plain trim atoi_to_string [OF len] assms(4) in \<open>simp_all add: header_effect_def Let_def\<close>)
  also have "\<dots> = (?st, Inr (Some body))"
    by (subst parse_blank) (simp_all add: in_headers_def head_state_def http_init_def end_of_headers_def take_bytes_def)
  finally show ?thesis by (intro exI [of _ ?st]) (simp add: head_state_def http_init_def)
qed

theorem response_roundtrip_witness:
  "\<exists>st. http_parse recorder (http_init ([], [])) [] [response_text (Respond ''hi'' 404 [] [] ''text/plain'')] =
    (st, Inr (Some ''hi'')) \<and> hp_raw_path st = ''404''"
proof -
  have "to_string 404 = ''404''" by (simp add: to_string_def to_string_nat.simps digit_char_def char_of_def bit_0)
  then show ?thesis
    using response_roundtrip [of "[]" "''text/plain''" "''hi''" "[response_text (Respond ''hi'' 404 [] [] ''text/plain'')]" 404 recorder "([], [])"]
    by (simp add: recorder_def ChunkByChunkHTTPResponseReceiver_def response_headers_def trim_blanks_def IsSpaceOrTab_def
        kMaxHTTPPayloadSizeInBytes_def del: response_text.simps) blast
qed



end
