(* ===== verification/Url.thy ===== *)
theory Url
  imports HttpParser
begin

text \<open>
  URLs: \<^verbatim>\<open>src/blocks/url/url.h\<close>.  Positions in a text are natural numbers, \<^const>\<open>None\<close> stands for
  \<^verbatim>\<open>std::string::npos\<close>.  The path of a URL is not decoded; the names and the values of its parameters are.
  \<^verbatim>\<open>FillObject\<close>, which visits the fields of a user's type, is not modelled.
\<close>

subsection \<open>Positions\<close>

definition find_char :: "string \<Rightarrow> char \<Rightarrow> nat \<Rightarrow> nat option" where
  "find_char s c offset =
     (let n = length (takeWhile (\<lambda>x. x \<noteq> c) (drop offset s))
      in if offset + n < length s then Some (offset + n) else None)"

fun find_double_slash :: "string \<Rightarrow> nat option" where
  "find_double_slash (a # b # s) =
     (if a = CHR ''/'' \<and> b = CHR ''/'' then Some 0 else map_option Suc (find_double_slash (b # s)))"
| "find_double_slash _ = None"

definition substr :: "string \<Rightarrow> nat \<Rightarrow> nat option \<Rightarrow> string" where
  "substr s pos n = (case n of None \<Rightarrow> drop pos s | Some n \<Rightarrow> take n (drop pos s))"

text \<open>\<^verbatim>\<open>a != npos && a < b\<close>.\<close>

fun pos_before :: "nat option \<Rightarrow> nat option \<Rightarrow> bool" where
  "pos_before None b \<longleftrightarrow> False"
| "pos_before (Some a) None \<longleftrightarrow> True"
| "pos_before (Some a) (Some b) \<longleftrightarrow> a < b"

subsection \<open>Scheme, host, port and path\<close>

record url =
  url_host :: string
  url_path :: string
  url_scheme :: string
  url_port :: nat
  url_username :: string
  url_password :: string
  url_parameters :: "(string \<times> string) list"
  url_fragment :: string

definition kDefaultScheme :: string where "kDefaultScheme = ''http''"
definition kDefaultHost :: string where "kDefaultHost = ''localhost''"

definition url_default :: url where
  "url_default = \<lparr>url_host = [], url_path = ''/'', url_scheme = kDefaultScheme, url_port = 0, url_username = [],
     url_password = [], url_parameters = [], url_fragment = []\<rparr>"

text \<open>The three pieces of \<^verbatim>\<open>ParseURLWithoutParameters\<close>: the scheme, the credentials, the host with its port.\<close>

definition parse_scheme :: "string \<Rightarrow> string \<times> nat" where
  "parse_scheme s =
     (case find_double_slash s of
        None \<Rightarrow> ([], 0)
      | Some double_slash \<Rightarrow>
          if double_slash = 0 \<or> s ! (double_slash - 1) = CHR '':''
          then (if double_slash = 0 then [] else take (double_slash - 1) s, double_slash + 2)
          else ([], 0))"

definition parse_credentials :: "string \<Rightarrow> nat option \<Rightarrow> nat \<Rightarrow> url \<Rightarrow> url \<times> nat" where
  "parse_credentials s host_end parsed_offset u =
     (let at_sign = find_char s (CHR ''@'') parsed_offset in
      if pos_before at_sign host_end then
        let user_pass_colon = find_char s (CHR '':'') parsed_offset in
        (if pos_before user_pass_colon at_sign
         then u\<lparr>url_username := substr s parsed_offset (Some (the user_pass_colon - parsed_offset)),
                url_password := substr s (the user_pass_colon + 1) (Some (the at_sign - (the user_pass_colon + 1)))\<rparr>
         else u\<lparr>url_username := substr s parsed_offset (Some (the at_sign - parsed_offset))\<rparr>,
         the at_sign + 1)
      else (u, parsed_offset))"

definition parse_host_port :: "string \<Rightarrow> nat option \<Rightarrow> nat \<Rightarrow> url \<Rightarrow> url" where
  "parse_host_port s host_end parsed_offset u =
     (let port_colon = find_char s (CHR '':'') parsed_offset in
      if pos_before port_colon host_end
      then u\<lparr>url_host := substr s parsed_offset (Some (the port_colon - parsed_offset)),
             url_port := nat (atoi (drop (the port_colon + 1) s) mod 2 ^ 16)\<rparr>
      else u\<lparr>url_host := substr s parsed_offset (map_option (\<lambda>e. e - parsed_offset) host_end)\<rparr>)"

text \<open>\<^const>\<open>None\<close> is an \<^verbatim>\<open>EmptyURLException\<close>.  \<^verbatim>\<open>host_end - parsed_offset\<close> is unbounded when there is no path.\<close>

definition ParseURLWithoutParameters :: "string \<Rightarrow> url \<Rightarrow> url option" where
  "ParseURLWithoutParameters s u =
     (if s = [] then None
      else
        let (scheme, parsed_offset) = parse_scheme s;
            host_end = find_char s (CHR ''/'') parsed_offset;
            (u, parsed_offset) = parse_credentials s host_end parsed_offset (u\<lparr>url_scheme := scheme\<rparr>);
            u = parse_host_port s host_end parsed_offset u;
            path = (case host_end of None \<Rightarrow> [] | Some e \<Rightarrow> drop e s)
        in Some (u\<lparr>url_path := (if path = [] then ''/'' else path)\<rparr>))"

definition DefaultPortForScheme :: "string \<Rightarrow> nat" where
  "DefaultPortForScheme scheme = (if scheme = ''http'' then 80 else if scheme = ''https'' then 443 else 0)"

definition DefaultSchemeForPort :: "nat \<Rightarrow> string" where
  "DefaultSchemeForPort port = (if port = 80 then ''http'' else if port = 443 then ''https'' else [])"

definition ComposeURLWithoutParameters :: "url \<Rightarrow> string" where
  "ComposeURLWithoutParameters u =
     (if url_host u \<noteq> [] then
        let scheme = (if url_scheme u \<noteq> [] then url_scheme u
                      else if url_port u > 0 then DefaultSchemeForPort (url_port u) else kDefaultScheme);
            port = (if url_port u > 0 \<and> url_port u \<noteq> DefaultPortForScheme scheme then url_port u else 0)
        in (if scheme \<noteq> [] then scheme else kDefaultScheme) @ ''://'' @
           (if url_username u \<noteq> []
            then url_username u @ (if url_password u \<noteq> [] then CHR '':'' # url_password u else []) @ ''@'' else []) @
           url_host u @ (if port > 0 then CHR '':'' # to_string_nat port else []) @ url_path u
      else url_path u)"

subsection \<open>Parameters\<close>

definition IsURIComponentSpecialCharacter :: "char \<Rightarrow> bool" where
  "IsURIComponentSpecialCharacter c \<longleftrightarrow>
     (let n = of_char c :: nat in
      97 \<le> n \<and> n \<le> 122 \<or> 65 \<le> n \<and> n \<le> 90 \<or> 48 \<le> n \<and> n \<le> 57) \<or> c \<in> set ''-_.~!()'' \<or> c = CHR 0x27"

fun DecodeURIComponent :: "string \<Rightarrow> string" where
  "DecodeURIComponent (c # a # b # s) =
     (if c = CHR ''+'' then CHR '' '' # DecodeURIComponent (a # b # s)
      else if c = CHR ''%'' \<and> isxdigit a \<and> isxdigit b
      then char_of (16 * xdigit_value a + xdigit_value b) # DecodeURIComponent s
      else c # DecodeURIComponent (a # b # s))"
| "DecodeURIComponent (c # s) = (if c = CHR ''+'' then CHR '' '' else c) # DecodeURIComponent s"
| "DecodeURIComponent [] = []"

text \<open>
  \<^verbatim>\<open>Printf("%%%02X", static_cast<int>(c))\<close>, where \<^verbatim>\<open>char\<close> is signed: a character above 127 is a negative
  \<^verbatim>\<open>int\<close>, which \<^verbatim>\<open>%X\<close> prints as a 32-bit unsigned number.
\<close>

definition percent_02X :: "char \<Rightarrow> string" where
  "percent_02X c =
     (let n = of_char c :: nat; v = (if n < 128 then n else 2 ^ 32 - 256 + n); digits = to_hex v
      in CHR ''%'' # replicate (2 - length digits) (CHR ''0'') @ digits)"

definition encode_char :: "char \<Rightarrow> string" where
  "encode_char c =
     (if IsURIComponentSpecialCharacter c then [c] else if c = CHR '' '' then ''%20'' else percent_02X c)"

definition EncodeURIComponent :: "string \<Rightarrow> string" where
  "EncodeURIComponent decoded = concat (map encode_char decoded)"

definition parameter_text :: "string \<times> string \<Rightarrow> string" where
  "parameter_text kv = EncodeURIComponent (fst kv) @ CHR ''='' # EncodeURIComponent (snd kv)"

fun compose_parameters :: "bool \<Rightarrow> (string \<times> string) list \<Rightarrow> string" where
  "compose_parameters first [] = []"
| "compose_parameters first (kv # kvs) =
     (if first then CHR ''?'' else CHR ''&'') # parameter_text kv @ compose_parameters False kvs"

definition ComposeParameters :: "url \<Rightarrow> string" where
  "ComposeParameters u =
     compose_parameters True (url_parameters u) @ (if url_fragment u \<noteq> [] then CHR ''#'' # url_fragment u else [])"

definition split_parameter :: "string \<Rightarrow> string \<times> string" where
  "split_parameter chunk =
     (case find_char chunk (CHR ''='') 0 of Some i \<Rightarrow> (take i chunk, drop (i + 1) chunk) | None \<Rightarrow> (chunk, []))"

definition ExtractURLParametersFromURL :: "string \<Rightarrow> url \<Rightarrow> url \<times> nat" where
  "ExtractURLParametersFromURL s u =
     (let parameters_start_index = length s;
          pound_sign_index = find_char s (CHR ''#'') 0;
          (u, parameters_start_index) =
            (case pound_sign_index of
               Some i \<Rightarrow> (u\<lparr>url_fragment := drop (i + 1) s\<rparr>, i) | None \<Rightarrow> (u, parameters_start_index));
          question_mark_index = find_char s (CHR ''?'') 0
      in if pos_before question_mark_index pound_sign_index then
           let q = the question_mark_index;
               chunks = Split (take (parameters_start_index - (q + 1)) (drop (q + 1) s)) (match_char (CHR ''&'')) EmptyFields_Skip;
               v = map (map_prod DecodeURIComponent DecodeURIComponent \<circ> split_parameter) chunks
           in (u\<lparr>url_parameters := url_parameters u @ v\<rparr>, q)
         else (u, parameters_start_index))"

text \<open>
  The map \<^verbatim>\<open>query\<close> is built from the vector of parameters, where the first of several parameters of the same name
  is kept: \<^verbatim>\<open>has\<close> and \<^verbatim>\<open>operator[]\<close>.
\<close>

definition query_has :: "url \<Rightarrow> string \<Rightarrow> bool" where
  "query_has u key \<longleftrightarrow> map_of (url_parameters u) key \<noteq> None"

definition query_get :: "url \<Rightarrow> string \<Rightarrow> string" where
  "query_get u key = (case map_of (url_parameters u) key of Some v \<Rightarrow> v | None \<Rightarrow> [])"

definition URL :: "string \<Rightarrow> url option" where
  "URL s =
     (case ExtractURLParametersFromURL s url_default of
        (u, parameters_start_index) \<Rightarrow> ParseURLWithoutParameters (take parameters_start_index s) u)"

definition ComposeURL :: "url \<Rightarrow> string" where
  "ComposeURL u = ComposeURLWithoutParameters u @ ComposeParameters u"

definition MakeURLWithDefaults :: "url \<Rightarrow> url" where
  "MakeURLWithDefaults u =
     (let u = (if url_scheme u = []
               then u\<lparr>url_scheme := (if url_port u = 0 then kDefaultScheme
                        else if DefaultSchemeForPort (url_port u) = [] then kDefaultScheme
                        else DefaultSchemeForPort (url_port u))\<rparr>
               else u);
          u = (if url_host u = [] then u\<lparr>url_host := kDefaultHost\<rparr> else u)
      in if url_port u = 0 then u\<lparr>url_port := DefaultPortForScheme (url_scheme u)\<rparr> else u)"

definition MakeRedirectedURL :: "url \<Rightarrow> url \<Rightarrow> url" where
  "MakeRedirectedURL source target =
     (let u = source;
          u = (if url_scheme target \<noteq> [] then u\<lparr>url_scheme := url_scheme target\<rparr> else u);
          u = u\<lparr>url_username := url_username target, url_password := url_password target\<rparr>;
          u = (if url_host target \<noteq> [] then u\<lparr>url_host := url_host target, url_port := url_port target\<rparr>
               else if url_port target > 0 then u\<lparr>url_port := url_port target\<rparr> else u);
          u = u\<lparr>url_path := url_path target, url_parameters := url_parameters target, url_fragment := url_fragment target\<rparr>
      in MakeURLWithDefaults u)"

definition ParseQueryString :: "string \<Rightarrow> (string \<rightharpoonup> string) option" where
  "ParseQueryString body = map_option (map_of \<circ> url_parameters) (URL (''/?'' @ body))"

definition IsPathValidToRegister :: "string \<Rightarrow> bool" where
  "IsPathValidToRegister path \<longleftrightarrow> list_all (\<lambda>c. isalnum c \<or> c \<in> set (CHR 0x27 # ''/-._~!$&()*+,;=:@'')) path"

subsection \<open>Arguments in the path\<close>

text \<open>The arguments are pushed from the last one to the first one and read in reverse; out of range is \<^verbatim>\<open>at\<close> throwing.\<close>

record url_path_args =
  upa_base_path :: string
  upa_args :: "string list"

definition upa_get :: "url_path_args \<Rightarrow> nat \<Rightarrow> string option" where
  "upa_get a index =
     (if index < length (upa_args a) then Some (upa_args a ! (length (upa_args a) - 1 - index)) else None)"

definition upa_add :: "string \<Rightarrow> url_path_args \<Rightarrow> url_path_args" where
  "upa_add arg a = a\<lparr>upa_args := upa_args a @ [arg]\<rparr>"

definition ComposeURLPathFromArgs :: "url_path_args \<Rightarrow> string" where
  "ComposeURLPathFromArgs a =
     (let result = concat (map (\<lambda>component. CHR ''/'' # component) (rev (upa_args a)))
      in if result = [] then ''/'' else result)"

definition ComposeURLPath :: "url_path_args \<Rightarrow> string" where
  "ComposeURLPath a =
     (let path_from_args = ComposeURLPathFromArgs a in
      if upa_base_path a = [] \<or> upa_base_path a = ''/'' then path_from_args
      else if path_from_args = ''/'' then upa_base_path a else upa_base_path a @ path_from_args)"

subsection \<open>Encoding and decoding components\<close>

lemma decode_plain: "c \<noteq> CHR ''+'' \<Longrightarrow> c \<noteq> CHR ''%'' \<Longrightarrow> DecodeURIComponent (c # s) = c # DecodeURIComponent s"
  by (cases "(c # s)" rule: DecodeURIComponent.cases) simp_all

lemma decode_plains:
  "\<forall>c \<in> set t. c \<noteq> CHR ''+'' \<and> c \<noteq> CHR ''%'' \<Longrightarrow> DecodeURIComponent (t @ s) = t @ DecodeURIComponent s"
  by (induction t) (simp_all add: decode_plain)

lemma decode_percent:
  "isxdigit a \<Longrightarrow> isxdigit b \<Longrightarrow>
   DecodeURIComponent (CHR ''%'' # a # b # s) = char_of (16 * xdigit_value a + xdigit_value b) # DecodeURIComponent s"
  by simp

lemma percent_ascii:
  assumes "of_char c < (128 :: nat)"
  shows "percent_02X c = [CHR ''%'', hex_char (of_char c div 16), hex_char (of_char c mod 16)]"
proof (cases "of_char c < (16 :: nat)")
  case True
  then show ?thesis
    by (simp add: percent_02X_def Let_def to_hex.simps [of "of_char c"]) (simp add: hex_char_def char_of_def bit_0)
next
  case False
  then have "of_char c div 16 < (16 :: nat)" using assms by linarith
  then show ?thesis
    using False assms
    by (simp add: percent_02X_def Let_def to_hex.simps [of "of_char c"] to_hex.simps [of "of_char c div 16"])
qed

lemma of_char_div16: "of_char c div 16 < (16 :: nat)"
  using nat_of_char_less_256 [of c] by linarith

lemma percent_non_ascii:
  assumes "128 \<le> (of_char c :: nat)"
  shows "percent_02X c = ''%FFFFFF'' @ [hex_char (of_char c div 16), hex_char (of_char c mod 16)]"
proof -
  let ?n = "of_char c :: nat"
  define k where "k = ?n div 16"
  have k: "8 \<le> k" "k < 16" using assms of_char_div16 [of c] by (auto simp: k_def)
  have 1: "to_hex (2 ^ 32 - 256 + ?n) = to_hex (2 ^ 28 - 16 + k) @ [hex_char (?n mod 16)]"
  proof -
    have "2 ^ 32 - 256 + ?n = ?n + (2 ^ 28 - 16) * 16" by simp
    moreover have "(?n + (2 ^ 28 - 16) * 16) div 16 = 2 ^ 28 - 16 + k" "(?n + (2 ^ 28 - 16) * 16) mod 16 = ?n mod 16"
      by (simp_all only: div_mult_self1 mod_mult_self1 k_def)
    ultimately show ?thesis by (subst to_hex.simps) (simp add: add.commute)
  qed
  have 2: "to_hex (2 ^ 28 - 16 + k) = to_hex (2 ^ 24 - 1) @ [hex_char k]"
  proof -
    have "(2 ^ 28 - 16 + k) div 16 = 2 ^ 24 - 1" "(2 ^ 28 - 16 + k) mod 16 = k" using k by (auto, presburger)
    then show ?thesis by (subst to_hex.simps) simp
  qed
  have 3: "to_hex (2 ^ 24 - 1) = ''FFFFFF''"
    by (simp add: to_hex.simps hex_char_def char_of_def bit_0)
  have hex: "to_hex (2 ^ 32 - 256 + ?n) = ''FFFFFF'' @ [hex_char k, hex_char (?n mod 16)]" by (simp only: 1 2 3) simp
  show ?thesis using assms unfolding percent_02X_def Let_def k_def [symmetric] if_not_P [OF leD [OF assms]] hex by simp
qed

lemma uri_special_plain: "IsURIComponentSpecialCharacter c \<Longrightarrow> c \<notin> set ''+%&=?#/:@''"
  by (auto simp: IsURIComponentSpecialCharacter_def)

lemma isxdigit_no_delimiter: "isxdigit c \<Longrightarrow> c \<notin> set ''+%&=?#/:@''"
  by (auto simp: isxdigit_def isdigit_def Let_def)

text \<open>What a character becomes after encoding and decoding.\<close>

definition decoded_char :: "char \<Rightarrow> string" where
  "decoded_char c =
     (let n = (of_char c :: nat) in
      if n < 128 then [c] else char_of (255 :: nat) # ''FFFF'' @ [hex_char (n div 16), hex_char (n mod 16)])"

lemma decode_encode_char: "DecodeURIComponent (encode_char c @ s) = decoded_char c @ DecodeURIComponent s"
proof -
  let ?n = "of_char c :: nat"
  have x: "isxdigit (hex_char (?n div 16))" "isxdigit (hex_char (?n mod 16))"
    "xdigit_value (hex_char (?n div 16)) = ?n div 16" "xdigit_value (hex_char (?n mod 16)) = ?n mod 16"
    by (auto intro!: hex_char_facts of_char_div16)
  have plain: "IsURIComponentSpecialCharacter c \<Longrightarrow> ?n < 128"
    by (auto simp: IsURIComponentSpecialCharacter_def Let_def)
  consider "IsURIComponentSpecialCharacter c" | "\<not> IsURIComponentSpecialCharacter c" "c = CHR '' ''"
    | "\<not> IsURIComponentSpecialCharacter c" "c \<noteq> CHR '' ''" "?n < 128"
    | "\<not> IsURIComponentSpecialCharacter c" "c \<noteq> CHR '' ''" "128 \<le> ?n" by linarith
  then show ?thesis
  proof cases
    case 1
    then show ?thesis
      using uri_special_plain [OF 1] plain by (simp add: encode_char_def decode_plain decoded_char_def)
  next
    case 2
    have "isxdigit (CHR ''2'')" "isxdigit (CHR ''0'')" by (simp_all add: isxdigit_def isdigit_def)
    from decode_percent [OF this] 2 show ?thesis
      by (simp add: encode_char_def decoded_char_def xdigit_value_def Let_def char_of_def bit_0)
  next
    case 3
    have "char_of (16 * (?n div 16) + ?n mod 16) = c" by simp
    then show ?thesis
      using 3 decode_percent [OF x(1,2)] by (simp add: encode_char_def percent_ascii x(3,4) decoded_char_def)
  next
    case 4
    have f: "isxdigit (CHR ''F'')" "xdigit_value (CHR ''F'') = 15"
      by (simp_all add: isxdigit_def isdigit_def xdigit_value_def)
    have enc: "encode_char c @ s =
        CHR ''%'' # CHR ''F'' # CHR ''F'' # (''FFFF'' @ [hex_char (?n div 16), hex_char (?n mod 16)]) @ s"
      using 4 by (simp add: encode_char_def percent_non_ascii)
    have rest: "DecodeURIComponent ((''FFFF'' @ [hex_char (?n div 16), hex_char (?n mod 16)]) @ s) =
        (''FFFF'' @ [hex_char (?n div 16), hex_char (?n mod 16)]) @ DecodeURIComponent s"
      by (rule decode_plains) (use isxdigit_no_delimiter [OF x(1)] isxdigit_no_delimiter [OF x(2)] in auto)
    show ?thesis unfolding enc decode_percent [OF f(1,1)] rest f(2) using 4(3) by (simp add: decoded_char_def Let_def)
  qed
qed

lemma decode_encode: "DecodeURIComponent (EncodeURIComponent s) = concat (map decoded_char s)"
proof -
  have "DecodeURIComponent (concat (map encode_char s) @ []) = concat (map decoded_char s) @ DecodeURIComponent []"
    by (induction s) (simp_all add: decode_encode_char del: append_Nil2)
  then show ?thesis by (simp add: EncodeURIComponent_def)
qed

definition ascii :: "string \<Rightarrow> bool" where
  "ascii s \<longleftrightarrow> list_all (\<lambda>c. of_char c < (128 :: nat)) s"

lemma decode_encode_ascii: "ascii s \<Longrightarrow> DecodeURIComponent (EncodeURIComponent s) = s"
  unfolding decode_encode ascii_def by (induction s) (auto simp: decoded_char_def)

lemma decode_encode_length: "\<not> ascii s \<Longrightarrow> length s < length (DecodeURIComponent (EncodeURIComponent s))"
proof -
  have "length s \<le> length (concat (map decoded_char s)) \<and>
      (\<not> ascii s \<longrightarrow> length s < length (concat (map decoded_char s)))"
    by (induction s) (auto simp: ascii_def decoded_char_def Let_def)
  then show "\<not> ascii s \<Longrightarrow> ?thesis" by (simp add: decode_encode)
qed

subsection \<open>Composing and parsing\<close>

lemma find_char_at: "c \<notin> set a \<Longrightarrow> n = length p \<Longrightarrow> find_char (p @ a @ c # b) c n = Some (n + length a)"
proof -
  assume c: "c \<notin> set a" and n: "n = length p"
  have "takeWhile (\<lambda>x. x \<noteq> c) (a @ c # b) = a" using c by (induction a) auto
  then show ?thesis by (simp add: find_char_def n Let_def)
qed

lemma find_char_None: "c \<notin> set s \<Longrightarrow> find_char s c 0 = None"
proof -
  assume "c \<notin> set s"
  then have "takeWhile (\<lambda>x. x \<noteq> c) s = s" by (induction s) auto
  then show ?thesis by (simp only: find_char_def Let_def drop_0) simp
qed

lemma find_char_later:
  "c \<notin> set a \<Longrightarrow> n = length p \<Longrightarrow> \<not> pos_before (find_char (p @ a @ b) c n) (Some (n + length a))"
proof -
  assume c: "c \<notin> set a" and n: "n = length p"
  have "takeWhile (\<lambda>x. x \<noteq> c) (a @ b) = a @ takeWhile (\<lambda>x. x \<noteq> c) b" using c by (induction a) auto
  then show ?thesis by (auto simp: find_char_def n Let_def)
qed

lemma find_double_slash_scheme:
  "CHR ''/'' \<notin> set a \<Longrightarrow> find_double_slash (a @ CHR '':'' # CHR ''/'' # CHR ''/'' # s) = Some (length a + 1)"
proof (induction a)
  case (Cons c a)
  then show ?case by (cases "a @ CHR '':'' # CHR ''/'' # CHR ''/'' # s") auto
qed simp

lemma parse_scheme_compose:
  "CHR ''/'' \<notin> set a \<Longrightarrow> parse_scheme (a @ ''://'' @ s) = (a, length (a @ ''://''))"
  by (simp add: parse_scheme_def find_double_slash_scheme nth_append)

definition no_chars :: "string \<Rightarrow> string \<Rightarrow> bool" where
  "no_chars cs s \<longleftrightarrow> set cs \<inter> set s = {}"

lemma no_charsD: "no_chars cs s \<Longrightarrow> c \<in> set cs \<Longrightarrow> c \<notin> set s"
  by (auto simp: no_chars_def)

definition credentials_text :: "string \<Rightarrow> string \<Rightarrow> string" where
  "credentials_text user pass = (if user \<noteq> [] then user @ (if pass \<noteq> [] then CHR '':'' # pass else []) @ ''@'' else [])"

lemma parse_credentials_compose:
  assumes "no_chars ''/:@'' user" "no_chars ''/@'' pass" "user = [] \<longrightarrow> pass = []" "no_chars ''/@'' rest"
    "url_username u = []" "url_password u = []"
  shows "parse_credentials (p @ credentials_text user pass @ rest @ CHR ''/'' # t)
      (Some (length p + length (credentials_text user pass @ rest))) (length p) u =
    (u\<lparr>url_username := user, url_password := pass\<rparr>, length (p @ credentials_text user pass))"
proof (cases "user = []")
  case True
  have "\<not> pos_before (find_char (p @ rest @ CHR ''/'' # t) (CHR ''@'') (length p)) (Some (length p + length rest))"
    by (rule find_char_later) (use assms(4) in \<open>simp_all add: no_chars_def\<close>)
  then show ?thesis using True assms(3,5,6) by (simp add: credentials_text_def parse_credentials_def)
next
  case False
  note user = no_charsD [OF assms(1)] and pass = no_charsD [OF assms(2)]
  show ?thesis
  proof (cases "pass = []")
    case True
    have at: "find_char (p @ user @ CHR ''@'' # rest @ CHR ''/'' # t) (CHR ''@'') (length p) = Some (length p + length user)"
      by (rule find_char_at) (use user in simp_all)
    have colon: "\<not> pos_before (find_char (p @ user @ CHR ''@'' # rest @ CHR ''/'' # t) (CHR '':'') (length p))
        (Some (length p + length user))"
      by (rule find_char_later) (use user in simp_all)
    show ?thesis
      using True False at colon assms(6) by (simp add: credentials_text_def parse_credentials_def substr_def)
  next
    case pw: False
    have at: "find_char (p @ (user @ CHR '':'' # pass) @ CHR ''@'' # rest @ CHR ''/'' # t) (CHR ''@'') (length p) =
        Some (length p + length (user @ CHR '':'' # pass))"
      by (rule find_char_at) (use user pass in simp_all)
    have colon: "find_char (p @ user @ CHR '':'' # pass @ CHR ''@'' # rest @ CHR ''/'' # t) (CHR '':'') (length p) =
        Some (length p + length user)"
      by (rule find_char_at) (use user in simp_all)
    show ?thesis
      using pw False at colon by (simp add: credentials_text_def parse_credentials_def substr_def)
  qed
qed

definition port_text :: "nat \<Rightarrow> string" where
  "port_text port = (if port > 0 then CHR '':'' # to_string_nat port else [])"

lemma atoi_port: "port < 2 ^ 16 \<Longrightarrow> nat (atoi (to_string_nat port @ CHR ''/'' # t) mod 2 ^ 16) = port"
proof -
  assume port: "port < 2 ^ 16"
  obtain c ds where ds: "to_string_nat port = c # ds" by (cases "to_string_nat port") auto
  have c: "isxdigit c" using to_string_nat_digits [of port] ds by (simp add: isdigit_isxdigit)
  have drop: "dropWhile isspace (to_string_nat port @ CHR ''/'' # t) = to_string_nat port @ CHR ''/'' # t"
    using isxdigit_plain(1) [OF c] by (simp add: ds)
  have hd: "hd (to_string_nat port) \<noteq> CHR ''-''" "hd (to_string_nat port) \<noteq> CHR ''+''"
    using isxdigit_plain(2,3) [OF c] by (simp_all add: ds)
  have tw: "takeWhile isdigit (to_string_nat port @ CHR ''/'' # t) = to_string_nat port"
    using to_string_nat_digits by (subst takeWhile_append2) (auto simp: isdigit_def)
  have "min int64_max (int port) = int port" "(int port + 2 ^ 31) mod 2 ^ 32 - 2 ^ 31 = int port"
    using port by (simp_all add: int64_max_def)
  then have "atoi (to_string_nat port @ CHR ''/'' # t) = int port"
    unfolding atoi_def Let_def drop by (simp add: hd tw)
  then show ?thesis using port by simp
qed

lemma parse_host_port_compose:
  assumes "no_chars '':'' host" "port < 2 ^ 16" "url_port u = 0"
  shows "parse_host_port (p @ host @ port_text port @ CHR ''/'' # t) (Some (length p + length (host @ port_text port)))
      (length p) u = u\<lparr>url_host := host, url_port := port\<rparr>"
proof (cases "port = 0")
  case True
  have "\<not> pos_before (find_char (p @ host @ CHR ''/'' # t) (CHR '':'') (length p)) (Some (length p + length host))"
    by (rule find_char_later) (use assms(1) in \<open>simp_all add: no_chars_def\<close>)
  then show ?thesis using True assms(3) by (simp add: parse_host_port_def port_text_def substr_def)
next
  case False
  have "find_char (p @ host @ CHR '':'' # to_string_nat port @ CHR ''/'' # t) (CHR '':'') (length p) =
      Some (length p + length host)"
    by (rule find_char_at) (use assms(1) in \<open>simp_all add: no_chars_def\<close>)
  then show ?thesis
    using False atoi_port [OF assms(2)] by (simp add: parse_host_port_def port_text_def substr_def)
qed

text \<open>
  URLs that have one text: a scheme and a host are given, the default port of the scheme is left out, no part has a
  delimiter of the parts after it, and the parameters are ASCII.
\<close>

definition url_wf :: "url \<Rightarrow> bool" where
  "url_wf u \<longleftrightarrow>
     url_scheme u \<noteq> [] \<and> no_chars ''/?#'' (url_scheme u) \<and> url_host u \<noteq> [] \<and> no_chars ''/:@?#'' (url_host u) \<and>
     url_port u < 2 ^ 16 \<and> (url_port u = 0 \<or> url_port u \<noteq> DefaultPortForScheme (url_scheme u)) \<and>
     no_chars ''/:@?#'' (url_username u) \<and> no_chars ''/@?#'' (url_password u) \<and>
     (url_username u = [] \<longrightarrow> url_password u = []) \<and>
     url_path u \<noteq> [] \<and> hd (url_path u) = CHR ''/'' \<and> no_chars ''?#'' (url_path u) \<and>
     list_all (\<lambda>kv. ascii (fst kv) \<and> ascii (snd kv)) (url_parameters u)"

lemma no_chars_subset: "no_chars cs s \<Longrightarrow> set ds \<subseteq> set cs \<Longrightarrow> no_chars ds s"
  by (auto simp: no_chars_def)

lemma no_chars_append [simp]: "no_chars cs (s @ t) \<longleftrightarrow> no_chars cs s \<and> no_chars cs t"
  by (auto simp: no_chars_def)

lemma no_chars_port: "no_chars ''/@?#'' (port_text port)"
  using to_string_nat_digits [of port] by (auto simp: no_chars_def port_text_def isdigit_def)

lemma compose_wf:
  assumes "url_wf u"
  shows "ComposeURLWithoutParameters u =
    url_scheme u @ ''://'' @ credentials_text (url_username u) (url_password u) @ url_host u @ port_text (url_port u) @ url_path u"
  using assms by (auto simp: ComposeURLWithoutParameters_def url_wf_def credentials_text_def port_text_def Let_def)

lemma compose_wf_plain: "url_wf u \<Longrightarrow> no_chars ''?#'' (ComposeURLWithoutParameters u)"
  using no_chars_port [of "url_port u"]
  by (simp only: compose_wf no_chars_append) (auto simp: credentials_text_def no_chars_def url_wf_def)

lemma parse_compose:
  assumes wf: "url_wf u"
  shows "ParseURLWithoutParameters (ComposeURLWithoutParameters u) (url_default\<lparr>url_parameters := ps, url_fragment := f\<rparr>) =
    Some (u\<lparr>url_parameters := ps, url_fragment := f\<rparr>)"
proof -
  let ?p = "url_scheme u @ ''://''" and ?cred = "credentials_text (url_username u) (url_password u)"
    and ?port = "port_text (url_port u)"
  obtain t where t: "url_path u = CHR ''/'' # t" using wf by (cases "url_path u") (auto simp: url_wf_def)
  let ?s = "?p @ ?cred @ (url_host u @ ?port) @ CHR ''/'' # t"
  have s: "ComposeURLWithoutParameters u = ?s" using compose_wf [OF wf] by (simp add: t)
  have scheme: "parse_scheme ?s = (url_scheme u, length ?p)"
    using parse_scheme_compose [of "url_scheme u" "?cred @ (url_host u @ ?port) @ CHR ''/'' # t"] wf
    by (simp add: url_wf_def no_chars_def)
  have chars: "no_chars ''/:@'' (url_username u)" "no_chars ''/@'' (url_password u)" "no_chars ''/@'' (url_host u @ ?port)"
    "no_chars '':'' (url_host u)" "CHR ''/'' \<notin> set (?cred @ url_host u @ ?port)"
    using wf no_chars_port [of "url_port u"] by (auto simp: url_wf_def no_chars_def credentials_text_def)
  have host_end: "find_char ?s (CHR ''/'') (length ?p) = Some (length ?p + length (?cred @ url_host u @ ?port))"
    using find_char_at [OF chars(5) refl, of ?p t] by simp
  let ?u = "url_default\<lparr>url_parameters := ps, url_fragment := f, url_scheme := url_scheme u\<rparr>"
  have cred: "parse_credentials ?s (Some (length ?p + length (?cred @ url_host u @ ?port))) (length ?p) ?u =
      (?u\<lparr>url_username := url_username u, url_password := url_password u\<rparr>, length (?p @ ?cred))"
    by (rule parse_credentials_compose) (use chars wf in \<open>simp_all add: url_wf_def url_default_def\<close>)
  let ?v = "?u\<lparr>url_username := url_username u, url_password := url_password u\<rparr>"
  have host: "parse_host_port ?s (Some (length ?p + length (?cred @ url_host u @ ?port))) (length (?p @ ?cred)) ?v =
      ?v\<lparr>url_host := url_host u, url_port := url_port u\<rparr>"
    using parse_host_port_compose [OF chars(4), of "url_port u" ?v "?p @ ?cred" t] wf
    by (simp add: url_wf_def url_default_def add.assoc)
  have path: "drop (length ?p + length (?cred @ url_host u @ ?port)) ?s = url_path u"
    using drop_append [of "length ?p + length (?cred @ url_host u @ ?port)" "?p @ ?cred @ url_host u @ ?port" "CHR ''/'' # t"]
    by (simp add: t del: drop_append)
  show ?thesis
    unfolding s ParseURLWithoutParameters_def scheme Let_def prod.case host_end cred host option.case path
    by (simp add: t url_default_def)
qed

lemma encode_plain: "no_chars ''&=?#'' (EncodeURIComponent s)"
proof -
  have "no_chars ''&=?#'' (encode_char c)" for c
  proof -
    have "\<forall>x \<in> set (to_hex n). x \<notin> set ''&=?#''" for n
      using to_hex_facts [of n] isxdigit_no_delimiter by fastforce
    then show ?thesis
      using uri_special_plain [of c]
      by (auto simp: encode_char_def percent_02X_def Let_def no_chars_def)
  qed
  then show ?thesis by (induction s) (auto simp: EncodeURIComponent_def no_chars_def)
qed

lemma split_parameter_text:
  "ascii k \<Longrightarrow> ascii v \<Longrightarrow> map_prod DecodeURIComponent DecodeURIComponent (split_parameter (parameter_text (k, v))) = (k, v)"
proof -
  assume kv: "ascii k" "ascii v"
  have "find_char ([] @ EncodeURIComponent k @ CHR ''='' # EncodeURIComponent v) (CHR ''='') 0 =
      Some (0 + length (EncodeURIComponent k))"
    by (rule find_char_at) (use encode_plain [of k] in \<open>auto simp: no_chars_def\<close>)
  then show ?thesis using kv by (simp add: parameter_text_def split_parameter_def decode_encode_ascii)
qed

lemma parameter_text_plain: "no_chars ''&?#'' (parameter_text kv)" "parameter_text kv \<noteq> []"
  using encode_plain [of "fst kv"] encode_plain [of "snd kv"] by (auto simp: parameter_text_def no_chars_def)

lemma split_parameters:
  "Split (parameter_text kv @ compose_parameters False kvs) (match_char (CHR ''&'')) EmptyFields_Skip =
   map parameter_text (kv # kvs)"
proof -
  have "split_loop EmptyFields_Skip (match_char (CHR ''&'')) [] (parameter_text kv @ compose_parameters False kvs) =
      map parameter_text (kv # kvs)"
  proof (induction kvs arbitrary: kv)
    case Nil
    show ?case
      using parameter_text_plain [of kv] by (subst split_loop_plain) (auto simp: match_char_def no_chars_def)
  next
    case (Cons kv' kvs)
    have "\<forall>c \<in> set (parameter_text kv). \<not> match_char (CHR ''&'') c"
      using parameter_text_plain(1) [of kv] by (auto simp: match_char_def no_chars_def)
    then show ?case
      using Cons [of kv'] parameter_text_plain(2) [of kv] by (simp add: split_loop_field match_char_def)
  qed
  then show ?thesis by (simp add: Split_def)
qed

lemma compose_parameters_plain: "no_chars ''#'' (compose_parameters first kvs)"
  by (induction kvs arbitrary: first) (use parameter_text_plain(1) in \<open>auto simp: no_chars_def\<close>)

lemma extract_compose:
  assumes s: "no_chars ''?#'' s" and ps: "list_all (\<lambda>kv. ascii (fst kv) \<and> ascii (snd kv)) (url_parameters u)"
  shows "ExtractURLParametersFromURL (s @ ComposeParameters u) url_default =
    (url_default\<lparr>url_parameters := url_parameters u, url_fragment := url_fragment u\<rparr>, length s)"
proof -
  let ?ps = "compose_parameters True (url_parameters u)" and ?f = "url_fragment u"
  let ?frag = "if ?f \<noteq> [] then CHR ''#'' # ?f else []"
  let ?t = "s @ ?ps @ ?frag"
  have t: "s @ ComposeParameters u = ?t" by (simp add: ComposeParameters_def)
  have plain: "CHR ''#'' \<notin> set (s @ ?ps)" "CHR ''?'' \<notin> set s"
    using s compose_parameters_plain [of True "url_parameters u"] by (auto simp: no_chars_def)
  have pound: "find_char ?t (CHR ''#'') 0 = (if ?f = [] then None else Some (length (s @ ?ps)))"
    using find_char_at [OF plain(1) refl, of "[]" ?f] find_char_None [OF plain(1)] by auto
  let ?u = "url_default\<lparr>url_fragment := ?f\<rparr>"
  have first: "(case find_char ?t (CHR ''#'') 0 of
        Some i \<Rightarrow> (url_default\<lparr>url_fragment := drop (i + 1) ?t\<rparr>, i) | None \<Rightarrow> (url_default, length ?t)) =
      (?u, length (s @ ?ps))"
    unfolding pound by (auto simp: url_default_def)
  show ?thesis
  proof (cases "url_parameters u")
    case Nil
    have "\<not> pos_before (find_char ?t (CHR ''?'') 0) (find_char ?t (CHR ''#'') 0)"
    proof (cases "?f = []")
      case True
      then show ?thesis using find_char_None [OF plain(2)] Nil by simp
    next
      case False
      then show ?thesis
        using find_char_later [OF plain(2) refl, of "[]" "CHR ''#'' # ?f"] pound Nil by simp
    qed
    then show ?thesis
      unfolding t ExtractURLParametersFromURL_def Let_def first prod.case using Nil by (simp add: url_default_def)
  next
    case (Cons kv kvs)
    let ?q = "parameter_text kv @ compose_parameters False kvs"
    have q: "find_char ?t (CHR ''?'') 0 = Some (length s)"
      using find_char_at [OF plain(2) refl, of "[]" "?q @ ?frag"] Cons by simp
    have before: "pos_before (find_char ?t (CHR ''?'') 0) (find_char ?t (CHR ''#'') 0)"
      unfolding q pound using Cons by simp
    have cut: "take (length (s @ ?ps) - (length s + 1)) (drop (length s + 1) ?t) = ?q"
      using Cons by simp
    have dec: "map (map_prod DecodeURIComponent DecodeURIComponent \<circ> split_parameter) (map parameter_text (kv # kvs)) = kv # kvs"
      unfolding map_map by (rule map_idI) (use ps split_parameter_text Cons in \<open>fastforce simp: list_all_iff\<close>)
    show ?thesis
      unfolding t ExtractURLParametersFromURL_def Let_def first prod.case
      unfolding if_P [OF before] unfolding q option.sel cut split_parameters dec
      using Cons by (simp add: url_default_def)
  qed
qed

text \<open>
  C37: URL components.  Encoding a name or a value for a URL and decoding it gives it back exactly when all its
  characters are ASCII: a byte above 127, such as any of UTF-8 text outside ASCII, is sign-extended when it is printed
  and comes back as seven characters.
\<close>

theorem uri_component_roundtrip:
  "DecodeURIComponent (EncodeURIComponent s) = s \<longleftrightarrow> ascii s"
  using decode_encode_ascii decode_encode_length by (metis less_irrefl)


text \<open>
  C36: URLs.  Parsing the text of a well-formed URL gives the URL back: its scheme, credentials, host, port, path,
  parameters in their order, and fragment.
\<close>

theorem url_roundtrip:
  assumes "url_wf u"
  shows "URL (ComposeURL u) = Some u"
proof -
  have ex: "ExtractURLParametersFromURL (ComposeURL u) url_default =
      (url_default\<lparr>url_parameters := url_parameters u, url_fragment := url_fragment u\<rparr>, length (ComposeURLWithoutParameters u))"
    unfolding ComposeURL_def
    by (rule extract_compose [OF compose_wf_plain [OF assms]]) (use assms in \<open>simp add: url_wf_def\<close>)
  show ?thesis
    unfolding URL_def ex prod.case using parse_compose [OF assms] by (simp add: ComposeURL_def)
qed

definition example_url :: url where
  "example_url = \<lparr>url_host = ''example.com'', url_path = ''/a/b'', url_scheme = ''https'', url_port = 8080,
     url_username = ''me'', url_password = ''pw'', url_parameters = [(''q'', ''a b&c''), (''n'', ''1'')], url_fragment = ''top''\<rparr>"

theorem url_roundtrip_witness:
  "URL ''https://me:pw@example.com:8080/a/b?q=a%20b%26c&n=1#top'' = Some example_url"
proof -
  have "url_wf example_url"
    by (simp add: url_wf_def example_url_def no_chars_def DefaultPortForScheme_def ascii_def)
  moreover have "ComposeURL example_url = ''https://me:pw@example.com:8080/a/b?q=a%20b%26c&n=1#top''"
    by (simp add: ComposeURL_def ComposeURLWithoutParameters_def ComposeParameters_def example_url_def
        DefaultPortForScheme_def Let_def to_string_nat.simps digit_char_def char_of_def bit_0 parameter_text_def
        EncodeURIComponent_def encode_char_def IsURIComponentSpecialCharacter_def percent_02X_def to_hex.simps hex_char_def)
  ultimately show ?thesis using url_roundtrip [of example_url] by simp
qed

end
