(* ===== verification/Dictionary.thy ===== *)
theory Dictionary
  imports Journal
begin

text \<open>
  \<^verbatim>\<open>GenericDictionary\<close> of \<^verbatim>\<open>src/storage/container/dictionary.h\<close>: a map of entries by key, the time of
  the last modification of every key ever touched, and the three mutating operations with the
  events and the rollback closures they log.  \<open>GetKey\<close> and \<open>PatchWith\<close> are the accessors of the
  user's entry type.
\<close>

record ('k, 't) dictionary =
  dict_map :: "'k \<rightharpoonup> 't"
  dict_last_modified :: "'k \<rightharpoonup> microseconds"

text \<open>The persisted events, with the key of a deletion read off the deleted entry.\<close>

datatype ('k, 't, 'p) dict_event =
    DictUpdated microseconds 't
  | DictDeleted microseconds 'k
  | DictPatched microseconds 'k 'p

type_synonym ('k, 't, 'p) dict_ctx = "(('k, 't, 'p) dict_event, ('k, 't) dictionary) ctx"

fun dict_event_us :: "('k, 't, 'p) dict_event \<Rightarrow> microseconds" where
  "dict_event_us (DictUpdated us data) = us"
| "dict_event_us (DictDeleted us key) = us"
| "dict_event_us (DictPatched us key patch) = us"

definition dict_deleted_event :: "('t \<Rightarrow> 'k) \<Rightarrow> microseconds \<Rightarrow> 't \<Rightarrow> ('k, 't, 'p) dict_event" where
  "dict_deleted_event GetKey us value = DictDeleted us (GetKey value)"

definition dict_empty :: "('k, 't) dictionary" where
  "dict_empty = \<lparr>dict_map = Map.empty, dict_last_modified = Map.empty\<rparr>"

definition dict_Empty :: "('k, 't) dictionary \<Rightarrow> bool" where
  "dict_Empty s \<longleftrightarrow> dict_map s = Map.empty"

definition dict_Size :: "('k, 't) dictionary \<Rightarrow> nat" where
  "dict_Size s = card (dom (dict_map s))"

definition dict_Has :: "'k \<Rightarrow> ('k, 't) dictionary \<Rightarrow> bool" where
  "dict_Has x s \<longleftrightarrow> dict_map s x \<noteq> None"

definition dict_get :: "'k \<Rightarrow> ('k, 't) dictionary \<Rightarrow> 't option" where
  "dict_get key s = dict_map s key"

definition dict_LastModified :: "'k \<Rightarrow> ('k, 't) dictionary \<Rightarrow> microseconds option" where
  "dict_LastModified key s = dict_last_modified s key"

text \<open>\<^verbatim>\<open>last_modified_[key] = us; map_[key] = object;\<close>\<close>

definition dict_put :: "microseconds \<Rightarrow> 'k \<Rightarrow> 't \<Rightarrow> ('k, 't) dictionary \<Rightarrow> ('k, 't) dictionary" where
  "dict_put us key object s =
     s\<lparr>dict_last_modified := (dict_last_modified s)(key \<mapsto> us), dict_map := (dict_map s)(key \<mapsto> object)\<rparr>"

text \<open>\<^verbatim>\<open>last_modified_[key] = us; map_.erase(key);\<close>\<close>

definition dict_erase_at :: "microseconds \<Rightarrow> 'k \<Rightarrow> ('k, 't) dictionary \<Rightarrow> ('k, 't) dictionary" where
  "dict_erase_at us key s =
     s\<lparr>dict_last_modified := (dict_last_modified s)(key \<mapsto> us), dict_map := (dict_map s)(key := None)\<rparr>"

text \<open>\<^verbatim>\<open>last_modified_.erase(key); map_.erase(key);\<close>\<close>

definition dict_forget :: "'k \<Rightarrow> ('k, 't) dictionary \<Rightarrow> ('k, 't) dictionary" where
  "dict_forget key s =
     s\<lparr>dict_last_modified := (dict_last_modified s)(key := None), dict_map := (dict_map s)(key := None)\<rparr>"

definition dict_Add :: "('t \<Rightarrow> 'k) \<Rightarrow> 't \<Rightarrow> ('k, 't, 'p) dict_ctx \<Rightarrow> ('k, 't, 'p) dict_ctx option" where
  "dict_Add GetKey object c =
     (let (now, c) = CtxNow c; key = GetKey object; s = this c in
      do {
        c \<leftarrow> (case dict_map s key of
               Some previous_object \<Rightarrow> do {
                 previous_timestamp \<leftarrow> dict_last_modified s key;
                 Some (LogMutation (DictUpdated now object)
                         (dict_put previous_timestamp key previous_object) c) }
             | None \<Rightarrow>
                 (case dict_last_modified s key of
                    Some previous_timestamp \<Rightarrow>
                      Some (LogMutation (DictUpdated now object) (dict_erase_at previous_timestamp key) c)
                  | None \<Rightarrow> Some (LogMutation (DictUpdated now object) (dict_forget key) c)));
        Some (c\<lparr>this := dict_put now key object (this c)\<rparr>)
      })"

definition dict_Erase :: "('t \<Rightarrow> 'k) \<Rightarrow> 'k \<Rightarrow> ('k, 't, 'p) dict_ctx \<Rightarrow> ('k, 't, 'p) dict_ctx option" where
  "dict_Erase GetKey key c =
     (let (now, c) = CtxNow c; s = this c in
      case dict_map s key of
        Some previous_object \<Rightarrow> do {
          previous_timestamp \<leftarrow> dict_last_modified s key;
          let c = LogMutation (dict_deleted_event GetKey now previous_object)
                    (dict_put previous_timestamp key previous_object) c;
          Some (c\<lparr>this := dict_erase_at now key (this c)\<rparr>) }
      | None \<Rightarrow> Some c)"

definition dict_Patch ::
  "('p \<Rightarrow> 't \<Rightarrow> 't) \<Rightarrow> 'k \<Rightarrow> 'p \<Rightarrow> ('k, 't, 'p) dict_ctx \<Rightarrow> (bool \<times> ('k, 't, 'p) dict_ctx) option" where
  "dict_Patch PatchWith key patch_object c =
     (let (now, c) = CtxNow c; s = this c in
      case dict_map s key of
        Some previous_object \<Rightarrow> do {
          previous_timestamp \<leftarrow> dict_last_modified s key;
          let c = LogMutation (DictPatched now key patch_object)
                    (dict_put previous_timestamp key previous_object) c;
          Some (True, c\<lparr>this := dict_put now key (PatchWith patch_object previous_object) (this c)\<rparr>) }
      | None \<Rightarrow> Some (False, c))"

text \<open>The three \<^verbatim>\<open>operator()\<close> that replay a persisted event.\<close>

fun dict_apply ::
  "('t \<Rightarrow> 'k) \<Rightarrow> ('p \<Rightarrow> 't \<Rightarrow> 't) \<Rightarrow> ('k, 't, 'p) dict_event \<Rightarrow> ('k, 't) dictionary \<Rightarrow> ('k, 't) dictionary" where
  "dict_apply GetKey PatchWith (DictUpdated us data) s = dict_put us (GetKey data) data s"
| "dict_apply GetKey PatchWith (DictDeleted us key) s = dict_erase_at us key s"
| "dict_apply GetKey PatchWith (DictPatched us key patch) s =
     (case dict_map s key of
        Some object \<Rightarrow> dict_put us key (PatchWith patch object) s
      | None \<Rightarrow> s)"

text \<open>The operations as one datatype, and their dispatch.\<close>

datatype ('k, 't, 'p) dict_op = DictAdd 't | DictErase 'k | DictPatch 'k 'p

fun dict_run ::
  "('t \<Rightarrow> 'k) \<Rightarrow> ('p \<Rightarrow> 't \<Rightarrow> 't) \<Rightarrow> ('k, 't, 'p) dict_op \<Rightarrow> ('k, 't, 'p) dict_ctx \<Rightarrow>
   ('k, 't, 'p) dict_ctx option" where
  "dict_run GetKey PatchWith (DictAdd object) c = dict_Add GetKey object c"
| "dict_run GetKey PatchWith (DictErase key) c = dict_Erase GetKey key c"
| "dict_run GetKey PatchWith (DictPatch key patch) c =
     map_option snd (dict_Patch PatchWith key patch c)"

subsection \<open>Well-formedness\<close>

text \<open>
  Every entry sits under its own key, and every key that holds an entry has a last-modified time.
  The user's patch must not change the key of the entry it patches.
\<close>

definition dict_inv :: "('t \<Rightarrow> 'k) \<Rightarrow> ('k, 't) dictionary \<Rightarrow> bool" where
  "dict_inv GetKey s \<longleftrightarrow>
     (\<forall>k v. dict_map s k = Some v \<longrightarrow> GetKey v = k \<and> dict_last_modified s k \<noteq> None)"

fun dict_valid :: "('t \<Rightarrow> 'k) \<Rightarrow> ('p \<Rightarrow> 't \<Rightarrow> 't) \<Rightarrow> ('k, 't, 'p) dict_op \<Rightarrow> bool" where
  "dict_valid GetKey PatchWith (DictPatch key patch) \<longleftrightarrow> (\<forall>t. GetKey (PatchWith patch t) = GetKey t)"
| "dict_valid GetKey PatchWith op \<longleftrightarrow> True"

lemmas dict_prims [container_simps] = dict_put_def dict_erase_at_def dict_forget_def

lemma dict_inv_prims:
  assumes "dict_inv GetKey s"
  shows "GetKey object = key \<Longrightarrow> dict_inv GetKey (dict_put us key object s)"
    "dict_inv GetKey (dict_erase_at us key s)" "dict_inv GetKey (dict_forget key s)"
  using assms by (auto simp: dict_inv_def container_simps)

lemma dict_inv_empty: "dict_inv GetKey dict_empty"
  by (simp add: dict_inv_def dict_empty_def)

lemma dict_invD:
  "dict_inv GetKey s \<Longrightarrow> dict_map s k = Some v \<Longrightarrow> GetKey v = k \<and> (\<exists>us. dict_last_modified s k = Some us)"
  by (auto simp: dict_inv_def)

lemma dict_undo:
  "dict_map s k = Some v \<Longrightarrow> dict_last_modified s k = Some us \<Longrightarrow> dict_put us k v (dict_put us' k v' s) = s"
  "dict_map s k = Some v \<Longrightarrow> dict_last_modified s k = Some us \<Longrightarrow> dict_put us k v (dict_erase_at us' k s) = s"
  "dict_map s k = None \<Longrightarrow> dict_last_modified s k = Some us \<Longrightarrow> dict_erase_at us k (dict_put us' k v' s) = s"
  "dict_map s k = None \<Longrightarrow> dict_last_modified s k = None \<Longrightarrow> dict_forget k (dict_put us' k v' s) = s"
  by (simp_all add: container_simps fun_upd_idem)

lemmas dict_logged_mutation =
  logged_mutation [where view = "\<lambda>s. s" and us = dict_event_us and invar = "dict_inv GetKey" for GetKey]

lemma dict_Add_logged:
  assumes "dict_inv GetKey (this c)"
  shows "\<exists>c'. dict_Add GetKey object c = Some c' \<and>
    logged (dict_inv GetKey) (\<lambda>s. s) (dict_apply GetKey PatchWith) dict_event_us c c'"
proof -
  obtain now c1 where now: "CtxNow c = (now, c1)" by (cases "CtxNow c")
  note s = CtxNow_simps [OF now]
  show ?thesis
    using assms
    by (cases "dict_map (this c) (GetKey object)"; cases "dict_last_modified (this c) (GetKey object)")
      (auto simp: dict_Add_def Let_def now s dict_undo dict_inv_prims dest: dict_invD
        intro!: dict_logged_mutation [OF now])
qed

lemma dict_Erase_logged:
  assumes "dict_inv GetKey (this c)"
  shows "\<exists>c'. dict_Erase GetKey key c = Some c' \<and>
    logged (dict_inv GetKey) (\<lambda>s. s) (dict_apply GetKey PatchWith) dict_event_us c c'"
proof -
  obtain now c1 where now: "CtxNow c = (now, c1)" by (cases "CtxNow c")
  note s = CtxNow_simps [OF now]
  show ?thesis
    using assms dict_invD [OF assms, of key]
    by (auto simp: dict_Erase_def Let_def now s dict_undo dict_inv_prims dict_deleted_event_def
        split: option.splits intro!: dict_logged_mutation [OF now] CtxNow_logged [OF now])
qed

lemma dict_Patch_logged:
  assumes "dict_inv GetKey (this c)" "\<forall>t. GetKey (PatchWith patch t) = GetKey t"
  shows "\<exists>r c'. dict_Patch PatchWith key patch c = Some (r, c') \<and> r = dict_Has key (this c) \<and>
    logged (dict_inv GetKey) (\<lambda>s. s) (dict_apply GetKey PatchWith) dict_event_us c c'"
proof -
  obtain now c1 where now: "CtxNow c = (now, c1)" by (cases "CtxNow c")
  note s = CtxNow_simps [OF now]
  show ?thesis
    using assms dict_invD [OF assms(1), of key]
    by (auto simp: dict_Patch_def dict_Has_def Let_def now s dict_undo dict_inv_prims
        split: option.splits intro!: dict_logged_mutation [OF now] CtxNow_logged [OF now])
qed

interpretation dict: journaled_field "dict_inv GetKey" "\<lambda>s. s" "dict_apply GetKey PatchWith"
  dict_event_us "dict_run GetKey PatchWith" "dict_valid GetKey PatchWith"
  for GetKey :: "'t \<Rightarrow> 'k" and PatchWith :: "'p \<Rightarrow> 't \<Rightarrow> 't"
proof
  fix c :: "('k, 't, 'p) dict_ctx" and op
  assume "dict_inv GetKey (this c)" and "dict_valid GetKey PatchWith op"
  then show "\<exists>c'. dict_run GetKey PatchWith op c = Some c' \<and>
      logged (dict_inv GetKey) (\<lambda>s. s) (dict_apply GetKey PatchWith) dict_event_us c c'"
    using dict_Patch_logged [of GetKey c PatchWith]
    by (cases op) (auto simp: dict_Add_logged dict_Erase_logged, fastforce)
qed

subsection \<open>Properties\<close>

text \<open>
  C16: On a well-formed dictionary no operation runs into undefined behaviour.  \<^verbatim>\<open>Add\<close> makes the entry
  readable under its key with the time of the call as its last-modified time; \<^verbatim>\<open>Erase\<close> removes the key and
  touches the last-modified time only if the key was there; \<^verbatim>\<open>Patch\<close> says whether the key was there,
  and patches the entry if so.  All other keys keep their entries and times.
\<close>

theorem dictionary_operations:
  assumes "dict_inv GetKey (this c)" and "CtxNow c = (now, c1)"
  shows "(\<exists>c'. dict_Add GetKey object c = Some c' \<and>
       dict_get k (this c') = (if k = GetKey object then Some object else dict_get k (this c)) \<and>
       dict_LastModified k (this c') = (if k = GetKey object then Some now else dict_LastModified k (this c))) \<and>
    (\<exists>c'. dict_Erase GetKey key c = Some c' \<and>
       dict_get k (this c') = (if k = key then None else dict_get k (this c)) \<and>
       dict_LastModified k (this c') =
         (if k = key \<and> dict_Has key (this c) then Some now else dict_LastModified k (this c))) \<and>
    (\<exists>c'. dict_Patch PatchWith key patch c = Some (dict_Has key (this c), c') \<and>
       dict_get k (this c') =
         (if k = key then map_option (PatchWith patch) (dict_get k (this c)) else dict_get k (this c)) \<and>
       dict_LastModified k (this c') =
         (if k = key \<and> dict_Has key (this c) then Some now else dict_LastModified k (this c)))"
proof -
  note s = CtxNow_simps [OF assms(2)] and unf = Let_def assms(2) dict_get_def dict_LastModified_def
    dict_Has_def container_simps
  have lm: "dict_map (this c) k = Some v \<Longrightarrow> \<exists>us. dict_last_modified (this c) k = Some us" for k v
    using dict_invD [OF assms(1)] by blast
  have 1: "\<exists>c'. dict_Add GetKey object c = Some c' \<and>
       dict_get k (this c') = (if k = GetKey object then Some object else dict_get k (this c)) \<and>
       dict_LastModified k (this c') = (if k = GetKey object then Some now else dict_LastModified k (this c))"
    using s lm [of "GetKey object"]
    by (cases "dict_map (this c) (GetKey object)"; cases "dict_last_modified (this c) (GetKey object)")
      (simp_all add: dict_Add_def unf)
  have 2: "\<exists>c'. dict_Erase GetKey key c = Some c' \<and>
       dict_get k (this c') = (if k = key then None else dict_get k (this c)) \<and>
       dict_LastModified k (this c') =
         (if k = key \<and> dict_Has key (this c) then Some now else dict_LastModified k (this c))"
    using s lm [of key] by (cases "dict_map (this c) key") (auto simp: dict_Erase_def unf)
  have 3: "\<exists>c'. dict_Patch PatchWith key patch c = Some (dict_Has key (this c), c') \<and>
       dict_get k (this c') =
         (if k = key then map_option (PatchWith patch) (dict_get k (this c)) else dict_get k (this c)) \<and>
       dict_LastModified k (this c') =
         (if k = key \<and> dict_Has key (this c) then Some now else dict_LastModified k (this c))"
    using s lm [of key] by (cases "dict_map (this c) key") (auto simp: dict_Patch_def unf)
  from 1 2 3 show ?thesis by blast
qed

definition dict_example :: "(nat, nat \<times> nat, nat) dict_ctx" where
  "dict_example =
     \<lparr>clock = \<lparr>monotonic_now_us = 10, readings = int, ticks = 0\<rparr>, journal = empty_journal,
      this = \<lparr>dict_map = [1 \<mapsto> (1, 5)], dict_last_modified = [1 \<mapsto> 7]\<rparr>\<rparr>"

theorem dictionary_operations_witness:
  "\<exists>c'. dict_Add fst (2, 6) dict_example = Some c' \<and> dict_get 2 (this c') = Some (2, 6) \<and>
     dict_LastModified 2 (this c') = Some 11"
proof -
  have inv: "dict_inv fst (this dict_example)" by (simp add: dict_example_def dict_inv_def)
  obtain c1 where now: "CtxNow dict_example = (11, c1)" by (simp add: dict_example_def CtxNow_def Now_def Let_def)
  from dictionary_operations [OF inv now, of "(2, 6)" 2, THEN conjunct1] show ?thesis by simp
qed

end
