(* ===== verification/Elements.thy ===== *)
theory Elements
  imports Journal
begin

text \<open>
  What the three matrix containers of \<^verbatim>\<open>src/storage/container\<close> share: the map from (row, column) keys
  to heap-allocated entries (\<^verbatim>\<open>std::unordered_map<key_t, std::unique_ptr<T>>\<close>) with its two
  mutations, the persisted events of a matrix field, and the contract \<open>matrix_container\<close> between
  the private \<^verbatim>\<open>DoUpdate...\<close> and \<^verbatim>\<open>DoErase...\<close> methods and the public operations that log them.

  Pointers are modelled as addresses of an explicit heap, because the containers keep bare pointers
  into the entries that \<^verbatim>\<open>map_\<close> owns: replacing or erasing an entry frees its address.
\<close>

record ('k, 't) elements =
  el_heap :: "nat \<rightharpoonup> 't"
  el_next :: nat
  el_map :: "'k \<rightharpoonup> nat"

definition el_empty :: "('k, 't) elements" where
  "el_empty = \<lparr>el_heap = Map.empty, el_next = 0, el_map = Map.empty\<rparr>"

text \<open>\<^verbatim>\<open>auto& placeholder = map_[key]; placeholder = std::make_unique<T>(object);\<close>\<close>

definition el_emplace :: "'k \<Rightarrow> 't \<Rightarrow> ('k, 't) elements \<Rightarrow> nat \<times> ('k, 't) elements" where
  "el_emplace key object e =
     (let p = el_next e;
          heap = (case el_map e key of
                    None \<Rightarrow> el_heap e
                  | Some q \<Rightarrow> (el_heap e)(q := None))
      in (p, e\<lparr>el_heap := heap(p \<mapsto> object), el_next := Suc p, el_map := (el_map e)(key \<mapsto> p)\<rparr>))"

text \<open>\<^verbatim>\<open>map_.erase(key);\<close>\<close>

definition el_erase :: "'k \<Rightarrow> ('k, 't) elements \<Rightarrow> ('k, 't) elements" where
  "el_erase key e =
     (case el_map e key of
        None \<Rightarrow> e
      | Some p \<Rightarrow> e\<lparr>el_heap := (el_heap e)(p := None), el_map := (el_map e)(key := None)\<rparr>)"

text \<open>The entries by key, as the container's user sees them.\<close>

definition el_view :: "('k, 't) elements \<Rightarrow> 'k \<rightharpoonup> 't" where
  "el_view e k = (case el_map e k of None \<Rightarrow> None | Some p \<Rightarrow> el_heap e p)"

text \<open>
  Every owned pointer is live and leads to an entry with the key it is stored under; every live
  entry is owned by the key it carries (no leak), and addresses are never reused.
\<close>

definition el_inv :: "('t \<Rightarrow> 'k) \<Rightarrow> ('k, 't) elements \<Rightarrow> bool" where
  "el_inv key_of e \<longleftrightarrow>
     (\<forall>k p. el_map e k = Some p \<longrightarrow> (\<exists>t. el_heap e p = Some t \<and> key_of t = k)) \<and>
     (\<forall>p t. el_heap e p = Some t \<longrightarrow> p < el_next e \<and> el_map e (key_of t) = Some p)"

lemma el_inv_empty: "el_inv key_of el_empty"
  by (simp add: el_inv_def el_empty_def)

lemma el_inv_live: "el_inv key_of e \<Longrightarrow> el_map e k = Some p \<Longrightarrow> \<exists>t. el_heap e p = Some t \<and> key_of t = k"
  by (auto simp: el_inv_def)

lemma el_inv_inj: "el_inv key_of e \<Longrightarrow> el_map e k = Some p \<Longrightarrow> el_map e k' = Some p \<Longrightarrow> k = k'"
  using el_inv_live [of key_of e k p] el_inv_live [of key_of e k' p] by auto

lemma el_inv_bound: "el_inv key_of e \<Longrightarrow> el_map e k = Some p \<Longrightarrow> p < el_next e"
  by (fastforce simp: el_inv_def)

lemma el_map_emplace [simp]:
  "fst (el_emplace k t e) = el_next e"
  "el_map (snd (el_emplace k t e)) = (el_map e)(k \<mapsto> el_next e)"
  by (simp_all add: el_emplace_def Let_def)

lemma el_map_erase [simp]: "el_map (el_erase k e) = (el_map e)(k := None)"
  by (simp add: el_erase_def fun_upd_idem split: option.splits)

lemma el_inv_emplace:
  assumes "el_inv key_of e" "key_of t = k"
  shows "el_inv key_of (snd (el_emplace k t e))"
proof -
  have live: "\<exists>t. el_heap e p = Some t \<and> key_of t = k'" if "el_map e k' = Some p" for k' p
    using assms(1) that by (rule el_inv_live)
  have owned: "p < el_next e \<and> el_map e (key_of t) = Some p" if "el_heap e p = Some t" for p t
    using assms(1) that by (simp add: el_inv_def)
  have heap: "el_heap (snd (el_emplace k t e)) p =
      (if p = el_next e then Some t else if el_map e k = Some p then None else el_heap e p)" for p
    by (auto simp: el_emplace_def Let_def split: option.splits)
  have next': "el_next (snd (el_emplace k t e)) = Suc (el_next e)"
    by (simp add: el_emplace_def Let_def)
  show ?thesis
    unfolding el_inv_def heap next' el_map_emplace
    using assms live owned el_inv_inj [OF assms(1)] el_inv_bound [OF assms(1)]
    by (auto simp: less_SucI split: if_splits) (metis less_irrefl)+
qed

lemma el_inv_erase:
  assumes "el_inv key_of e"
  shows "el_inv key_of (el_erase k e)"
proof -
  have heap: "el_heap (el_erase k e) p = (if el_map e k = Some p then None else el_heap e p)" for p
    by (auto simp: el_erase_def split: option.splits)
  have next': "el_next (el_erase k e) = el_next e"
    by (simp add: el_erase_def split: option.splits)
  show ?thesis
    unfolding el_inv_def heap next' el_map_erase
    using assms el_inv_inj [OF assms] by (auto simp: el_inv_def split: if_splits)
qed

lemma el_view_emplace:
  assumes "el_inv key_of e"
  shows "el_view (snd (el_emplace k t e)) = (el_view e)(k \<mapsto> t)"
proof
  fix k'
  show "el_view (snd (el_emplace k t e)) k' = ((el_view e)(k \<mapsto> t)) k'"
    using assms el_inv_inj [OF assms, of k _ k'] el_inv_bound [OF assms, of k']
    by (auto simp: el_view_def el_emplace_def Let_def split: option.splits)
qed

lemma el_view_erase:
  assumes "el_inv key_of e"
  shows "el_view (el_erase k e) = (el_view e)(k := None)"
proof
  fix k'
  show "el_view (el_erase k e) k' = ((el_view e)(k := None)) k'"
    using el_inv_inj [OF assms, of k _ k']
    by (auto simp: el_view_def el_erase_def split: option.splits)
qed

lemma el_view_Some:
  "el_inv key_of e \<Longrightarrow> el_view e k = Some t \<longleftrightarrow> (\<exists>p. el_map e k = Some p \<and> el_heap e p = Some t)"
  by (auto simp: el_view_def split: option.splits)

lemma el_view_None: "el_inv key_of e \<Longrightarrow> el_view e k = None \<longleftrightarrow> el_map e k = None"
  by (fastforce simp: el_view_def el_inv_def split: option.splits)

lemma el_view_key: "el_inv key_of e \<Longrightarrow> el_view e k = Some t \<Longrightarrow> key_of t = k"
  by (fastforce simp: el_view_def el_inv_def split: option.splits)

subsection \<open>Indexes of bare pointers\<close>

text \<open>
  An index \<^verbatim>\<open>forward_\<close> or \<^verbatim>\<open>transposed_\<close> with one pointer per row or column, and the nested tables
  with one inner map per row or column, agree with the owned pointers \<open>m\<close>.
\<close>

definition row_index :: "('r \<rightharpoonup> nat) \<Rightarrow> ('r \<times> 'c \<rightharpoonup> nat) \<Rightarrow> bool" where
  "row_index f m \<longleftrightarrow> (\<forall>r p. f r = Some p \<longleftrightarrow> (\<exists>c. m (r, c) = Some p))"

definition col_index :: "('c \<rightharpoonup> nat) \<Rightarrow> ('r \<times> 'c \<rightharpoonup> nat) \<Rightarrow> bool" where
  "col_index f m \<longleftrightarrow> (\<forall>c p. f c = Some p \<longleftrightarrow> (\<exists>r. m (r, c) = Some p))"

definition table_lookup :: "('a \<rightharpoonup> 'b \<rightharpoonup> nat) \<Rightarrow> 'a \<Rightarrow> 'b \<rightharpoonup> nat" where
  "table_lookup f a = (case f a of None \<Rightarrow> Map.empty | Some inner \<Rightarrow> inner)"

text \<open>\<^verbatim>\<open>table[a][b] = p;\<close>\<close>

definition table_put :: "'a \<Rightarrow> 'b \<Rightarrow> nat \<Rightarrow> ('a \<rightharpoonup> 'b \<rightharpoonup> nat) \<Rightarrow> 'a \<rightharpoonup> 'b \<rightharpoonup> nat" where
  "table_put a b p f = f(a \<mapsto> (table_lookup f a)(b \<mapsto> p))"

text \<open>\<^verbatim>\<open>auto& inner = table[a]; inner.erase(b); if (inner.empty()) { table.erase(a); }\<close>\<close>

definition table_erase :: "'a \<Rightarrow> 'b \<Rightarrow> ('a \<rightharpoonup> 'b \<rightharpoonup> nat) \<Rightarrow> 'a \<rightharpoonup> 'b \<rightharpoonup> nat" where
  "table_erase a b f =
     (let inner = (table_lookup f a)(b := None)
      in if inner = Map.empty then f(a := None) else f(a \<mapsto> inner))"

definition row_table :: "('r \<rightharpoonup> 'c \<rightharpoonup> nat) \<Rightarrow> ('r \<times> 'c \<rightharpoonup> nat) \<Rightarrow> bool" where
  "row_table f m \<longleftrightarrow> (\<forall>r. f r \<noteq> Some Map.empty) \<and> (\<forall>r c. table_lookup f r c = m (r, c))"

definition col_table :: "('c \<rightharpoonup> 'r \<rightharpoonup> nat) \<Rightarrow> ('r \<times> 'c \<rightharpoonup> nat) \<Rightarrow> bool" where
  "col_table f m \<longleftrightarrow> (\<forall>c. f c \<noteq> Some Map.empty) \<and> (\<forall>r c. table_lookup f c r = m (r, c))"

lemma row_index_upd:
  "row_index f m \<Longrightarrow> (\<And>c'. c' \<noteq> c \<Longrightarrow> m (r, c') = None) \<Longrightarrow> row_index (f(r \<mapsto> p)) (m((r, c) \<mapsto> p))"
  by (fastforce simp: row_index_def)

lemma row_index_del:
  "row_index f m \<Longrightarrow> (\<And>c'. c' \<noteq> c \<Longrightarrow> m (r, c') = None) \<Longrightarrow> row_index (f(r := None)) (m((r, c) := None))"
  by (fastforce simp: row_index_def)

lemma col_index_upd:
  "col_index f m \<Longrightarrow> (\<And>r'. r' \<noteq> r \<Longrightarrow> m (r', c) = None) \<Longrightarrow> col_index (f(c \<mapsto> p)) (m((r, c) \<mapsto> p))"
  by (fastforce simp: col_index_def)

lemma col_index_del:
  "col_index f m \<Longrightarrow> (\<And>r'. r' \<noteq> r \<Longrightarrow> m (r', c) = None) \<Longrightarrow> col_index (f(c := None)) (m((r, c) := None))"
  by (fastforce simp: col_index_def)

lemma table_lookup_put:
  "table_lookup (table_put a b p f) a' b' = (if a' = a \<and> b' = b then Some p else table_lookup f a' b')"
  by (simp add: table_put_def table_lookup_def)

lemma table_lookup_erase:
  "table_lookup (table_erase a b f) a' b' = (if a' = a \<and> b' = b then None else table_lookup f a' b')"
proof (cases "(table_lookup f a)(b := None) = Map.empty")
  case True
  then have "table_lookup f a b'' = None" if "b'' \<noteq> b" for b''
    using that by (metis fun_upd_other)
  with True show ?thesis
    by (auto simp: table_erase_def Let_def) (auto simp: table_lookup_def)
next
  case False
  then show ?thesis
    by (auto simp: table_erase_def Let_def) (auto simp: table_lookup_def)
qed

lemma table_put_nonempty: "\<forall>a. f a \<noteq> Some Map.empty \<Longrightarrow> table_put a b p f a' \<noteq> Some Map.empty"
  by (simp add: table_put_def)

lemma table_erase_nonempty: "\<forall>a. f a \<noteq> Some Map.empty \<Longrightarrow> table_erase a b f a' \<noteq> Some Map.empty"
  by (simp add: table_erase_def Let_def)

lemma row_table_upd: "row_table f m \<Longrightarrow> row_table (table_put r c p f) (m((r, c) \<mapsto> p))"
  by (simp add: row_table_def table_lookup_put table_put_nonempty)

lemma row_table_del: "row_table f m \<Longrightarrow> row_table (table_erase r c f) (m((r, c) := None))"
  by (simp add: row_table_def table_lookup_erase table_erase_nonempty)

lemma col_table_upd: "col_table f m \<Longrightarrow> col_table (table_put c r p f) (m((r, c) \<mapsto> p))"
  by (auto simp: col_table_def table_lookup_put table_put_nonempty)

lemma col_table_del: "col_table f m \<Longrightarrow> col_table (table_erase c r f) (m((r, c) := None))"
  by (auto simp: col_table_def table_lookup_erase table_erase_nonempty)

lemma row_table_find:
  assumes "row_table f m"
  shows "f r = None \<longleftrightarrow> (\<forall>c. m (r, c) = None)"
proof -
  have m: "m (r, c) = table_lookup f r c" for c
    using assms by (simp add: row_table_def)
  have "f r \<noteq> Some Map.empty"
    using assms by (simp add: row_table_def)
  then show ?thesis
    by (cases "f r") (auto simp: m table_lookup_def fun_eq_iff)
qed

lemma col_table_find:
  assumes "col_table f m"
  shows "f c = None \<longleftrightarrow> (\<forall>r. m (r, c) = None)"
proof -
  have m: "m (r, c) = table_lookup f c r" for r
    using assms by (simp add: col_table_def)
  have "f c \<noteq> Some Map.empty"
    using assms by (simp add: col_table_def)
  then show ?thesis
    by (cases "f c") (auto simp: m table_lookup_def fun_eq_iff)
qed

lemmas index_upd = row_index_upd col_index_upd row_table_upd col_table_upd
lemmas index_del = row_index_del col_index_del row_table_del col_table_del

subsection \<open>Events of a matrix field\<close>

datatype ('r, 'c, 't) matrix_event =
    MatrixUpdated microseconds 't
  | MatrixDeleted microseconds "'r \<times> 'c"

fun matrix_event_us :: "('r, 'c, 't) matrix_event \<Rightarrow> microseconds" where
  "matrix_event_us (MatrixUpdated us data) = us"
| "matrix_event_us (MatrixDeleted us key) = us"

definition entry_key :: "('t \<Rightarrow> 'r) \<Rightarrow> ('t \<Rightarrow> 'c) \<Rightarrow> 't \<Rightarrow> 'r \<times> 'c" where
  "entry_key GetRow GetCol t = (GetRow t, GetCol t)"

definition matrix_deleted_event ::
  "('t \<Rightarrow> 'r) \<Rightarrow> ('t \<Rightarrow> 'c) \<Rightarrow> microseconds \<Rightarrow> 't \<Rightarrow> ('r, 'c, 't) matrix_event" where
  "matrix_deleted_event GetRow GetCol us value = MatrixDeleted us (GetRow value, GetCol value)"

subsection \<open>The contract of the private methods\<close>

text \<open>
  \<open>fits k m\<close> says that the entries \<open>m\<close> leave room for an entry at \<open>k\<close>: no other entry in the way of
  the container's one-to-one or one-to-many discipline.
\<close>

locale matrix_container =
  fixes GetRow :: "'t \<Rightarrow> 'r"
    and GetCol :: "'t \<Rightarrow> 'c"
    and invar :: "'s \<Rightarrow> bool"
    and elems :: "'s \<Rightarrow> 'r \<times> 'c \<rightharpoonup> 't"
    and last_modified :: "'s \<Rightarrow> 'r \<times> 'c \<rightharpoonup> microseconds"
    and fits :: "'r \<times> 'c \<Rightarrow> ('r \<times> 'c \<rightharpoonup> 't) \<Rightarrow> bool"
    and do_update :: "microseconds \<Rightarrow> 'r \<times> 'c \<Rightarrow> 't \<Rightarrow> 's \<Rightarrow> 's"
    and do_erase :: "microseconds \<Rightarrow> 'r \<times> 'c \<Rightarrow> 's \<Rightarrow> 's"
    and do_forget :: "'r \<times> 'c \<Rightarrow> 's \<Rightarrow> 's"
    and app :: "('r, 'c, 't) matrix_event \<Rightarrow> 's \<Rightarrow> 's"
  assumes invar_elems:
      "invar s \<Longrightarrow> elems s k = Some t \<Longrightarrow> entry_key GetRow GetCol t = k \<and> last_modified s k \<noteq> None"
    and fits_present: "invar s \<Longrightarrow> elems s k = Some t \<Longrightarrow> fits k (elems s)"
    and fits_self: "fits k (m(k := x)) = fits k m"
    and update_ok:
      "invar s \<Longrightarrow> entry_key GetRow GetCol t = k \<Longrightarrow> fits k (elems s) \<Longrightarrow>
       invar (do_update us k t s) \<and> elems (do_update us k t s) = (elems s)(k \<mapsto> t) \<and>
       last_modified (do_update us k t s) = (last_modified s)(k \<mapsto> us)"
    and erase_ok:
      "invar s \<Longrightarrow> elems s k = Some t \<Longrightarrow>
       invar (do_erase us k s) \<and> elems (do_erase us k s) = (elems s)(k := None) \<and>
       last_modified (do_erase us k s) = (last_modified s)(k \<mapsto> us)"
    and forget_ok:
      "invar s \<Longrightarrow> elems s k = Some t \<Longrightarrow>
       invar (do_forget k s) \<and> elems (do_forget k s) = (elems s)(k := None) \<and>
       last_modified (do_forget k s) = (last_modified s)(k := None)"
    and app_updated: "app (MatrixUpdated us t) s = do_update us (GetRow t, GetCol t) t s"
    and app_deleted: "app (MatrixDeleted us k) s = do_erase us k s"
begin

abbreviation view :: "'s \<Rightarrow> ('r \<times> 'c \<rightharpoonup> 't) \<times> ('r \<times> 'c \<rightharpoonup> microseconds)" where
  "view s \<equiv> (elems s, last_modified s)"

abbreviation mlogged ::
  "(('r, 'c, 't) matrix_event, 's) ctx \<Rightarrow> (('r, 'c, 't) matrix_event, 's) ctx \<Rightarrow> bool" where
  "mlogged \<equiv> logged invar view app matrix_event_us"

lemma present_lm: "invar s \<Longrightarrow> elems s k = Some t \<Longrightarrow> \<exists>us. last_modified s k = Some us"
  using invar_elems by blast

lemma present_key: "invar s \<Longrightarrow> elems s k = Some t \<Longrightarrow> (GetRow t, GetCol t) = k"
  using invar_elems by (simp add: entry_key_def)

lemma overwrite_logged:
  assumes now: "CtxNow c = (now, c1)" and inv: "invar (this c)"
    and k: "(GetRow t, GetCol t) = k" and old: "elems (this c) k = Some t0"
    and lm: "last_modified (this c) k = Some us0"
  shows "mlogged c ((LogMutation (MatrixUpdated now t) (do_update us0 k t0) c1)
           \<lparr>this := do_update now k t (this c)\<rparr>)"
proof (rule logged_mutation [OF now])
  note fit = fits_present [OF inv old] and key0 = present_key [OF inv old]
  note up = update_ok [OF inv _ fit, of t now]
  show "invar (do_update now k t (this c))" using up k by (simp add: entry_key_def)
  fix s assume s: "invar s"
  show "invar (do_update us0 k t0 s) \<and> view (do_update us0 k t0 s) = view (this c)"
    if "view s = view (do_update now k t (this c))"
    using that up update_ok [OF s, of t0 k us0] key0 fit k old lm
    by (simp add: entry_key_def fits_self fun_upd_idem)
  show "invar (app (MatrixUpdated now t) s) \<and>
      view (app (MatrixUpdated now t) s) = view (do_update now k t (this c))"
    if "view s = view (this c)"
    using that up update_ok [OF s, of t k now] fit k by (simp add: entry_key_def app_updated)
qed simp

lemma insert_logged:
  assumes now: "CtxNow c = (now, c1)" and inv: "invar (this c)"
    and k: "(GetRow t, GetCol t) = k" and new: "elems (this c) k = None"
    and fit: "fits k (elems (this c))"
    and rb: "rb = (case last_modified (this c) k of
                     Some us0 \<Rightarrow> do_erase us0 k | None \<Rightarrow> do_forget k)"
  shows "mlogged c ((LogMutation (MatrixUpdated now t) rb c1)\<lparr>this := do_update now k t (this c)\<rparr>)"
proof (rule logged_mutation [OF now])
  note up = update_ok [OF inv _ fit, of t now]
  show "invar (do_update now k t (this c))" using up k by (simp add: entry_key_def)
  fix s assume s: "invar s"
  show "invar (rb s) \<and> view (rb s) = view (this c)"
    if "view s = view (do_update now k t (this c))"
    using that up erase_ok [OF s, of k t] forget_ok [OF s, of k t] new k rb
    by (auto simp: entry_key_def fun_upd_idem split: option.splits)
  show "invar (app (MatrixUpdated now t) s) \<and>
      view (app (MatrixUpdated now t) s) = view (do_update now k t (this c))"
    if "view s = view (this c)"
    using that up update_ok [OF s, of t k now] fit k by (simp add: entry_key_def app_updated)
qed simp

lemma erase_logged:
  assumes now: "CtxNow c = (now, c1)" and inv: "invar (this c)"
    and old: "elems (this c) k = Some t0"
    and lm: "last_modified (this c) k = Some us0"
  shows "mlogged c ((LogMutation (matrix_deleted_event GetRow GetCol now t0) (do_update us0 k t0) c1)
           \<lparr>this := do_erase now k (this c)\<rparr>)"
proof (rule logged_mutation [OF now])
  note fit = fits_present [OF inv old] and key0 = present_key [OF inv old]
  note er = erase_ok [OF inv old, of now]
  show "invar (do_erase now k (this c))" using er by simp
  fix s assume s: "invar s"
  show "invar (do_update us0 k t0 s) \<and> view (do_update us0 k t0 s) = view (this c)"
    if "view s = view (do_erase now k (this c))"
    using that er update_ok [OF s, of t0 k us0] key0 fit old lm
    by (simp add: entry_key_def fits_self fun_upd_idem)
  show "invar (app (matrix_deleted_event GetRow GetCol now t0) s) \<and>
      view (app (matrix_deleted_event GetRow GetCol now t0) s) = view (do_erase now k (this c))"
    if "view s = view (this c)"
    using that er erase_ok [OF s, of k t0 now] key0 old
    by (simp add: app_deleted matrix_deleted_event_def)
qed (simp add: matrix_deleted_event_def)

end

end
