(* ===== verification/OneToOne.thy ===== *)
theory OneToOne
  imports Elements
begin

text \<open>
  \<^verbatim>\<open>GenericOneToOne\<close> of \<^verbatim>\<open>src/storage/container/one_to_one.h\<close>: entries keyed by (row, column) with at
  most one entry per row and one per column, found through \<^verbatim>\<open>forward_\<close> and \<^verbatim>\<open>transposed_\<close>, two maps
  of bare pointers into the entries that \<^verbatim>\<open>map_\<close> owns.
\<close>

record ('r, 'c, 't) one_to_one =
  o2o_elements :: "('r \<times> 'c, 't) elements"
  o2o_forward :: "'r \<rightharpoonup> nat"
  o2o_transposed :: "'c \<rightharpoonup> nat"
  o2o_last_modified :: "'r \<times> 'c \<rightharpoonup> microseconds"

type_synonym ('r, 'c, 't) o2o_ctx = "(('r, 'c, 't) matrix_event, ('r, 'c, 't) one_to_one) ctx"

definition o2o_empty :: "('r, 'c, 't) one_to_one" where
  "o2o_empty = \<lparr>o2o_elements = el_empty, o2o_forward = Map.empty, o2o_transposed = Map.empty,
                o2o_last_modified = Map.empty\<rparr>"

definition o2o_Empty :: "('r, 'c, 't) one_to_one \<Rightarrow> bool" where
  "o2o_Empty s \<longleftrightarrow> el_map (o2o_elements s) = Map.empty"

definition o2o_Size :: "('r, 'c, 't) one_to_one \<Rightarrow> nat" where
  "o2o_Size s = card (dom (el_map (o2o_elements s)))"

subsection \<open>The private mutations\<close>

definition o2o_DoUpdateWithLastModified ::
  "microseconds \<Rightarrow> 'r \<times> 'c \<Rightarrow> 't \<Rightarrow> ('r, 'c, 't) one_to_one \<Rightarrow> ('r, 'c, 't) one_to_one" where
  "o2o_DoUpdateWithLastModified us key object s =
     (let s = s\<lparr>o2o_last_modified := (o2o_last_modified s)(key \<mapsto> us)\<rparr>;
          (placeholder, e) = el_emplace key object (o2o_elements s)
      in s\<lparr>o2o_elements := e,
           o2o_forward := (o2o_forward s)(fst key \<mapsto> placeholder),
           o2o_transposed := (o2o_transposed s)(snd key \<mapsto> placeholder)\<rparr>)"

definition o2o_DoEraseWithoutTouchingLastModified ::
  "'r \<times> 'c \<Rightarrow> ('r, 'c, 't) one_to_one \<Rightarrow> ('r, 'c, 't) one_to_one" where
  "o2o_DoEraseWithoutTouchingLastModified key s =
     s\<lparr>o2o_forward := (o2o_forward s)(fst key := None),
       o2o_transposed := (o2o_transposed s)(snd key := None),
       o2o_elements := el_erase key (o2o_elements s)\<rparr>"

definition o2o_DoEraseWithLastModified ::
  "microseconds \<Rightarrow> 'r \<times> 'c \<Rightarrow> ('r, 'c, 't) one_to_one \<Rightarrow> ('r, 'c, 't) one_to_one" where
  "o2o_DoEraseWithLastModified us key s =
     o2o_DoEraseWithoutTouchingLastModified key
       (s\<lparr>o2o_last_modified := (o2o_last_modified s)(key \<mapsto> us)\<rparr>)"

text \<open>The closure \<^verbatim>\<open>[this, key]() { last_modified_.erase(key); DoEraseWithoutTouchingLastModified(key); }\<close>\<close>

definition o2o_forget :: "'r \<times> 'c \<Rightarrow> ('r, 'c, 't) one_to_one \<Rightarrow> ('r, 'c, 't) one_to_one" where
  "o2o_forget key s =
     o2o_DoEraseWithoutTouchingLastModified key
       (s\<lparr>o2o_last_modified := (o2o_last_modified s)(key := None)\<rparr>)"

subsection \<open>The public operations\<close>

text \<open>
  The part of \<^verbatim>\<open>Add\<close> that removes the entries in the way of a new one, and returns the time to use next.
\<close>

definition o2o_evict ::
  "('t \<Rightarrow> 'r) \<Rightarrow> ('t \<Rightarrow> 'c) \<Rightarrow> 'r \<Rightarrow> 'c \<Rightarrow> microseconds \<Rightarrow> ('r, 'c, 't) o2o_ctx \<Rightarrow>
   (microseconds \<times> ('r, 'c, 't) o2o_ctx) option" where
  "o2o_evict GetRow GetCol row col now c =
     (let s = this c in
      case (o2o_forward s row, o2o_transposed s col) of
        (Some p_row, Some p_col) \<Rightarrow> do {
          conflicting_object_same_row \<leftarrow> el_heap (o2o_elements s) p_row;
          conflicting_object_same_col \<leftarrow> el_heap (o2o_elements s) p_col;
          let key_same_row = (row, GetCol conflicting_object_same_row);
          timestamp_same_row \<leftarrow> o2o_last_modified s key_same_row;
          let key_same_col = (GetRow conflicting_object_same_col, col);
          timestamp_same_col \<leftarrow> o2o_last_modified s key_same_col;
          let c = LogMutation (matrix_deleted_event GetRow GetCol now conflicting_object_same_row)
                    (o2o_DoUpdateWithLastModified timestamp_same_row key_same_row
                       conflicting_object_same_row) c;
          let c = c\<lparr>this := o2o_DoEraseWithLastModified now key_same_row (this c)\<rparr>;
          let (now, c) = CtxNow c;
          let c = LogMutation (matrix_deleted_event GetRow GetCol now conflicting_object_same_col)
                    (o2o_DoUpdateWithLastModified timestamp_same_col key_same_col
                       conflicting_object_same_col) c;
          let c = c\<lparr>this := o2o_DoEraseWithLastModified now key_same_col (this c)\<rparr>;
          Some (CtxNow c) }
      | (None, None) \<Rightarrow> Some (now, c)
      | (o_row, o_col) \<Rightarrow> do {
          p \<leftarrow> (case o_row of Some p_row \<Rightarrow> Some p_row | None \<Rightarrow> o_col);
          conflicting_object \<leftarrow> el_heap (o2o_elements s) p;
          let conflicting_object_key = (GetRow conflicting_object, GetCol conflicting_object);
          conflicting_object_timestamp \<leftarrow> o2o_last_modified s conflicting_object_key;
          let c = LogMutation (matrix_deleted_event GetRow GetCol now conflicting_object)
                    (o2o_DoUpdateWithLastModified conflicting_object_timestamp conflicting_object_key
                       conflicting_object) c;
          let c = c\<lparr>this := o2o_DoEraseWithLastModified now conflicting_object_key (this c)\<rparr>;
          Some (CtxNow c) })"

definition o2o_Add ::
  "('t \<Rightarrow> 'r) \<Rightarrow> ('t \<Rightarrow> 'c) \<Rightarrow> 't \<Rightarrow> ('r, 'c, 't) o2o_ctx \<Rightarrow> ('r, 'c, 't) o2o_ctx option" where
  "o2o_Add GetRow GetCol object c =
     (let (now, c) = CtxNow c; row = GetRow object; col = GetCol object; key = (row, col);
          s = this c in
      case el_map (o2o_elements s) key of
        Some p \<Rightarrow> do {
          previous_object \<leftarrow> el_heap (o2o_elements s) p;
          previous_timestamp \<leftarrow> o2o_last_modified s key;
          let c = LogMutation (MatrixUpdated now object)
                    (o2o_DoUpdateWithLastModified previous_timestamp key previous_object) c;
          Some (c\<lparr>this := o2o_DoUpdateWithLastModified now key object (this c)\<rparr>) }
      | None \<Rightarrow> do {
          (now, c) \<leftarrow> o2o_evict GetRow GetCol row col now c;
          rollback \<leftarrow> (if o2o_last_modified s key \<noteq> None
                       then do { previous_timestamp \<leftarrow> o2o_last_modified (this c) key;
                                 Some (o2o_DoEraseWithLastModified previous_timestamp key) }
                       else Some (o2o_forget key));
          let c = LogMutation (MatrixUpdated now object) rollback c;
          Some (c\<lparr>this := o2o_DoUpdateWithLastModified now key object (this c)\<rparr>) })"

text \<open>
  The common body of \<^verbatim>\<open>Erase\<close>, \<^verbatim>\<open>EraseRow\<close> and \<^verbatim>\<open>EraseCol\<close> once the pointer to the entry is found: the
  three compute the key of the entry from what they were given.
\<close>

definition o2o_erase_entry ::
  "('t \<Rightarrow> 'r) \<Rightarrow> ('t \<Rightarrow> 'c) \<Rightarrow> microseconds \<Rightarrow> ('t \<Rightarrow> 'r \<times> 'c) \<Rightarrow> nat \<Rightarrow> ('r, 'c, 't) o2o_ctx \<Rightarrow>
   ('r, 'c, 't) o2o_ctx option" where
  "o2o_erase_entry GetRow GetCol now key_of p c =
     (let s = this c in do {
        previous_object \<leftarrow> el_heap (o2o_elements s) p;
        let key = key_of previous_object;
        previous_timestamp \<leftarrow> o2o_last_modified s key;
        let c = LogMutation (matrix_deleted_event GetRow GetCol now previous_object)
                  (o2o_DoUpdateWithLastModified previous_timestamp key previous_object) c;
        Some (c\<lparr>this := o2o_DoEraseWithLastModified now key (this c)\<rparr>) })"

definition o2o_Erase ::
  "('t \<Rightarrow> 'r) \<Rightarrow> ('t \<Rightarrow> 'c) \<Rightarrow> 'r \<times> 'c \<Rightarrow> ('r, 'c, 't) o2o_ctx \<Rightarrow> ('r, 'c, 't) o2o_ctx option" where
  "o2o_Erase GetRow GetCol key c =
     (let (now, c) = CtxNow c in
      case el_map (o2o_elements (this c)) key of
        Some p \<Rightarrow> o2o_erase_entry GetRow GetCol now (\<lambda>_. key) p c
      | None \<Rightarrow> Some c)"

definition o2o_EraseRow ::
  "('t \<Rightarrow> 'r) \<Rightarrow> ('t \<Rightarrow> 'c) \<Rightarrow> 'r \<Rightarrow> ('r, 'c, 't) o2o_ctx \<Rightarrow> ('r, 'c, 't) o2o_ctx option" where
  "o2o_EraseRow GetRow GetCol row c =
     (let (now, c) = CtxNow c in
      case o2o_forward (this c) row of
        Some p \<Rightarrow> o2o_erase_entry GetRow GetCol now (\<lambda>previous_object. (row, GetCol previous_object)) p c
      | None \<Rightarrow> Some c)"

definition o2o_EraseCol ::
  "('t \<Rightarrow> 'r) \<Rightarrow> ('t \<Rightarrow> 'c) \<Rightarrow> 'c \<Rightarrow> ('r, 'c, 't) o2o_ctx \<Rightarrow> ('r, 'c, 't) o2o_ctx option" where
  "o2o_EraseCol GetRow GetCol col c =
     (let (now, c) = CtxNow c in
      case o2o_transposed (this c) col of
        Some p \<Rightarrow> o2o_erase_entry GetRow GetCol now (\<lambda>previous_object. (GetRow previous_object, col)) p c
      | None \<Rightarrow> Some c)"

text \<open>
  The getters.  The outer option is undefined behaviour (a dangling pointer), the inner one the
  \<^verbatim>\<open>ImmutableOptional\<close> the caller gets.
\<close>

definition o2o_via :: "('r, 'c, 't) one_to_one \<Rightarrow> nat option \<Rightarrow> 't option option" where
  "o2o_via s found =
     (case found of
        Some p \<Rightarrow> do { t \<leftarrow> el_heap (o2o_elements s) p; Some (Some t) }
      | None \<Rightarrow> Some None)"

definition o2o_get :: "'r \<times> 'c \<Rightarrow> ('r, 'c, 't) one_to_one \<Rightarrow> 't option option" where
  "o2o_get key s = o2o_via s (el_map (o2o_elements s) key)"

definition o2o_GetEntryFromRow :: "'r \<Rightarrow> ('r, 'c, 't) one_to_one \<Rightarrow> 't option option" where
  "o2o_GetEntryFromRow row s = o2o_via s (o2o_forward s row)"

definition o2o_GetEntryFromCol :: "'c \<Rightarrow> ('r, 'c, 't) one_to_one \<Rightarrow> 't option option" where
  "o2o_GetEntryFromCol col s = o2o_via s (o2o_transposed s col)"

definition o2o_LastModified :: "'r \<times> 'c \<Rightarrow> ('r, 'c, 't) one_to_one \<Rightarrow> microseconds option" where
  "o2o_LastModified key s = o2o_last_modified s key"

definition o2o_DoesNotConflict :: "'r \<times> 'c \<Rightarrow> ('r, 'c, 't) one_to_one \<Rightarrow> bool" where
  "o2o_DoesNotConflict key s \<longleftrightarrow>
     o2o_forward s (fst key) = None \<and> o2o_transposed s (snd key) = None"

fun o2o_apply ::
  "('t \<Rightarrow> 'r) \<Rightarrow> ('t \<Rightarrow> 'c) \<Rightarrow> ('r, 'c, 't) matrix_event \<Rightarrow> ('r, 'c, 't) one_to_one \<Rightarrow> ('r, 'c, 't) one_to_one" where
  "o2o_apply GetRow GetCol (MatrixUpdated us data) s =
     o2o_DoUpdateWithLastModified us (GetRow data, GetCol data) data s"
| "o2o_apply GetRow GetCol (MatrixDeleted us key) s =
     o2o_DoEraseWithLastModified us (fst key, snd key) s"

datatype ('r, 'c, 't) o2o_op = O2OAdd 't | O2OErase "'r \<times> 'c" | O2OEraseRow 'r | O2OEraseCol 'c

fun o2o_run ::
  "('t \<Rightarrow> 'r) \<Rightarrow> ('t \<Rightarrow> 'c) \<Rightarrow> ('r, 'c, 't) o2o_op \<Rightarrow> ('r, 'c, 't) o2o_ctx \<Rightarrow> ('r, 'c, 't) o2o_ctx option" where
  "o2o_run GetRow GetCol (O2OAdd object) c = o2o_Add GetRow GetCol object c"
| "o2o_run GetRow GetCol (O2OErase key) c = o2o_Erase GetRow GetCol key c"
| "o2o_run GetRow GetCol (O2OEraseRow row) c = o2o_EraseRow GetRow GetCol row c"
| "o2o_run GetRow GetCol (O2OEraseCol col) c = o2o_EraseCol GetRow GetCol col c"

subsection \<open>Well-formedness\<close>

text \<open>
  \<^verbatim>\<open>forward_\<close> and \<^verbatim>\<open>transposed_\<close> hold exactly the owned pointers, by row and by column.  Two entries
  in one row would be one pointer under two keys, so the discipline of the container is a consequence.
\<close>

definition o2o_inv :: "('t \<Rightarrow> 'r) \<Rightarrow> ('t \<Rightarrow> 'c) \<Rightarrow> ('r, 'c, 't) one_to_one \<Rightarrow> bool" where
  "o2o_inv GetRow GetCol s \<longleftrightarrow>
     el_inv (entry_key GetRow GetCol) (o2o_elements s) \<and>
     row_index (o2o_forward s) (el_map (o2o_elements s)) \<and>
     col_index (o2o_transposed s) (el_map (o2o_elements s)) \<and>
     (\<forall>k p. el_map (o2o_elements s) k = Some p \<longrightarrow> o2o_last_modified s k \<noteq> None)"

definition o2o_elems :: "('r, 'c, 't) one_to_one \<Rightarrow> 'r \<times> 'c \<rightharpoonup> 't" where
  "o2o_elems s = el_view (o2o_elements s)"

text \<open>What a client can observe: the entries and the modification times.\<close>

abbreviation o2o_view ::
  "('r, 'c, 't) one_to_one \<Rightarrow> ('r \<times> 'c \<rightharpoonup> 't) \<times> ('r \<times> 'c \<rightharpoonup> microseconds)" where
  "o2o_view s \<equiv> (o2o_elems s, o2o_last_modified s)"

definition o2o_fits :: "'r \<times> 'c \<Rightarrow> ('r \<times> 'c \<rightharpoonup> 't) \<Rightarrow> bool" where
  "o2o_fits k m \<longleftrightarrow>
     (\<forall>r c. (r = fst k \<or> c = snd k) \<longrightarrow> (r, c) \<noteq> k \<longrightarrow> m (r, c) = None)"

lemmas o2o_prims [container_simps] =
  o2o_DoUpdateWithLastModified_def o2o_DoEraseWithoutTouchingLastModified_def
  o2o_DoEraseWithLastModified_def o2o_forget_def

lemma o2o_inv_empty: "o2o_inv GetRow GetCol o2o_empty"
  by (simp add: o2o_inv_def o2o_empty_def el_inv_empty) (simp add: el_empty_def row_index_def col_index_def)

lemma o2o_inv_el: "o2o_inv GetRow GetCol s \<Longrightarrow> el_inv (entry_key GetRow GetCol) (o2o_elements s)"
  by (simp add: o2o_inv_def)

lemma o2o_unique:
  assumes "o2o_inv GetRow GetCol s" "el_map (o2o_elements s) (r, c) = Some p"
    "el_map (o2o_elements s) (r', c') = Some p'" "r = r' \<or> c = c'"
  shows "r = r' \<and> c = c'"
proof -
  from assms have "p = p'" unfolding o2o_inv_def row_index_def col_index_def by (metis option.inject)
  with assms(2,3) el_inv_inj [OF o2o_inv_el [OF assms(1)]] show ?thesis by blast
qed

text \<open>Nothing else is in the row or in the column of \<open>k\<close>.\<close>

lemma o2o_fits_free:
  assumes "o2o_inv GetRow GetCol s"
  shows "o2o_fits k (o2o_elems s) \<longleftrightarrow>
    (\<forall>r c. (r = fst k \<or> c = snd k) \<longrightarrow> (r, c) \<noteq> k \<longrightarrow> el_map (o2o_elements s) (r, c) = None)"
  by (simp only: o2o_fits_def o2o_elems_def el_view_None [OF o2o_inv_el [OF assms]])

lemma o2o_fits_present:
  assumes "o2o_inv GetRow GetCol s" "o2o_elems s k = Some t"
  shows "o2o_fits k (o2o_elems s)"
proof -
  obtain p where p: "el_map (o2o_elements s) (fst k, snd k) = Some p"
    using assms(2) by (auto simp: o2o_elems_def el_view_Some [OF o2o_inv_el [OF assms(1)]])
  have "el_map (o2o_elements s) (r, c) = None" if "r = fst k \<or> c = snd k" "(r, c) \<noteq> k" for r c
    using that o2o_unique [OF assms(1) p, of r c]
    by (cases "el_map (o2o_elements s) (r, c)") auto
  then show ?thesis by (simp add: o2o_fits_free [OF assms(1)])
qed

lemma o2o_update_ok:
  assumes "o2o_inv GetRow GetCol s" "entry_key GetRow GetCol t = k" "o2o_fits k (o2o_elems s)"
  shows "o2o_inv GetRow GetCol (o2o_DoUpdateWithLastModified us k t s)"
    "o2o_elems (o2o_DoUpdateWithLastModified us k t s) = (o2o_elems s)(k \<mapsto> t)"
    "o2o_last_modified (o2o_DoUpdateWithLastModified us k t s) = (o2o_last_modified s)(k \<mapsto> us)"
proof -
  note el = o2o_inv_el [OF assms(1)]
  obtain r c where k: "k = (r, c)" by (cases k)
  have free: "\<And>c'. c' \<noteq> c \<Longrightarrow> el_map (o2o_elements s) (r, c') = None"
    "\<And>r'. r' \<noteq> r \<Longrightarrow> el_map (o2o_elements s) (r', c) = None"
    using assms(3) unfolding o2o_fits_free [OF assms(1)] k by simp_all
  show "o2o_inv GetRow GetCol (o2o_DoUpdateWithLastModified us k t s)"
    using assms(1) el_inv_emplace [OF el assms(2)] free
    by (simp add: o2o_inv_def container_simps Let_def split_beta k index_upd)
  show "o2o_elems (o2o_DoUpdateWithLastModified us k t s) = (o2o_elems s)(k \<mapsto> t)"
    by (simp add: o2o_elems_def container_simps Let_def split_beta el_view_emplace [OF el])
  show "o2o_last_modified (o2o_DoUpdateWithLastModified us k t s) = (o2o_last_modified s)(k \<mapsto> us)"
    by (simp add: container_simps Let_def split_beta)
qed

lemma o2o_erase_inv:
  assumes "o2o_inv GetRow GetCol s" "o2o_elems s k = Some t"
    and lm: "\<And>k'. k' \<noteq> k \<Longrightarrow> lm k' = o2o_last_modified s k'"
  shows "o2o_inv GetRow GetCol
    (o2o_DoEraseWithoutTouchingLastModified k (s\<lparr>o2o_last_modified := lm\<rparr>))"
proof -
  obtain r c where k: "k = (r, c)" by (cases k)
  have free: "\<And>c'. c' \<noteq> c \<Longrightarrow> el_map (o2o_elements s) (r, c') = None"
    "\<And>r'. r' \<noteq> r \<Longrightarrow> el_map (o2o_elements s) (r', c) = None"
    using o2o_fits_present [OF assms(1,2)] unfolding o2o_fits_free [OF assms(1)] k by simp_all
  show ?thesis
    using assms(1) el_inv_erase [OF o2o_inv_el [OF assms(1)], of k] free lm
    by (simp add: o2o_inv_def container_simps k index_del)
qed

lemma o2o_elems_None:
  "o2o_inv GetRow GetCol s \<Longrightarrow> o2o_elems s k = None \<longleftrightarrow> el_map (o2o_elements s) k = None"
  by (simp add: o2o_elems_def el_view_None [OF o2o_inv_el])

lemma o2o_erase_view:
  assumes "o2o_inv GetRow GetCol s"
  shows "o2o_elems (o2o_DoEraseWithLastModified us k s) = (o2o_elems s)(k := None)"
    "o2o_last_modified (o2o_DoEraseWithLastModified us k s) = (o2o_last_modified s)(k \<mapsto> us)"
    "o2o_elems (o2o_forget k s) = (o2o_elems s)(k := None)"
    "o2o_last_modified (o2o_forget k s) = (o2o_last_modified s)(k := None)"
  by (simp_all add: container_simps o2o_elems_def el_view_erase [OF o2o_inv_el [OF assms]])

lemma o2o_erase_ok:
  assumes "o2o_inv GetRow GetCol s" "o2o_elems s k = Some t"
  shows "o2o_inv GetRow GetCol (o2o_DoEraseWithLastModified us k s)"
    "o2o_inv GetRow GetCol (o2o_forget k s)"
  unfolding o2o_DoEraseWithLastModified_def o2o_forget_def
  by (rule o2o_erase_inv [OF assms], simp)+

lemma o2o_inv_elems:
  assumes "o2o_inv GetRow GetCol s" "o2o_elems s k = Some t"
  shows "entry_key GetRow GetCol t = k \<and> o2o_last_modified s k \<noteq> None"
  using assms el_view_key [OF o2o_inv_el [OF assms(1)], of k t]
    el_view_Some [OF o2o_inv_el [OF assms(1)], of k t]
  by (cases k) (auto simp: o2o_elems_def o2o_inv_def)

lemma o2o_fits_self: "o2o_fits k (m(k := x)) = o2o_fits k m"
  by (simp add: o2o_fits_def)

interpretation o2o: matrix_container GetRow GetCol "o2o_inv GetRow GetCol" o2o_elems o2o_last_modified
  o2o_fits o2o_DoUpdateWithLastModified o2o_DoEraseWithLastModified o2o_forget "o2o_apply GetRow GetCol"
  for GetRow :: "'t \<Rightarrow> 'r" and GetCol :: "'t \<Rightarrow> 'c"
  by unfold_locales
    (simp_all add: o2o_inv_elems o2o_fits_present o2o_fits_self o2o_update_ok o2o_erase_ok o2o_erase_view)

subsection \<open>Every operation is logged\<close>

abbreviation o2o_logged ::
  "('t \<Rightarrow> 'r) \<Rightarrow> ('t \<Rightarrow> 'c) \<Rightarrow> ('r, 'c, 't) o2o_ctx \<Rightarrow> ('r, 'c, 't) o2o_ctx \<Rightarrow> bool" where
  "o2o_logged GetRow GetCol \<equiv>
     logged (o2o_inv GetRow GetCol) o2o_view (o2o_apply GetRow GetCol) matrix_event_us"

lemma o2o_live:
  assumes "o2o_inv GetRow GetCol s" "el_map (o2o_elements s) (r, c) = Some p"
  obtains t us where "el_heap (o2o_elements s) p = Some t" "GetRow t = r" "GetCol t = c"
    "o2o_elems s (r, c) = Some t" "o2o_last_modified s (r, c) = Some us"
proof -
  from el_inv_live [OF o2o_inv_el [OF assms(1)] assms(2)]
  obtain t where t: "el_heap (o2o_elements s) p = Some t" "GetRow t = r" "GetCol t = c"
    by (auto simp: entry_key_def)
  moreover from t(1) assms(2) have "o2o_elems s (r, c) = Some t"
    by (simp add: o2o_elems_def el_view_def)
  moreover from o2o_inv_elems [OF assms(1) this]
  obtain us where "o2o_last_modified s (r, c) = Some us" by auto
  ultimately show ?thesis by (rule that)
qed

lemma o2o_forward_live:
  assumes "o2o_inv GetRow GetCol s" "o2o_forward s r = Some p"
  obtains c t us where "el_map (o2o_elements s) (r, c) = Some p"
    "el_heap (o2o_elements s) p = Some t" "GetRow t = r" "GetCol t = c"
    "o2o_elems s (r, c) = Some t" "o2o_last_modified s (r, c) = Some us"
proof -
  from assms obtain c where c: "el_map (o2o_elements s) (r, c) = Some p"
    by (auto simp: o2o_inv_def row_index_def)
  show ?thesis by (rule o2o_live [OF assms(1) c]) (rule that [OF c])
qed

lemma o2o_transposed_live:
  assumes "o2o_inv GetRow GetCol s" "o2o_transposed s c = Some p"
  obtains r t us where "el_map (o2o_elements s) (r, c) = Some p"
    "el_heap (o2o_elements s) p = Some t" "GetRow t = r" "GetCol t = c"
    "o2o_elems s (r, c) = Some t" "o2o_last_modified s (r, c) = Some us"
proof -
  from assms obtain r where r: "el_map (o2o_elements s) (r, c) = Some p"
    by (auto simp: o2o_inv_def col_index_def)
  show ?thesis by (rule o2o_live [OF assms(1) r]) (rule that [OF r])
qed

lemma o2o_erase_entry_logged:
  assumes now: "CtxNow c = (now, c1)" and inv: "o2o_inv GetRow GetCol (this c)"
    and p: "el_map (o2o_elements (this c)) k = Some p"
    and key: "\<And>t. entry_key GetRow GetCol t = k \<Longrightarrow> key_of t = k"
  shows "\<exists>c'. o2o_erase_entry GetRow GetCol now key_of p c1 = Some c' \<and> o2o_logged GetRow GetCol c c'"
proof -
  obtain r cc where k: "k = (r, cc)" by (cases k)
  from p obtain t us where t: "el_heap (o2o_elements (this c)) p = Some t" "GetRow t = r" "GetCol t = cc"
    "o2o_elems (this c) k = Some t" "o2o_last_modified (this c) k = Some us"
    unfolding k by (rule o2o_live [OF inv])
  then show ?thesis
    using o2o.erase_logged [OF now inv t(4,5)] key [of t] CtxNow_simps [OF now]
    by (simp add: o2o_erase_entry_def entry_key_def k Let_def)
qed

lemma o2o_Erase_logged:
  assumes inv: "o2o_inv GetRow GetCol (this c)"
  shows "\<exists>c'. o2o_Erase GetRow GetCol key c = Some c' \<and> o2o_logged GetRow GetCol c c'"
proof -
  obtain now c1 where now: "CtxNow c = (now, c1)" by (cases "CtxNow c")
  show ?thesis
    using o2o_erase_entry_logged [OF now inv] CtxNow_logged [OF now] inv
    by (auto simp: o2o_Erase_def Let_def now CtxNow_simps [OF now] split: option.splits)
qed

lemma o2o_EraseRow_logged:
  assumes inv: "o2o_inv GetRow GetCol (this c)"
  shows "\<exists>c'. o2o_EraseRow GetRow GetCol row c = Some c' \<and> o2o_logged GetRow GetCol c c'"
proof -
  obtain now c1 where now: "CtxNow c = (now, c1)" by (cases "CtxNow c")
  show ?thesis
  proof (cases "o2o_forward (this c) row")
    case (Some p)
    then obtain col where "el_map (o2o_elements (this c)) (row, col) = Some p"
      by (rule o2o_forward_live [OF inv])
    then show ?thesis
      using o2o_erase_entry_logged [OF now inv, of "(row, col)" p "\<lambda>t. (row, GetCol t)"] Some
      by (auto simp: o2o_EraseRow_def now CtxNow_simps [OF now] entry_key_def)
  qed (use CtxNow_logged [OF now] inv in \<open>auto simp: o2o_EraseRow_def now CtxNow_simps [OF now]\<close>)
qed

lemma o2o_EraseCol_logged:
  assumes inv: "o2o_inv GetRow GetCol (this c)"
  shows "\<exists>c'. o2o_EraseCol GetRow GetCol col c = Some c' \<and> o2o_logged GetRow GetCol c c'"
proof -
  obtain now c1 where now: "CtxNow c = (now, c1)" by (cases "CtxNow c")
  show ?thesis
  proof (cases "o2o_transposed (this c) col")
    case (Some p)
    then obtain row where "el_map (o2o_elements (this c)) (row, col) = Some p"
      by (rule o2o_transposed_live [OF inv])
    then show ?thesis
      using o2o_erase_entry_logged [OF now inv, of "(row, col)" p "\<lambda>t. (GetRow t, col)"] Some
      by (auto simp: o2o_EraseCol_def now CtxNow_simps [OF now] entry_key_def)
  qed (use CtxNow_logged [OF now] inv in \<open>auto simp: o2o_EraseCol_def now CtxNow_simps [OF now]\<close>)
qed

text \<open>After the eviction there is room for the new entry, and its key is as it was.\<close>

definition o2o_room :: "'r \<times> 'c \<Rightarrow> ('r, 'c, 't) one_to_one \<Rightarrow> ('r, 'c, 't) one_to_one \<Rightarrow> bool" where
  "o2o_room k s s' \<longleftrightarrow> o2o_elems s' k = None \<and> o2o_fits k (o2o_elems s') \<and>
     o2o_last_modified s' k = o2o_last_modified s k \<and>
     (\<forall>r c. r \<noteq> fst k \<and> c \<noteq> snd k \<longrightarrow> o2o_elems s' (r, c) = o2o_elems s (r, c))"

text \<open>The entries after \<^verbatim>\<open>Add\<close>: the new one, and those in another row and another column.\<close>

definition o2o_with :: "('t \<Rightarrow> 'r) \<Rightarrow> ('t \<Rightarrow> 'c) \<Rightarrow> 't \<Rightarrow> ('r \<times> 'c \<rightharpoonup> 't) \<Rightarrow> 'r \<times> 'c \<rightharpoonup> 't" where
  "o2o_with GetRow GetCol t m k =
     (if k = (GetRow t, GetCol t) then Some t
      else if fst k = GetRow t \<or> snd k = GetCol t then None else m k)"

lemma o2o_with_fits: "o2o_fits (GetRow t, GetCol t) m \<Longrightarrow> o2o_with GetRow GetCol t m = m((GetRow t, GetCol t) \<mapsto> t)"
  by (auto simp: o2o_with_def o2o_fits_def fun_eq_iff)

lemma o2o_with_room:
  assumes "o2o_room (GetRow t, GetCol t) s s'"
  shows "(o2o_elems s')((GetRow t, GetCol t) \<mapsto> t) = o2o_with GetRow GetCol t (o2o_elems s)"
proof
  fix k show "((o2o_elems s')((GetRow t, GetCol t) \<mapsto> t)) k = o2o_with GetRow GetCol t (o2o_elems s) k"
    using assms by (cases k) (auto simp: o2o_with_def o2o_room_def o2o_fits_def)
qed

lemma o2o_evict_both:
  assumes now: "CtxNow c = (now, c1)" and inv: "o2o_inv GetRow GetCol (this c)"
    and new: "el_map (o2o_elements (this c)) (row, col) = None"
    and p: "o2o_forward (this c) row = Some p" and q: "o2o_transposed (this c) col = Some q"
  shows "\<exists>c0. o2o_evict GetRow GetCol row col now c1 = Some (CtxNow c0) \<and>
    o2o_logged GetRow GetCol c c0 \<and> o2o_room (row, col) (this c) (this c0)"
proof -
  note s1 = CtxNow_simps [OF now]
  from p obtain cr tr ur where r: "el_map (o2o_elements (this c)) (row, cr) = Some p"
    "el_heap (o2o_elements (this c)) p = Some tr" "GetRow tr = row" "GetCol tr = cr"
    "o2o_elems (this c) (row, cr) = Some tr" "o2o_last_modified (this c) (row, cr) = Some ur"
    by (rule o2o_forward_live [OF inv])
  obtain rc tc uc where q: "el_map (o2o_elements (this c)) (rc, col) = Some q"
    "el_heap (o2o_elements (this c)) q = Some tc" "GetRow tc = rc" "GetCol tc = col"
    "o2o_elems (this c) (rc, col) = Some tc" "o2o_last_modified (this c) (rc, col) = Some uc"
    using q by (rule o2o_transposed_live [OF inv])
  from new r q have ne: "cr \<noteq> col" "rc \<noteq> row" by auto
  let ?c2 = "(LogMutation (matrix_deleted_event GetRow GetCol now tr)
    (o2o_DoUpdateWithLastModified ur (row, cr) tr) c1)
    \<lparr>this := o2o_DoEraseWithLastModified now (row, cr) (this c)\<rparr>"
  note log2 = o2o.erase_logged [OF now inv r(5,6)]
  have inv2: "o2o_inv GetRow GetCol (this ?c2)" using o2o_erase_ok [OF inv r(5)] by simp
  obtain now2 c3 where now2: "CtxNow ?c2 = (now2, c3)" by (cases "CtxNow ?c2")
  note s3 = CtxNow_simps [OF now2]
  let ?c4 = "(LogMutation (matrix_deleted_event GetRow GetCol now2 tc)
    (o2o_DoUpdateWithLastModified uc (rc, col) tc) c3)
    \<lparr>this := o2o_DoEraseWithLastModified now2 (rc, col) (this ?c2)\<rparr>"
  have at2: "o2o_elems (this ?c2) (rc, col) = Some tc" "o2o_last_modified (this ?c2) (rc, col) = Some uc"
    using q ne by (simp_all add: o2o_erase_view [OF inv])
  note log4 = o2o.erase_logged [OF now2 inv2 at2]
  have "o2o_elems (this ?c4) = (o2o_elems (this c))((row, cr) := None, (rc, col) := None)"
    using o2o_erase_view [OF inv2] by (simp add: o2o_erase_view [OF inv])
  moreover have "o2o_last_modified (this ?c4) (row, col) = o2o_last_modified (this c) (row, col)"
    using o2o_erase_view [OF inv2] ne by (simp add: o2o_erase_view [OF inv])
  ultimately have "o2o_room (row, col) (this c) (this ?c4)"
    using o2o_fits_present [OF inv r(5)] o2o_fits_present [OF inv q(5)] new ne
    by (auto simp: o2o_room_def o2o_fits_def o2o_elems_None [OF inv])
  moreover have "o2o_evict GetRow GetCol row col now c1 = Some (CtxNow ?c4)"
    using p assms(5) r q by (simp add: o2o_evict_def Let_def s1 now2 s3)
  ultimately show ?thesis using logged_trans [OF log2 log4] by blast
qed

lemma o2o_evict_one:
  assumes now: "CtxNow c = (now, c1)" and inv: "o2o_inv GetRow GetCol (this c)"
    and new: "el_map (o2o_elements (this c)) (row, col) = None"
    and p: "el_map (o2o_elements (this c)) (r, cc) = Some p"
    and or: "o2o_forward (this c) row = Some p \<and> o2o_transposed (this c) col = None \<and> r = row \<or>
      o2o_forward (this c) row = None \<and> o2o_transposed (this c) col = Some p \<and> cc = col"
  shows "\<exists>c0. o2o_evict GetRow GetCol row col now c1 = Some (CtxNow c0) \<and>
    o2o_logged GetRow GetCol c c0 \<and> o2o_room (row, col) (this c) (this c0)"
proof -
  note s1 = CtxNow_simps [OF now]
  from p obtain t u where t: "el_heap (o2o_elements (this c)) p = Some t" "GetRow t = r" "GetCol t = cc"
    "o2o_elems (this c) (r, cc) = Some t" "o2o_last_modified (this c) (r, cc) = Some u"
    by (rule o2o_live [OF inv])
  let ?c2 = "(LogMutation (matrix_deleted_event GetRow GetCol now t)
    (o2o_DoUpdateWithLastModified u (r, cc) t) c1)
    \<lparr>this := o2o_DoEraseWithLastModified now (r, cc) (this c)\<rparr>"
  note log2 = o2o.erase_logged [OF now inv t(4,5)]
  have ne: "(r, cc) \<noteq> (row, col)" using new p by auto
  have free: "el_map (o2o_elements (this c)) (row, x) = None" if "o2o_forward (this c) row = None" for x
    using that inv unfolding o2o_inv_def row_index_def by (metis not_Some_eq)
  have free': "el_map (o2o_elements (this c)) (x, col) = None" if "o2o_transposed (this c) col = None" for x
    using that inv unfolding o2o_inv_def col_index_def by (metis not_Some_eq)
  have "o2o_room (row, col) (this c) (this ?c2)"
    using o2o_fits_present [OF inv t(4)] new ne or free free'
    by (auto simp: o2o_room_def o2o_fits_def o2o_erase_view [OF inv] o2o_elems_None [OF inv])
  moreover have "o2o_evict GetRow GetCol row col now c1 = Some (CtxNow ?c2)"
    using or t by (auto simp: o2o_evict_def Let_def s1)
  ultimately show ?thesis using log2 by blast
qed

lemma o2o_Add_logged:
  assumes inv: "o2o_inv GetRow GetCol (this c)"
  shows "\<exists>c'. o2o_Add GetRow GetCol object c = Some c' \<and> o2o_logged GetRow GetCol c c' \<and>
    o2o_elems (this c') = o2o_with GetRow GetCol object (o2o_elems (this c))"
proof -
  obtain now c1 where now: "CtxNow c = (now, c1)" by (cases "CtxNow c")
  note s1 = CtxNow_simps [OF now]
  let ?row = "GetRow object" and ?col = "GetCol object"
  let ?k = "(?row, ?col)"
  show ?thesis
  proof (cases "el_map (o2o_elements (this c)) ?k")
    case (Some p)
    then obtain t u where t: "el_heap (o2o_elements (this c)) p = Some t"
      "o2o_elems (this c) ?k = Some t" "o2o_last_modified (this c) ?k = Some u"
      by (rule o2o_live [OF inv])
    then show ?thesis
      using Some o2o.overwrite_logged [OF now inv refl t(2,3)] o2o_fits_present [OF inv t(2)]
      by (simp add: o2o_Add_def Let_def now s1 o2o_with_fits o2o_update_ok [OF inv] entry_key_def)
  next
    case None
    have "\<exists>c0. o2o_evict GetRow GetCol ?row ?col now c1 = Some (CtxNow c0) \<and>
      o2o_logged GetRow GetCol c c0 \<and> o2o_room ?k (this c) (this c0)"
    proof (cases "o2o_forward (this c) ?row"; cases "o2o_transposed (this c) ?col")
      assume free: "o2o_forward (this c) ?row = None" "o2o_transposed (this c) ?col = None"
      have "el_map (o2o_elements (this c)) (?row, x) = None" "el_map (o2o_elements (this c)) (y, ?col) = None"
        for x y using free inv unfolding o2o_inv_def row_index_def col_index_def by (metis not_Some_eq)+
      then have "o2o_room ?k (this c) (this c)"
        by (auto simp: o2o_room_def o2o_fits_def o2o_elems_None [OF inv])
      with free show ?thesis
        using now logged_refl [of "o2o_inv GetRow GetCol" c, OF inv] by (auto simp: o2o_evict_def s1 intro!: exI [of _ c])
    next
      fix p q assume "o2o_forward (this c) ?row = Some p" "o2o_transposed (this c) ?col = Some q"
      then show ?thesis by (rule o2o_evict_both [OF now inv None])
    next
      fix p assume p: "o2o_forward (this c) ?row = Some p" "o2o_transposed (this c) ?col = None"
      from p(1) obtain x where "el_map (o2o_elements (this c)) (?row, x) = Some p"
        by (rule o2o_forward_live [OF inv])
      then show ?thesis by (rule o2o_evict_one [OF now inv None]) (simp add: p)
    next
      fix p assume p: "o2o_forward (this c) ?row = None" "o2o_transposed (this c) ?col = Some p"
      from p(2) obtain x where "el_map (o2o_elements (this c)) (x, ?col) = Some p"
        by (rule o2o_transposed_live [OF inv])
      then show ?thesis by (rule o2o_evict_one [OF now inv None]) (simp add: p)
    qed
    then obtain c0 where c0: "o2o_evict GetRow GetCol ?row ?col now c1 = Some (CtxNow c0)"
      "o2o_logged GetRow GetCol c c0" "o2o_room ?k (this c) (this c0)" by blast
    then have inv0: "o2o_inv GetRow GetCol (this c0)" by (simp add: logged_def)
    obtain now0 c00 where now0: "CtxNow c0 = (now0, c00)" by (cases "CtxNow c0")
    note log = o2o.insert_logged [OF now0 inv0 refl _ _ refl, of object]
    have fits: "o2o_elems (this c0) ?k = None" "o2o_fits ?k (o2o_elems (this c0))"
      "o2o_last_modified (this c0) ?k = o2o_last_modified (this c) ?k"
      using c0(3) by (simp_all add: o2o_room_def)
    have "o2o_elems (o2o_DoUpdateWithLastModified now0 ?k object (this c0)) =
        o2o_with GetRow GetCol object (o2o_elems (this c))"
      using fits(2) o2o_with_room [of GetRow object GetCol, OF c0(3)] by (simp add: o2o_update_ok [OF inv0] entry_key_def)
    then show ?thesis
      using None c0(1) now0 logged_trans [OF c0(2) log [OF fits(1,2)]] CtxNow_simps [OF now0]
      by (auto simp: o2o_Add_def Let_def now s1 fits(3) split: option.splits)
  qed
qed

subsection \<open>What the getters read\<close>

lemma o2o_via_map:
  assumes "o2o_inv GetRow GetCol s"
  shows "o2o_via s (el_map (o2o_elements s) k) = Some (o2o_elems s k)"
proof (cases "el_map (o2o_elements s) k")
  case (Some p)
  with el_inv_live [OF o2o_inv_el [OF assms] this] show ?thesis
    by (auto simp: o2o_via_def o2o_elems_def el_view_def)
qed (simp add: o2o_via_def o2o_elems_def el_view_def)

lemma o2o_get_elems: "o2o_inv GetRow GetCol s \<Longrightarrow> o2o_get k s = Some (o2o_elems s k)"
  by (simp add: o2o_get_def o2o_via_map)

lemma o2o_elemsE:
  assumes "o2o_inv GetRow GetCol s" "o2o_elems s (r, c) = Some t"
  obtains p where "el_map (o2o_elements s) (r, c) = Some p" "el_heap (o2o_elements s) p = Some t"
    "o2o_forward s r = Some p" "o2o_transposed s c = Some p"
proof -
  from assms(2) obtain p where p: "el_map (o2o_elements s) (r, c) = Some p" "el_heap (o2o_elements s) p = Some t"
    by (auto simp: o2o_elems_def el_view_Some [OF o2o_inv_el [OF assms(1)]])
  with assms(1) have "o2o_forward s r = Some p" "o2o_transposed s c = Some p"
    by (auto simp: o2o_inv_def row_index_def col_index_def)
  with p show ?thesis by (rule that)
qed

lemma o2o_GetEntryFromRow_Some:
  assumes "o2o_inv GetRow GetCol s"
  shows "o2o_GetEntryFromRow row s = Some (Some t) \<longleftrightarrow> o2o_elems s (row, GetCol t) = Some t"
proof
  assume l: "o2o_GetEntryFromRow row s = Some (Some t)"
  then obtain p where p: "o2o_forward s row = Some p" "el_heap (o2o_elements s) p = Some t"
    by (auto simp: o2o_GetEntryFromRow_def o2o_via_def split: option.splits bind_splits)
  show "o2o_elems s (row, GetCol t) = Some t"
    by (rule o2o_forward_live [OF assms p(1)]) (use p(2) in simp)
next
  assume "o2o_elems s (row, GetCol t) = Some t"
  then show "o2o_GetEntryFromRow row s = Some (Some t)"
    by (rule o2o_elemsE [OF assms]) (simp add: o2o_GetEntryFromRow_def o2o_via_def)
qed

lemma o2o_GetEntryFromCol_Some:
  assumes "o2o_inv GetRow GetCol s"
  shows "o2o_GetEntryFromCol col s = Some (Some t) \<longleftrightarrow> o2o_elems s (GetRow t, col) = Some t"
proof
  assume l: "o2o_GetEntryFromCol col s = Some (Some t)"
  then obtain p where p: "o2o_transposed s col = Some p" "el_heap (o2o_elements s) p = Some t"
    by (auto simp: o2o_GetEntryFromCol_def o2o_via_def split: option.splits bind_splits)
  show "o2o_elems s (GetRow t, col) = Some t"
    by (rule o2o_transposed_live [OF assms p(1)]) (use p(2) in simp)
next
  assume "o2o_elems s (GetRow t, col) = Some t"
  then show "o2o_GetEntryFromCol col s = Some (Some t)"
    by (rule o2o_elemsE [OF assms]) (simp add: o2o_GetEntryFromCol_def o2o_via_def)
qed

lemma o2o_elems_unique:
  assumes "o2o_inv GetRow GetCol s" "o2o_elems s (r, c) = Some t" "o2o_elems s (r', c') = Some t'"
  shows "r = r' \<longleftrightarrow> c = c'"
proof -
  have "\<forall>x y. (x = r \<or> y = c) \<longrightarrow> (x, y) \<noteq> (r, c) \<longrightarrow> o2o_elems s (x, y) = None"
    using o2o_fits_present [OF assms(1,2)] by (simp add: o2o_fits_def)
  from this [rule_format, of r' c'] assms(3) show ?thesis by auto
qed

lemma o2o_getters_defined:
  assumes "o2o_inv GetRow GetCol s"
  shows "o2o_GetEntryFromRow row s \<noteq> None" "o2o_GetEntryFromCol col s \<noteq> None"
proof -
  show "o2o_GetEntryFromRow row s \<noteq> None"
  proof (cases "o2o_forward s row")
    case (Some p)
    then show ?thesis
      by (rule o2o_forward_live [OF assms]) (simp add: o2o_GetEntryFromRow_def o2o_via_def Some)
  qed (simp add: o2o_GetEntryFromRow_def o2o_via_def)
  show "o2o_GetEntryFromCol col s \<noteq> None"
  proof (cases "o2o_transposed s col")
    case (Some p)
    then show ?thesis
      by (rule o2o_transposed_live [OF assms]) (simp add: o2o_GetEntryFromCol_def o2o_via_def Some)
  qed (simp add: o2o_GetEntryFromCol_def o2o_via_def)
qed

interpretation o2o_field: journaled_field "o2o_inv GetRow GetCol" o2o_view "o2o_apply GetRow GetCol"
  matrix_event_us "o2o_run GetRow GetCol" "\<lambda>_. True"
  for GetRow :: "'t \<Rightarrow> 'r" and GetCol :: "'t \<Rightarrow> 'c"
proof
  fix c :: "('r, 'c, 't) o2o_ctx" and op
  assume "o2o_inv GetRow GetCol (this c)"
  then show "\<exists>c'. o2o_run GetRow GetCol op c = Some c' \<and> o2o_logged GetRow GetCol c c'"
    using o2o_Add_logged [of GetRow GetCol c]
    by (cases op) (auto simp: o2o_Erase_logged o2o_EraseRow_logged o2o_EraseCol_logged)
qed

subsection \<open>Properties\<close>

text \<open>
  C12: \<^verbatim>\<open>Add\<close> on a well-formed one-to-one container never dereferences a dangling pointer and leaves the
  container well-formed.  Afterwards the entry is found by its key, by its row and by its column; every
  entry that shared its row or its column is gone, and all the others are still there.
\<close>

theorem one_to_one_add:
  assumes "o2o_inv GetRow GetCol (this c)"
  shows "\<exists>c'. o2o_Add GetRow GetCol object c = Some c' \<and> o2o_inv GetRow GetCol (this c') \<and>
    o2o_GetEntryFromRow (GetRow object) (this c') = Some (Some object) \<and>
    o2o_GetEntryFromCol (GetCol object) (this c') = Some (Some object) \<and>
    (\<forall>row col. o2o_get (row, col) (this c') =
       (if row = GetRow object \<and> col = GetCol object then Some (Some object)
        else if row = GetRow object \<or> col = GetCol object then Some None
        else o2o_get (row, col) (this c)))"
proof -
  from o2o_Add_logged [OF assms, of object] obtain c' where c': "o2o_Add GetRow GetCol object c = Some c'"
    "o2o_inv GetRow GetCol (this c')" "o2o_elems (this c') = o2o_with GetRow GetCol object (o2o_elems (this c))"
    by (auto simp: logged_def)
  then show ?thesis
    using assms by (auto simp: o2o_GetEntryFromRow_Some o2o_GetEntryFromCol_Some o2o_get_elems o2o_with_def)
qed

theorem one_to_one_add_witness:
  "\<exists>c'. o2o_Add fst snd (1 :: int, 2 :: int) (fresh_ctx o2o_empty) = Some c' \<and>
     o2o_GetEntryFromCol 2 (this c') = Some (Some (1, 2))"
  using one_to_one_add [of fst snd "fresh_ctx o2o_empty" "(1 :: int, 2 :: int)"]
  by (auto simp: o2o_inv_empty)

text \<open>
  C13: The three indexes of a well-formed one-to-one container agree: a row getter and a column getter
  always read live memory, they return exactly the entries that are stored under some key with that
  row or column, and a row or a column holds at most one entry.
\<close>

theorem one_to_one_indexes:
  assumes "o2o_inv GetRow GetCol s"
  shows "o2o_GetEntryFromRow row s \<noteq> None \<and> o2o_GetEntryFromCol col s \<noteq> None \<and>
    (o2o_GetEntryFromRow row s = Some (Some t) \<longleftrightarrow> o2o_get (row, GetCol t) s = Some (Some t)) \<and>
    (o2o_GetEntryFromCol col s = Some (Some t) \<longleftrightarrow> o2o_get (GetRow t, col) s = Some (Some t)) \<and>
    (o2o_get (row, col) s = Some (Some t) \<and> o2o_get (row, col') s = Some (Some t') \<longrightarrow> col = col') \<and>
    (o2o_get (row, col) s = Some (Some t) \<and> o2o_get (row', col) s = Some (Some t') \<longrightarrow> row = row')"
  using o2o_getters_defined [OF assms] o2o_elems_unique [OF assms, of row col t row col' t']
    o2o_elems_unique [OF assms, of row col t row' col t']
  by (simp only: o2o_get_elems [OF assms] o2o_GetEntryFromRow_Some [OF assms] o2o_GetEntryFromCol_Some [OF assms]
      option.inject) simp

definition o2o_single :: "(int, int, int \<times> int) one_to_one" where
  "o2o_single = o2o_DoUpdateWithLastModified 5 (1, 2) (1, 2) o2o_empty"

theorem one_to_one_indexes_witness:
  "o2o_inv fst snd o2o_single \<and> o2o_get (1, 2) o2o_single = Some (Some (1, 2)) \<and>
   o2o_GetEntryFromRow 1 o2o_single = Some (Some (1, 2))"
proof -
  have inv: "o2o_inv fst snd o2o_single"
    unfolding o2o_single_def
    by (rule o2o_update_ok(1) [OF o2o_inv_empty]) (simp_all add: entry_key_def o2o_fits_def o2o_elems_def o2o_empty_def el_view_def el_empty_def)
  have get: "o2o_get (1, 2) o2o_single = Some (Some (1, 2))"
    by (simp add: o2o_single_def o2o_get_def o2o_via_def o2o_DoUpdateWithLastModified_def o2o_empty_def el_empty_def
        el_emplace_def Let_def)
  have "o2o_GetEntryFromRow 1 o2o_single = Some (Some (1, 2)) \<longleftrightarrow> o2o_get (1, snd (1, 2)) o2o_single = Some (Some (1, 2))"
    using one_to_one_indexes [OF inv, of 1 2 "(1, 2)" 2 "(1, 2)" 1] by (intro iffI) (elim conjE, simp)+
  with get inv show ?thesis by simp
qed

end
