(* ===== verification/OneToMany.thy ===== *)
theory OneToMany
  imports Elements
begin

text \<open>
  \<^verbatim>\<open>GenericOneToMany\<close> of \<^verbatim>\<open>src/storage/container/one_to_many.h\<close>: a row has many columns, a column
  belongs to at most one row.  \<^verbatim>\<open>forward_\<close> is a table of rows, \<^verbatim>\<open>transposed_\<close> has one pointer per
  column.
\<close>

record ('r, 'c, 't) one_to_many =
  o2m_elements :: "('r \<times> 'c, 't) elements"
  o2m_forward :: "'r \<rightharpoonup> 'c \<rightharpoonup> nat"
  o2m_transposed :: "'c \<rightharpoonup> nat"
  o2m_last_modified :: "'r \<times> 'c \<rightharpoonup> microseconds"

type_synonym ('r, 'c, 't) o2m_ctx = "(('r, 'c, 't) matrix_event, ('r, 'c, 't) one_to_many) ctx"

definition o2m_empty :: "('r, 'c, 't) one_to_many" where
  "o2m_empty = \<lparr>o2m_elements = el_empty, o2m_forward = Map.empty, o2m_transposed = Map.empty,
                o2m_last_modified = Map.empty\<rparr>"

definition o2m_Empty :: "('r, 'c, 't) one_to_many \<Rightarrow> bool" where
  "o2m_Empty s \<longleftrightarrow> el_map (o2m_elements s) = Map.empty"

definition o2m_Size :: "('r, 'c, 't) one_to_many \<Rightarrow> nat" where
  "o2m_Size s = card (dom (el_map (o2m_elements s)))"

definition o2m_Has :: "'r \<times> 'c \<Rightarrow> ('r, 'c, 't) one_to_many \<Rightarrow> bool" where
  "o2m_Has key s \<longleftrightarrow> el_map (o2m_elements s) key \<noteq> None"

subsection \<open>The private mutations\<close>

definition o2m_DoUpdateWithLastModified ::
  "microseconds \<Rightarrow> 'r \<times> 'c \<Rightarrow> 't \<Rightarrow> ('r, 'c, 't) one_to_many \<Rightarrow> ('r, 'c, 't) one_to_many" where
  "o2m_DoUpdateWithLastModified us key object s =
     (let s = s\<lparr>o2m_last_modified := (o2m_last_modified s)(key \<mapsto> us)\<rparr>;
          (placeholder, e) = el_emplace key object (o2m_elements s)
      in s\<lparr>o2m_elements := e,
           o2m_forward := table_put (fst key) (snd key) placeholder (o2m_forward s),
           o2m_transposed := (o2m_transposed s)(snd key \<mapsto> placeholder)\<rparr>)"

definition o2m_DoEraseWithoutTouchingLastModified ::
  "'r \<times> 'c \<Rightarrow> ('r, 'c, 't) one_to_many \<Rightarrow> ('r, 'c, 't) one_to_many" where
  "o2m_DoEraseWithoutTouchingLastModified key s =
     s\<lparr>o2m_forward := table_erase (fst key) (snd key) (o2m_forward s),
       o2m_transposed := (o2m_transposed s)(snd key := None),
       o2m_elements := el_erase key (o2m_elements s)\<rparr>"

definition o2m_DoEraseWithLastModified ::
  "microseconds \<Rightarrow> 'r \<times> 'c \<Rightarrow> ('r, 'c, 't) one_to_many \<Rightarrow> ('r, 'c, 't) one_to_many" where
  "o2m_DoEraseWithLastModified us key s =
     o2m_DoEraseWithoutTouchingLastModified key
       (s\<lparr>o2m_last_modified := (o2m_last_modified s)(key \<mapsto> us)\<rparr>)"

text \<open>The closure \<^verbatim>\<open>[this, key]() { last_modified_.erase(key); DoEraseWithoutTouchingLastModified(key); }\<close>\<close>

definition o2m_forget :: "'r \<times> 'c \<Rightarrow> ('r, 'c, 't) one_to_many \<Rightarrow> ('r, 'c, 't) one_to_many" where
  "o2m_forget key s =
     o2m_DoEraseWithoutTouchingLastModified key
       (s\<lparr>o2m_last_modified := (o2m_last_modified s)(key := None)\<rparr>)"

subsection \<open>The public operations\<close>

text \<open>The part of \<^verbatim>\<open>Add\<close> that removes the entry of another row from the column.\<close>

definition o2m_evict ::
  "('t \<Rightarrow> 'r) \<Rightarrow> ('t \<Rightarrow> 'c) \<Rightarrow> 'c \<Rightarrow> microseconds \<Rightarrow> ('r, 'c, 't) o2m_ctx \<Rightarrow>
   (microseconds \<times> ('r, 'c, 't) o2m_ctx) option" where
  "o2m_evict GetRow GetCol col now c =
     (let s = this c in
      case o2m_transposed s col of
        Some p \<Rightarrow> do {
          conflicting_object \<leftarrow> el_heap (o2m_elements s) p;
          let conflicting_object_key = (GetRow conflicting_object, col);
          conflicting_object_timestamp \<leftarrow> o2m_last_modified s conflicting_object_key;
          let c = LogMutation (matrix_deleted_event GetRow GetCol now conflicting_object)
                    (o2m_DoUpdateWithLastModified conflicting_object_timestamp conflicting_object_key
                       conflicting_object) c;
          let c = c\<lparr>this := o2m_DoEraseWithLastModified now conflicting_object_key (this c)\<rparr>;
          Some (CtxNow c) }
      | None \<Rightarrow> Some (now, c))"

definition o2m_Add ::
  "('t \<Rightarrow> 'r) \<Rightarrow> ('t \<Rightarrow> 'c) \<Rightarrow> 't \<Rightarrow> ('r, 'c, 't) o2m_ctx \<Rightarrow> ('r, 'c, 't) o2m_ctx option" where
  "o2m_Add GetRow GetCol object c =
     (let (now, c) = CtxNow c; row = GetRow object; col = GetCol object; key = (row, col);
          s = this c in
      case el_map (o2m_elements s) key of
        Some p \<Rightarrow> do {
          previous_object \<leftarrow> el_heap (o2m_elements s) p;
          previous_timestamp \<leftarrow> o2m_last_modified s key;
          let c = LogMutation (MatrixUpdated now object)
                    (o2m_DoUpdateWithLastModified previous_timestamp key previous_object) c;
          Some (c\<lparr>this := o2m_DoUpdateWithLastModified now key object (this c)\<rparr>) }
      | None \<Rightarrow> do {
          (now, c) \<leftarrow> o2m_evict GetRow GetCol col now c;
          rollback \<leftarrow> (if o2m_last_modified s key \<noteq> None
                       then do { previous_timestamp \<leftarrow> o2m_last_modified (this c) key;
                                 Some (o2m_DoEraseWithLastModified previous_timestamp key) }
                       else Some (o2m_forget key));
          let c = LogMutation (MatrixUpdated now object) rollback c;
          Some (c\<lparr>this := o2m_DoUpdateWithLastModified now key object (this c)\<rparr>) })"

text \<open>The common body of \<^verbatim>\<open>Erase\<close> and \<^verbatim>\<open>EraseCol\<close> once the pointer to the entry is found.\<close>

definition o2m_erase_entry ::
  "('t \<Rightarrow> 'r) \<Rightarrow> ('t \<Rightarrow> 'c) \<Rightarrow> microseconds \<Rightarrow> ('t \<Rightarrow> 'r \<times> 'c) \<Rightarrow> nat \<Rightarrow> ('r, 'c, 't) o2m_ctx \<Rightarrow>
   ('r, 'c, 't) o2m_ctx option" where
  "o2m_erase_entry GetRow GetCol now key_of p c =
     (let s = this c in do {
        previous_object \<leftarrow> el_heap (o2m_elements s) p;
        let key = key_of previous_object;
        previous_timestamp \<leftarrow> o2m_last_modified s key;
        let c = LogMutation (matrix_deleted_event GetRow GetCol now previous_object)
                  (o2m_DoUpdateWithLastModified previous_timestamp key previous_object) c;
        Some (c\<lparr>this := o2m_DoEraseWithLastModified now key (this c)\<rparr>) })"

definition o2m_Erase ::
  "('t \<Rightarrow> 'r) \<Rightarrow> ('t \<Rightarrow> 'c) \<Rightarrow> 'r \<times> 'c \<Rightarrow> ('r, 'c, 't) o2m_ctx \<Rightarrow> ('r, 'c, 't) o2m_ctx option" where
  "o2m_Erase GetRow GetCol key c =
     (let (now, c) = CtxNow c in
      case el_map (o2m_elements (this c)) key of
        Some p \<Rightarrow> o2m_erase_entry GetRow GetCol now (\<lambda>_. key) p c
      | None \<Rightarrow> Some c)"

definition o2m_EraseCol ::
  "('t \<Rightarrow> 'r) \<Rightarrow> ('t \<Rightarrow> 'c) \<Rightarrow> 'c \<Rightarrow> ('r, 'c, 't) o2m_ctx \<Rightarrow> ('r, 'c, 't) o2m_ctx option" where
  "o2m_EraseCol GetRow GetCol col c =
     (let (now, c) = CtxNow c in
      case o2m_transposed (this c) col of
        Some p \<Rightarrow> o2m_erase_entry GetRow GetCol now (\<lambda>previous_object. (GetRow previous_object, col)) p c
      | None \<Rightarrow> Some c)"

definition o2m_via :: "('r, 'c, 't) one_to_many \<Rightarrow> nat option \<Rightarrow> 't option option" where
  "o2m_via s found =
     (case found of
        Some p \<Rightarrow> do { t \<leftarrow> el_heap (o2m_elements s) p; Some (Some t) }
      | None \<Rightarrow> Some None)"

definition o2m_get :: "'r \<times> 'c \<Rightarrow> ('r, 'c, 't) one_to_many \<Rightarrow> 't option option" where
  "o2m_get key s = o2m_via s (el_map (o2m_elements s) key)"

definition o2m_GetEntryFromCol :: "'c \<Rightarrow> ('r, 'c, 't) one_to_many \<Rightarrow> 't option option" where
  "o2m_GetEntryFromCol col s = o2m_via s (o2m_transposed s col)"

definition o2m_LastModified :: "'r \<times> 'c \<Rightarrow> ('r, 'c, 't) one_to_many \<Rightarrow> microseconds option" where
  "o2m_LastModified key s = o2m_last_modified s key"

definition o2m_DoesNotConflict :: "'r \<times> 'c \<Rightarrow> ('r, 'c, 't) one_to_many \<Rightarrow> bool" where
  "o2m_DoesNotConflict key s \<longleftrightarrow> o2m_transposed s (snd key) = None"

text \<open>
  The accessors: \<^verbatim>\<open>Rows().Has(row)\<close> and \<^verbatim>\<open>Row(row)\<close>, the map of the columns of one row (an empty map
  for a row that is not there), each element read through its pointer.
\<close>

definition o2m_Rows_Empty :: "('r, 'c, 't) one_to_many \<Rightarrow> bool" where
  "o2m_Rows_Empty s \<longleftrightarrow> o2m_forward s = Map.empty"

definition o2m_Rows_Size :: "('r, 'c, 't) one_to_many \<Rightarrow> nat" where
  "o2m_Rows_Size s = card (dom (o2m_forward s))"

definition o2m_Rows_Has :: "'r \<Rightarrow> ('r, 'c, 't) one_to_many \<Rightarrow> bool" where
  "o2m_Rows_Has x s \<longleftrightarrow> o2m_forward s x \<noteq> None"

definition o2m_Row :: "'r \<Rightarrow> ('r, 'c, 't) one_to_many \<Rightarrow> 'c \<Rightarrow> 't option option" where
  "o2m_Row row s col =
     o2m_via s ((case o2m_forward s row of Some elements \<Rightarrow> elements | None \<Rightarrow> Map.empty) col)"

fun o2m_apply ::
  "('t \<Rightarrow> 'r) \<Rightarrow> ('t \<Rightarrow> 'c) \<Rightarrow> ('r, 'c, 't) matrix_event \<Rightarrow> ('r, 'c, 't) one_to_many \<Rightarrow> ('r, 'c, 't) one_to_many" where
  "o2m_apply GetRow GetCol (MatrixUpdated us data) s =
     o2m_DoUpdateWithLastModified us (GetRow data, GetCol data) data s"
| "o2m_apply GetRow GetCol (MatrixDeleted us key) s =
     o2m_DoEraseWithLastModified us (fst key, snd key) s"

datatype ('r, 'c, 't) o2m_op = O2MAdd 't | O2MErase "'r \<times> 'c" | O2MEraseCol 'c

fun o2m_run ::
  "('t \<Rightarrow> 'r) \<Rightarrow> ('t \<Rightarrow> 'c) \<Rightarrow> ('r, 'c, 't) o2m_op \<Rightarrow> ('r, 'c, 't) o2m_ctx \<Rightarrow> ('r, 'c, 't) o2m_ctx option" where
  "o2m_run GetRow GetCol (O2MAdd object) c = o2m_Add GetRow GetCol object c"
| "o2m_run GetRow GetCol (O2MErase key) c = o2m_Erase GetRow GetCol key c"
| "o2m_run GetRow GetCol (O2MEraseCol col) c = o2m_EraseCol GetRow GetCol col c"

subsection \<open>Well-formedness\<close>

definition o2m_inv :: "('t \<Rightarrow> 'r) \<Rightarrow> ('t \<Rightarrow> 'c) \<Rightarrow> ('r, 'c, 't) one_to_many \<Rightarrow> bool" where
  "o2m_inv GetRow GetCol s \<longleftrightarrow>
     el_inv (entry_key GetRow GetCol) (o2m_elements s) \<and>
     row_table (o2m_forward s) (el_map (o2m_elements s)) \<and>
     col_index (o2m_transposed s) (el_map (o2m_elements s)) \<and>
     (\<forall>k p. el_map (o2m_elements s) k = Some p \<longrightarrow> o2m_last_modified s k \<noteq> None)"

definition o2m_elems :: "('r, 'c, 't) one_to_many \<Rightarrow> 'r \<times> 'c \<rightharpoonup> 't" where
  "o2m_elems s = el_view (o2m_elements s)"

abbreviation o2m_view ::
  "('r, 'c, 't) one_to_many \<Rightarrow> ('r \<times> 'c \<rightharpoonup> 't) \<times> ('r \<times> 'c \<rightharpoonup> microseconds)" where
  "o2m_view s \<equiv> (o2m_elems s, o2m_last_modified s)"

definition o2m_fits :: "'r \<times> 'c \<Rightarrow> ('r \<times> 'c \<rightharpoonup> 't) \<Rightarrow> bool" where
  "o2m_fits k m \<longleftrightarrow> (\<forall>r. r \<noteq> fst k \<longrightarrow> m (r, snd k) = None)"

lemmas o2m_prims [container_simps] =
  o2m_DoUpdateWithLastModified_def o2m_DoEraseWithoutTouchingLastModified_def
  o2m_DoEraseWithLastModified_def o2m_forget_def

lemma o2m_inv_empty: "o2m_inv GetRow GetCol o2m_empty"
  by (simp add: o2m_inv_def o2m_empty_def el_inv_empty)
    (simp add: el_empty_def row_table_def table_lookup_def col_index_def)

lemma o2m_inv_el: "o2m_inv GetRow GetCol s \<Longrightarrow> el_inv (entry_key GetRow GetCol) (o2m_elements s)"
  by (simp add: o2m_inv_def)

lemma o2m_elems_None:
  "o2m_inv GetRow GetCol s \<Longrightarrow> o2m_elems s k = None \<longleftrightarrow> el_map (o2m_elements s) k = None"
  by (simp add: o2m_elems_def el_view_None [OF o2m_inv_el])

lemma o2m_unique:
  assumes "o2m_inv GetRow GetCol s" "el_map (o2m_elements s) (r, c) = Some p"
    "el_map (o2m_elements s) (r', c) = Some p'"
  shows "r = r'"
proof -
  from assms have "p = p'" unfolding o2m_inv_def col_index_def by (metis option.inject)
  with assms(2,3) el_inv_inj [OF o2m_inv_el [OF assms(1)]] show ?thesis by blast
qed

lemma o2m_fits_free:
  assumes "o2m_inv GetRow GetCol s"
  shows "o2m_fits k (o2m_elems s) \<longleftrightarrow> (\<forall>r. r \<noteq> fst k \<longrightarrow> el_map (o2m_elements s) (r, snd k) = None)"
  by (simp only: o2m_fits_def o2m_elems_None [OF assms])

lemma o2m_fits_present:
  assumes "o2m_inv GetRow GetCol s" "o2m_elems s k = Some t"
  shows "o2m_fits k (o2m_elems s)"
proof -
  obtain p where p: "el_map (o2m_elements s) (fst k, snd k) = Some p"
    using assms(2) by (auto simp: o2m_elems_def el_view_Some [OF o2m_inv_el [OF assms(1)]])
  have "el_map (o2m_elements s) (r, snd k) = None" if "r \<noteq> fst k" for r
    using that o2m_unique [OF assms(1) p, of r] by (cases "el_map (o2m_elements s) (r, snd k)") auto
  then show ?thesis by (simp add: o2m_fits_free [OF assms(1)])
qed

lemma o2m_fits_self: "o2m_fits k (m(k := x)) = o2m_fits k m"
  by (cases k) (simp add: o2m_fits_def)

lemma o2m_update_ok:
  assumes "o2m_inv GetRow GetCol s" "entry_key GetRow GetCol t = k" "o2m_fits k (o2m_elems s)"
  shows "o2m_inv GetRow GetCol (o2m_DoUpdateWithLastModified us k t s)"
    "o2m_elems (o2m_DoUpdateWithLastModified us k t s) = (o2m_elems s)(k \<mapsto> t)"
    "o2m_last_modified (o2m_DoUpdateWithLastModified us k t s) = (o2m_last_modified s)(k \<mapsto> us)"
proof -
  note el = o2m_inv_el [OF assms(1)]
  obtain r c where k: "k = (r, c)" by (cases k)
  have free: "\<And>r'. r' \<noteq> r \<Longrightarrow> el_map (o2m_elements s) (r', c) = None"
    using assms(3) unfolding o2m_fits_free [OF assms(1)] k by simp
  show "o2m_inv GetRow GetCol (o2m_DoUpdateWithLastModified us k t s)"
    using assms(1) el_inv_emplace [OF el assms(2)] free
    by (simp add: o2m_inv_def container_simps Let_def split_beta k index_upd)
  show "o2m_elems (o2m_DoUpdateWithLastModified us k t s) = (o2m_elems s)(k \<mapsto> t)"
    by (simp add: o2m_elems_def container_simps Let_def split_beta el_view_emplace [OF el])
  show "o2m_last_modified (o2m_DoUpdateWithLastModified us k t s) = (o2m_last_modified s)(k \<mapsto> us)"
    by (simp add: container_simps Let_def split_beta)
qed

lemma o2m_erase_inv:
  assumes "o2m_inv GetRow GetCol s" "o2m_elems s k = Some t"
    and lm: "\<And>k'. k' \<noteq> k \<Longrightarrow> lm k' = o2m_last_modified s k'"
  shows "o2m_inv GetRow GetCol
    (o2m_DoEraseWithoutTouchingLastModified k (s\<lparr>o2m_last_modified := lm\<rparr>))"
proof -
  obtain r c where k: "k = (r, c)" by (cases k)
  have free: "\<And>r'. r' \<noteq> r \<Longrightarrow> el_map (o2m_elements s) (r', c) = None"
    using o2m_fits_present [OF assms(1,2)] unfolding o2m_fits_free [OF assms(1)] k by simp
  show ?thesis
    using assms(1) el_inv_erase [OF o2m_inv_el [OF assms(1)], of k] free lm
    by (simp add: o2m_inv_def container_simps k index_del)
qed

lemma o2m_erase_view:
  assumes "o2m_inv GetRow GetCol s"
  shows "o2m_elems (o2m_DoEraseWithLastModified us k s) = (o2m_elems s)(k := None)"
    "o2m_last_modified (o2m_DoEraseWithLastModified us k s) = (o2m_last_modified s)(k \<mapsto> us)"
    "o2m_elems (o2m_forget k s) = (o2m_elems s)(k := None)"
    "o2m_last_modified (o2m_forget k s) = (o2m_last_modified s)(k := None)"
  by (simp_all add: container_simps o2m_elems_def el_view_erase [OF o2m_inv_el [OF assms]])

lemma o2m_erase_ok:
  assumes "o2m_inv GetRow GetCol s" "o2m_elems s k = Some t"
  shows "o2m_inv GetRow GetCol (o2m_DoEraseWithLastModified us k s)"
    "o2m_inv GetRow GetCol (o2m_forget k s)"
  unfolding o2m_DoEraseWithLastModified_def o2m_forget_def
  by (rule o2m_erase_inv [OF assms], simp)+

lemma o2m_inv_elems:
  assumes "o2m_inv GetRow GetCol s" "o2m_elems s k = Some t"
  shows "entry_key GetRow GetCol t = k \<and> o2m_last_modified s k \<noteq> None"
  using assms el_view_key [OF o2m_inv_el [OF assms(1)], of k t]
    el_view_Some [OF o2m_inv_el [OF assms(1)], of k t]
  by (cases k) (auto simp: o2m_elems_def o2m_inv_def)

interpretation o2m: matrix_container GetRow GetCol "o2m_inv GetRow GetCol" o2m_elems o2m_last_modified
  o2m_fits o2m_DoUpdateWithLastModified o2m_DoEraseWithLastModified o2m_forget "o2m_apply GetRow GetCol"
  for GetRow :: "'t \<Rightarrow> 'r" and GetCol :: "'t \<Rightarrow> 'c"
  by unfold_locales
    (simp_all add: o2m_inv_elems o2m_fits_present o2m_fits_self o2m_update_ok o2m_erase_ok o2m_erase_view)

subsection \<open>Every operation is logged\<close>

abbreviation o2m_logged ::
  "('t \<Rightarrow> 'r) \<Rightarrow> ('t \<Rightarrow> 'c) \<Rightarrow> ('r, 'c, 't) o2m_ctx \<Rightarrow> ('r, 'c, 't) o2m_ctx \<Rightarrow> bool" where
  "o2m_logged GetRow GetCol \<equiv>
     logged (o2m_inv GetRow GetCol) o2m_view (o2m_apply GetRow GetCol) matrix_event_us"

lemma o2m_live:
  assumes "o2m_inv GetRow GetCol s" "el_map (o2m_elements s) (r, c) = Some p"
  obtains t us where "el_heap (o2m_elements s) p = Some t" "GetRow t = r" "GetCol t = c"
    "o2m_elems s (r, c) = Some t" "o2m_last_modified s (r, c) = Some us"
proof -
  from el_inv_live [OF o2m_inv_el [OF assms(1)] assms(2)]
  obtain t where t: "el_heap (o2m_elements s) p = Some t" "GetRow t = r" "GetCol t = c"
    by (auto simp: entry_key_def)
  moreover from t(1) assms(2) have "o2m_elems s (r, c) = Some t"
    by (simp add: o2m_elems_def el_view_def)
  moreover from o2m_inv_elems [OF assms(1) this]
  obtain us where "o2m_last_modified s (r, c) = Some us" by auto
  ultimately show ?thesis by (rule that)
qed

lemma o2m_transposed_live:
  assumes "o2m_inv GetRow GetCol s" "o2m_transposed s c = Some p"
  obtains r t us where "el_map (o2m_elements s) (r, c) = Some p"
    "el_heap (o2m_elements s) p = Some t" "GetRow t = r" "GetCol t = c"
    "o2m_elems s (r, c) = Some t" "o2m_last_modified s (r, c) = Some us"
proof -
  from assms obtain r where r: "el_map (o2m_elements s) (r, c) = Some p"
    by (auto simp: o2m_inv_def col_index_def)
  show ?thesis by (rule o2m_live [OF assms(1) r]) (rule that [OF r])
qed

lemma o2m_erase_entry_logged:
  assumes now: "CtxNow c = (now, c1)" and inv: "o2m_inv GetRow GetCol (this c)"
    and p: "el_map (o2m_elements (this c)) k = Some p"
    and key: "\<And>t. entry_key GetRow GetCol t = k \<Longrightarrow> key_of t = k"
  shows "\<exists>c'. o2m_erase_entry GetRow GetCol now key_of p c1 = Some c' \<and> o2m_logged GetRow GetCol c c'"
proof -
  obtain r cc where k: "k = (r, cc)" by (cases k)
  from p obtain t us where t: "el_heap (o2m_elements (this c)) p = Some t" "GetRow t = r" "GetCol t = cc"
    "o2m_elems (this c) k = Some t" "o2m_last_modified (this c) k = Some us"
    unfolding k by (rule o2m_live [OF inv])
  then show ?thesis
    using o2m.erase_logged [OF now inv t(4,5)] key [of t] CtxNow_simps [OF now]
    by (simp add: o2m_erase_entry_def entry_key_def k Let_def)
qed

lemma o2m_Erase_logged:
  assumes inv: "o2m_inv GetRow GetCol (this c)"
  shows "\<exists>c'. o2m_Erase GetRow GetCol key c = Some c' \<and> o2m_logged GetRow GetCol c c'"
proof -
  obtain now c1 where now: "CtxNow c = (now, c1)" by (cases "CtxNow c")
  show ?thesis
    using o2m_erase_entry_logged [OF now inv] CtxNow_logged [OF now] inv
    by (auto simp: o2m_Erase_def Let_def now CtxNow_simps [OF now] split: option.splits)
qed

lemma o2m_EraseCol_logged:
  assumes inv: "o2m_inv GetRow GetCol (this c)"
  shows "\<exists>c'. o2m_EraseCol GetRow GetCol col c = Some c' \<and> o2m_logged GetRow GetCol c c'"
proof -
  obtain now c1 where now: "CtxNow c = (now, c1)" by (cases "CtxNow c")
  show ?thesis
  proof (cases "o2m_transposed (this c) col")
    case (Some p)
    then obtain row where "el_map (o2m_elements (this c)) (row, col) = Some p"
      by (rule o2m_transposed_live [OF inv])
    then show ?thesis
      using o2m_erase_entry_logged [OF now inv, of "(row, col)" p "\<lambda>t. (GetRow t, col)"] Some
      by (auto simp: o2m_EraseCol_def now CtxNow_simps [OF now] entry_key_def)
  qed (use CtxNow_logged [OF now] inv in \<open>auto simp: o2m_EraseCol_def now CtxNow_simps [OF now]\<close>)
qed

definition o2m_room :: "'r \<times> 'c \<Rightarrow> ('r, 'c, 't) one_to_many \<Rightarrow> ('r, 'c, 't) one_to_many \<Rightarrow> bool" where
  "o2m_room k s s' \<longleftrightarrow> o2m_elems s' k = None \<and> o2m_fits k (o2m_elems s') \<and>
     o2m_last_modified s' k = o2m_last_modified s k \<and>
     (\<forall>r c. c \<noteq> snd k \<longrightarrow> o2m_elems s' (r, c) = o2m_elems s (r, c))"

text \<open>The entries after \<^verbatim>\<open>Add\<close>: the new one, and those in another column.\<close>

definition o2m_with :: "('t \<Rightarrow> 'r) \<Rightarrow> ('t \<Rightarrow> 'c) \<Rightarrow> 't \<Rightarrow> ('r \<times> 'c \<rightharpoonup> 't) \<Rightarrow> 'r \<times> 'c \<rightharpoonup> 't" where
  "o2m_with GetRow GetCol t m k =
     (if k = (GetRow t, GetCol t) then Some t else if snd k = GetCol t then None else m k)"

lemma o2m_with_fits: "o2m_fits (GetRow t, GetCol t) m \<Longrightarrow> o2m_with GetRow GetCol t m = m((GetRow t, GetCol t) \<mapsto> t)"
  by (auto simp: o2m_with_def o2m_fits_def fun_eq_iff)

lemma o2m_with_room:
  assumes "o2m_room (GetRow t, GetCol t) s s'"
  shows "(o2m_elems s')((GetRow t, GetCol t) \<mapsto> t) = o2m_with GetRow GetCol t (o2m_elems s)"
proof
  fix k show "((o2m_elems s')((GetRow t, GetCol t) \<mapsto> t)) k = o2m_with GetRow GetCol t (o2m_elems s) k"
    using assms by (cases k) (auto simp: o2m_with_def o2m_room_def o2m_fits_def)
qed

lemma o2m_evict_logged:
  assumes now: "CtxNow c = (now, c1)" and inv: "o2m_inv GetRow GetCol (this c)"
    and new: "el_map (o2m_elements (this c)) (row, col) = None"
  shows "\<exists>c0. o2m_evict GetRow GetCol col now c1 = Some (CtxNow c0) \<and>
    o2m_logged GetRow GetCol c c0 \<and> o2m_room (row, col) (this c) (this c0)"
proof -
  note s1 = CtxNow_simps [OF now]
  show ?thesis
  proof (cases "o2m_transposed (this c) col")
    case None
    then have "el_map (o2m_elements (this c)) (x, col) = None" for x
      using inv unfolding o2m_inv_def col_index_def by (metis not_Some_eq)
    then have "o2m_room (row, col) (this c) (this c)"
      by (simp add: o2m_room_def o2m_fits_def o2m_elems_None [OF inv])
    with None show ?thesis
      using now logged_refl [of "o2m_inv GetRow GetCol" c, OF inv]
      by (auto simp: o2m_evict_def s1 intro!: exI [of _ c])
  next
    case (Some p)
    then obtain r t u where t: "el_map (o2m_elements (this c)) (r, col) = Some p"
      "el_heap (o2m_elements (this c)) p = Some t" "GetRow t = r" "GetCol t = col"
      "o2m_elems (this c) (r, col) = Some t" "o2m_last_modified (this c) (r, col) = Some u"
      by (rule o2m_transposed_live [OF inv])
    let ?c2 = "(LogMutation (matrix_deleted_event GetRow GetCol now t)
      (o2m_DoUpdateWithLastModified u (r, col) t) c1)
      \<lparr>this := o2m_DoEraseWithLastModified now (r, col) (this c)\<rparr>"
    note log2 = o2m.erase_logged [OF now inv t(5,6)]
    have "r \<noteq> row" using new t by auto
    then have "o2m_room (row, col) (this c) (this ?c2)"
      using o2m_fits_present [OF inv t(5)] new
      by (auto simp: o2m_room_def o2m_fits_def o2m_erase_view [OF inv] o2m_elems_None [OF inv])
    moreover have "o2m_evict GetRow GetCol col now c1 = Some (CtxNow ?c2)"
      using Some t by (simp add: o2m_evict_def Let_def s1)
    ultimately show ?thesis using log2 by blast
  qed
qed

lemma o2m_Add_logged:
  assumes inv: "o2m_inv GetRow GetCol (this c)"
  shows "\<exists>c'. o2m_Add GetRow GetCol object c = Some c' \<and> o2m_logged GetRow GetCol c c' \<and>
    o2m_elems (this c') = o2m_with GetRow GetCol object (o2m_elems (this c))"
proof -
  obtain now c1 where now: "CtxNow c = (now, c1)" by (cases "CtxNow c")
  note s1 = CtxNow_simps [OF now]
  let ?k = "(GetRow object, GetCol object)"
  show ?thesis
  proof (cases "el_map (o2m_elements (this c)) ?k")
    case (Some p)
    then obtain t u where t: "el_heap (o2m_elements (this c)) p = Some t"
      "o2m_elems (this c) ?k = Some t" "o2m_last_modified (this c) ?k = Some u"
      by (rule o2m_live [OF inv])
    then show ?thesis
      using Some o2m.overwrite_logged [OF now inv refl t(2,3)] o2m_fits_present [OF inv t(2)]
      by (simp add: o2m_Add_def Let_def now s1 o2m_with_fits o2m_update_ok [OF inv] entry_key_def)
  next
    case None
    from o2m_evict_logged [OF now inv None]
    obtain c0 where c0: "o2m_evict GetRow GetCol (GetCol object) now c1 = Some (CtxNow c0)"
      "o2m_logged GetRow GetCol c c0" "o2m_room ?k (this c) (this c0)" by blast
    then have inv0: "o2m_inv GetRow GetCol (this c0)" by (simp add: logged_def)
    obtain now0 c00 where now0: "CtxNow c0 = (now0, c00)" by (cases "CtxNow c0")
    note log = o2m.insert_logged [OF now0 inv0 refl _ _ refl, of object]
    have fits: "o2m_elems (this c0) ?k = None" "o2m_fits ?k (o2m_elems (this c0))"
      "o2m_last_modified (this c0) ?k = o2m_last_modified (this c) ?k"
      using c0(3) by (simp_all add: o2m_room_def)
    have "o2m_elems (o2m_DoUpdateWithLastModified now0 ?k object (this c0)) =
        o2m_with GetRow GetCol object (o2m_elems (this c))"
      using fits(2) o2m_with_room [of GetRow object GetCol, OF c0(3)]
      by (simp add: o2m_update_ok [OF inv0] entry_key_def)
    then show ?thesis
      using None c0(1) now0 logged_trans [OF c0(2) log [OF fits(1,2)]] CtxNow_simps [OF now0]
      by (auto simp: o2m_Add_def Let_def now s1 fits(3) split: option.splits)
  qed
qed

subsection \<open>What the getters read\<close>

lemma o2m_via_map:
  assumes "o2m_inv GetRow GetCol s"
  shows "o2m_via s (el_map (o2m_elements s) k) = Some (o2m_elems s k)"
proof (cases "el_map (o2m_elements s) k")
  case (Some p)
  with el_inv_live [OF o2m_inv_el [OF assms] this] show ?thesis
    by (auto simp: o2m_via_def o2m_elems_def el_view_def)
qed (simp add: o2m_via_def o2m_elems_def el_view_def)

lemma o2m_get_elems: "o2m_inv GetRow GetCol s \<Longrightarrow> o2m_get k s = Some (o2m_elems s k)"
  by (simp add: o2m_get_def o2m_via_map)

lemma o2m_Row_elems: "o2m_inv GetRow GetCol s \<Longrightarrow> o2m_Row row s col = Some (o2m_elems s (row, col))"
  using o2m_via_map [of GetRow GetCol s "(row, col)"]
  by (simp add: o2m_Row_def o2m_inv_def row_table_def table_lookup_def)

lemma o2m_Rows_Has_iff:
  assumes "o2m_inv GetRow GetCol s"
  shows "o2m_Rows_Has row s \<longleftrightarrow> (\<exists>col. o2m_elems s (row, col) \<noteq> None)"
proof -
  have "row_table (o2m_forward s) (el_map (o2m_elements s))"
    using assms by (simp add: o2m_inv_def)
  then show ?thesis
    by (simp only: o2m_Rows_Has_def row_table_find o2m_elems_None [OF assms] not_all)
qed

lemma o2m_GetEntryFromCol_Some:
  assumes "o2m_inv GetRow GetCol s"
  shows "o2m_GetEntryFromCol col s = Some (Some t) \<longleftrightarrow> o2m_elems s (GetRow t, col) = Some t"
proof
  assume l: "o2m_GetEntryFromCol col s = Some (Some t)"
  then obtain p where p: "o2m_transposed s col = Some p" "el_heap (o2m_elements s) p = Some t"
    by (auto simp: o2m_GetEntryFromCol_def o2m_via_def split: option.splits bind_splits)
  show "o2m_elems s (GetRow t, col) = Some t"
    by (rule o2m_transposed_live [OF assms p(1)]) (use p(2) in simp)
next
  assume r: "o2m_elems s (GetRow t, col) = Some t"
  then obtain p where p: "el_map (o2m_elements s) (GetRow t, col) = Some p" "el_heap (o2m_elements s) p = Some t"
    by (auto simp: o2m_elems_def el_view_Some [OF o2m_inv_el [OF assms]])
  with assms have "o2m_transposed s col = Some p" by (auto simp: o2m_inv_def col_index_def)
  with p show "o2m_GetEntryFromCol col s = Some (Some t)"
    by (simp add: o2m_GetEntryFromCol_def o2m_via_def)
qed

interpretation o2m_field: journaled_field "o2m_inv GetRow GetCol" o2m_view "o2m_apply GetRow GetCol"
  matrix_event_us "o2m_run GetRow GetCol" "\<lambda>_. True"
  for GetRow :: "'t \<Rightarrow> 'r" and GetCol :: "'t \<Rightarrow> 'c"
proof
  fix c :: "('r, 'c, 't) o2m_ctx" and op
  assume "o2m_inv GetRow GetCol (this c)"
  then show "\<exists>c'. o2m_run GetRow GetCol op c = Some c' \<and> o2m_logged GetRow GetCol c c'"
    using o2m_Add_logged [of GetRow GetCol c]
    by (cases op) (auto simp: o2m_Erase_logged o2m_EraseCol_logged)
qed

subsection \<open>Properties\<close>

text \<open>
  C14: \<^verbatim>\<open>Add\<close> on a well-formed one-to-many container never dereferences a dangling pointer and leaves the
  container well-formed.  Afterwards the entry is found by its key, in its row and by its column; an entry
  of another row in the same column is gone, from the row it was in as well, and all the others are still there.
\<close>

theorem one_to_many_add:
  assumes "o2m_inv GetRow GetCol (this c)"
  shows "\<exists>c'. o2m_Add GetRow GetCol object c = Some c' \<and> o2m_inv GetRow GetCol (this c') \<and>
    o2m_GetEntryFromCol (GetCol object) (this c') = Some (Some object) \<and>
    (\<forall>row col. o2m_Row row (this c') col = o2m_get (row, col) (this c') \<and>
       o2m_get (row, col) (this c') =
         (if row = GetRow object \<and> col = GetCol object then Some (Some object)
          else if col = GetCol object then Some None
          else o2m_get (row, col) (this c)))"
proof -
  from o2m_Add_logged [OF assms, of object] obtain c' where c': "o2m_Add GetRow GetCol object c = Some c'"
    "o2m_inv GetRow GetCol (this c')" "o2m_elems (this c') = o2m_with GetRow GetCol object (o2m_elems (this c))"
    by (auto simp: logged_def)
  then show ?thesis
    using assms by (auto simp: o2m_GetEntryFromCol_Some o2m_get_elems o2m_Row_elems o2m_with_def)
qed

theorem one_to_many_add_witness:
  "\<exists>c'. o2m_Add fst snd (1 :: int, 2 :: int) (fresh_ctx o2m_empty) = Some c' \<and>
     o2m_GetEntryFromCol 2 (this c') = Some (Some (1, 2))"
  using one_to_many_add [of fst snd "fresh_ctx o2m_empty" "(1 :: int, 2 :: int)"]
  by (auto simp: o2m_inv_empty)

end
