(* ===== verification/ManyToMany.thy ===== *)
theory ManyToMany
  imports Elements
begin

text \<open>
  \<^verbatim>\<open>GenericManyToMany\<close> of \<^verbatim>\<open>src/storage/container/many_to_many.h\<close>: any set of (row, column) pairs, with a
  table of rows \<^verbatim>\<open>forward_\<close> and a table of columns \<^verbatim>\<open>transposed_\<close>.
\<close>

record ('r, 'c, 't) many_to_many =
  m2m_elements :: "('r \<times> 'c, 't) elements"
  m2m_forward :: "'r \<rightharpoonup> 'c \<rightharpoonup> nat"
  m2m_transposed :: "'c \<rightharpoonup> 'r \<rightharpoonup> nat"
  m2m_last_modified :: "'r \<times> 'c \<rightharpoonup> microseconds"

type_synonym ('r, 'c, 't) m2m_ctx = "(('r, 'c, 't) matrix_event, ('r, 'c, 't) many_to_many) ctx"

definition m2m_empty :: "('r, 'c, 't) many_to_many" where
  "m2m_empty = \<lparr>m2m_elements = el_empty, m2m_forward = Map.empty, m2m_transposed = Map.empty,
                m2m_last_modified = Map.empty\<rparr>"

definition m2m_Empty :: "('r, 'c, 't) many_to_many \<Rightarrow> bool" where
  "m2m_Empty s \<longleftrightarrow> el_map (m2m_elements s) = Map.empty"

definition m2m_Size :: "('r, 'c, 't) many_to_many \<Rightarrow> nat" where
  "m2m_Size s = card (dom (el_map (m2m_elements s)))"

definition m2m_Has :: "'r \<times> 'c \<Rightarrow> ('r, 'c, 't) many_to_many \<Rightarrow> bool" where
  "m2m_Has key s \<longleftrightarrow> el_map (m2m_elements s) key \<noteq> None"

subsection \<open>The private mutations\<close>

definition m2m_DoUpdateWithLastModified ::
  "microseconds \<Rightarrow> 'r \<times> 'c \<Rightarrow> 't \<Rightarrow> ('r, 'c, 't) many_to_many \<Rightarrow> ('r, 'c, 't) many_to_many" where
  "m2m_DoUpdateWithLastModified us key object s =
     (let s = s\<lparr>m2m_last_modified := (m2m_last_modified s)(key \<mapsto> us)\<rparr>;
          (placeholder, e) = el_emplace key object (m2m_elements s)
      in s\<lparr>m2m_elements := e,
           m2m_forward := table_put (fst key) (snd key) placeholder (m2m_forward s),
           m2m_transposed := table_put (snd key) (fst key) placeholder (m2m_transposed s)\<rparr>)"

definition m2m_DoEraseWithoutTouchingLastModified ::
  "'r \<times> 'c \<Rightarrow> ('r, 'c, 't) many_to_many \<Rightarrow> ('r, 'c, 't) many_to_many" where
  "m2m_DoEraseWithoutTouchingLastModified key s =
     s\<lparr>m2m_forward := table_erase (fst key) (snd key) (m2m_forward s),
       m2m_transposed := table_erase (snd key) (fst key) (m2m_transposed s),
       m2m_elements := el_erase key (m2m_elements s)\<rparr>"

definition m2m_DoEraseWithLastModified ::
  "microseconds \<Rightarrow> 'r \<times> 'c \<Rightarrow> ('r, 'c, 't) many_to_many \<Rightarrow> ('r, 'c, 't) many_to_many" where
  "m2m_DoEraseWithLastModified us key s =
     m2m_DoEraseWithoutTouchingLastModified key
       (s\<lparr>m2m_last_modified := (m2m_last_modified s)(key \<mapsto> us)\<rparr>)"

text \<open>The closure \<^verbatim>\<open>[this, key]() { last_modified_.erase(key); DoEraseWithoutTouchingLastModified(key); }\<close>\<close>

definition m2m_forget :: "'r \<times> 'c \<Rightarrow> ('r, 'c, 't) many_to_many \<Rightarrow> ('r, 'c, 't) many_to_many" where
  "m2m_forget key s =
     m2m_DoEraseWithoutTouchingLastModified key
       (s\<lparr>m2m_last_modified := (m2m_last_modified s)(key := None)\<rparr>)"

subsection \<open>The public operations\<close>

definition m2m_Add ::
  "('t \<Rightarrow> 'r) \<Rightarrow> ('t \<Rightarrow> 'c) \<Rightarrow> 't \<Rightarrow> ('r, 'c, 't) m2m_ctx \<Rightarrow> ('r, 'c, 't) m2m_ctx option" where
  "m2m_Add GetRow GetCol object c =
     (let (now, c) = CtxNow c; row = GetRow object; col = GetCol object; key = (row, col);
          s = this c in
      case el_map (m2m_elements s) key of
        Some p \<Rightarrow> do {
          previous_object \<leftarrow> el_heap (m2m_elements s) p;
          previous_timestamp \<leftarrow> m2m_last_modified s key;
          let c = LogMutation (MatrixUpdated now object)
                    (m2m_DoUpdateWithLastModified previous_timestamp key previous_object) c;
          Some (c\<lparr>this := m2m_DoUpdateWithLastModified now key object (this c)\<rparr>) }
      | None \<Rightarrow>
          let rollback = (case m2m_last_modified s key of
                            Some previous_timestamp \<Rightarrow> m2m_DoEraseWithLastModified previous_timestamp key
                          | None \<Rightarrow> m2m_forget key);
              c = LogMutation (MatrixUpdated now object) rollback c
          in Some (c\<lparr>this := m2m_DoUpdateWithLastModified now key object (this c)\<rparr>))"

definition m2m_Erase ::
  "('t \<Rightarrow> 'r) \<Rightarrow> ('t \<Rightarrow> 'c) \<Rightarrow> 'r \<times> 'c \<Rightarrow> ('r, 'c, 't) m2m_ctx \<Rightarrow> ('r, 'c, 't) m2m_ctx option" where
  "m2m_Erase GetRow GetCol key c =
     (let (now, c) = CtxNow c in
      case el_map (m2m_elements (this c)) key of
        Some p \<Rightarrow> do {
          previous_object \<leftarrow> el_heap (m2m_elements (this c)) p;
          previous_timestamp \<leftarrow> m2m_last_modified (this c) key;
          let c = LogMutation (matrix_deleted_event GetRow GetCol now previous_object)
                    (m2m_DoUpdateWithLastModified previous_timestamp key previous_object) c;
          Some (c\<lparr>this := m2m_DoEraseWithLastModified now key (this c)\<rparr>) }
      | None \<Rightarrow> Some c)"

definition m2m_via :: "('r, 'c, 't) many_to_many \<Rightarrow> nat option \<Rightarrow> 't option option" where
  "m2m_via s found =
     (case found of
        Some p \<Rightarrow> do { t \<leftarrow> el_heap (m2m_elements s) p; Some (Some t) }
      | None \<Rightarrow> Some None)"

definition m2m_get :: "'r \<times> 'c \<Rightarrow> ('r, 'c, 't) many_to_many \<Rightarrow> 't option option" where
  "m2m_get key s = m2m_via s (el_map (m2m_elements s) key)"

definition m2m_LastModified :: "'r \<times> 'c \<Rightarrow> ('r, 'c, 't) many_to_many \<Rightarrow> microseconds option" where
  "m2m_LastModified key s = m2m_last_modified s key"

text \<open>
  The accessors: \<^verbatim>\<open>Rows()\<close> and \<^verbatim>\<open>Cols()\<close>, and \<^verbatim>\<open>Row(row)\<close> and \<^verbatim>\<open>Col(col)\<close>, the elements of one row or
  column (an empty map for one that is not there), each read through its pointer.
\<close>

definition outer_Empty :: "('a \<rightharpoonup> 'b \<rightharpoonup> nat) \<Rightarrow> bool" where
  "outer_Empty m \<longleftrightarrow> m = Map.empty"

definition outer_Size :: "('a \<rightharpoonup> 'b \<rightharpoonup> nat) \<Rightarrow> nat" where
  "outer_Size m = card (dom m)"

definition outer_Has :: "'a \<Rightarrow> ('a \<rightharpoonup> 'b \<rightharpoonup> nat) \<Rightarrow> bool" where
  "outer_Has x m \<longleftrightarrow> m x \<noteq> None"

definition m2m_Rows :: "('r, 'c, 't) many_to_many \<Rightarrow> 'r \<rightharpoonup> 'c \<rightharpoonup> nat" where
  "m2m_Rows s = m2m_forward s"

definition m2m_Cols :: "('r, 'c, 't) many_to_many \<Rightarrow> 'c \<rightharpoonup> 'r \<rightharpoonup> nat" where
  "m2m_Cols s = m2m_transposed s"

definition m2m_Row :: "'r \<Rightarrow> ('r, 'c, 't) many_to_many \<Rightarrow> 'c \<Rightarrow> 't option option" where
  "m2m_Row row s col =
     m2m_via s ((case m2m_forward s row of Some elements \<Rightarrow> elements | None \<Rightarrow> Map.empty) col)"

definition m2m_Col :: "'c \<Rightarrow> ('r, 'c, 't) many_to_many \<Rightarrow> 'r \<Rightarrow> 't option option" where
  "m2m_Col col s row =
     m2m_via s ((case m2m_transposed s col of Some elements \<Rightarrow> elements | None \<Rightarrow> Map.empty) row)"

fun m2m_apply ::
  "('t \<Rightarrow> 'r) \<Rightarrow> ('t \<Rightarrow> 'c) \<Rightarrow> ('r, 'c, 't) matrix_event \<Rightarrow> ('r, 'c, 't) many_to_many \<Rightarrow> ('r, 'c, 't) many_to_many" where
  "m2m_apply GetRow GetCol (MatrixUpdated us data) s =
     m2m_DoUpdateWithLastModified us (GetRow data, GetCol data) data s"
| "m2m_apply GetRow GetCol (MatrixDeleted us key) s =
     m2m_DoEraseWithLastModified us (fst key, snd key) s"

datatype ('r, 'c, 't) m2m_op = M2MAdd 't | M2MErase "'r \<times> 'c"

fun m2m_run ::
  "('t \<Rightarrow> 'r) \<Rightarrow> ('t \<Rightarrow> 'c) \<Rightarrow> ('r, 'c, 't) m2m_op \<Rightarrow> ('r, 'c, 't) m2m_ctx \<Rightarrow> ('r, 'c, 't) m2m_ctx option" where
  "m2m_run GetRow GetCol (M2MAdd object) c = m2m_Add GetRow GetCol object c"
| "m2m_run GetRow GetCol (M2MErase key) c = m2m_Erase GetRow GetCol key c"

subsection \<open>Well-formedness\<close>

definition m2m_inv :: "('t \<Rightarrow> 'r) \<Rightarrow> ('t \<Rightarrow> 'c) \<Rightarrow> ('r, 'c, 't) many_to_many \<Rightarrow> bool" where
  "m2m_inv GetRow GetCol s \<longleftrightarrow>
     el_inv (entry_key GetRow GetCol) (m2m_elements s) \<and>
     row_table (m2m_forward s) (el_map (m2m_elements s)) \<and>
     col_table (m2m_transposed s) (el_map (m2m_elements s)) \<and>
     (\<forall>k p. el_map (m2m_elements s) k = Some p \<longrightarrow> m2m_last_modified s k \<noteq> None)"

definition m2m_elems :: "('r, 'c, 't) many_to_many \<Rightarrow> 'r \<times> 'c \<rightharpoonup> 't" where
  "m2m_elems s = el_view (m2m_elements s)"

abbreviation m2m_view ::
  "('r, 'c, 't) many_to_many \<Rightarrow> ('r \<times> 'c \<rightharpoonup> 't) \<times> ('r \<times> 'c \<rightharpoonup> microseconds)" where
  "m2m_view s \<equiv> (m2m_elems s, m2m_last_modified s)"

lemmas m2m_prims [container_simps] =
  m2m_DoUpdateWithLastModified_def m2m_DoEraseWithoutTouchingLastModified_def
  m2m_DoEraseWithLastModified_def m2m_forget_def

lemma m2m_inv_empty: "m2m_inv GetRow GetCol m2m_empty"
  by (simp add: m2m_inv_def m2m_empty_def el_inv_empty)
    (simp add: el_empty_def row_table_def table_lookup_def col_table_def)

lemma m2m_inv_el: "m2m_inv GetRow GetCol s \<Longrightarrow> el_inv (entry_key GetRow GetCol) (m2m_elements s)"
  by (simp add: m2m_inv_def)

lemma m2m_elems_None:
  "m2m_inv GetRow GetCol s \<Longrightarrow> m2m_elems s k = None \<longleftrightarrow> el_map (m2m_elements s) k = None"
  by (simp add: m2m_elems_def el_view_None [OF m2m_inv_el])

lemma m2m_update_ok:
  assumes "m2m_inv GetRow GetCol s" "entry_key GetRow GetCol t = k"
  shows "m2m_inv GetRow GetCol (m2m_DoUpdateWithLastModified us k t s)"
    "m2m_elems (m2m_DoUpdateWithLastModified us k t s) = (m2m_elems s)(k \<mapsto> t)"
    "m2m_last_modified (m2m_DoUpdateWithLastModified us k t s) = (m2m_last_modified s)(k \<mapsto> us)"
proof -
  note el = m2m_inv_el [OF assms(1)]
  obtain r c where k: "k = (r, c)" by (cases k)
  show "m2m_inv GetRow GetCol (m2m_DoUpdateWithLastModified us k t s)"
    using assms(1) el_inv_emplace [OF el assms(2)]
    by (simp add: m2m_inv_def container_simps Let_def split_beta k index_upd)
  show "m2m_elems (m2m_DoUpdateWithLastModified us k t s) = (m2m_elems s)(k \<mapsto> t)"
    by (simp add: m2m_elems_def container_simps Let_def split_beta el_view_emplace [OF el])
  show "m2m_last_modified (m2m_DoUpdateWithLastModified us k t s) = (m2m_last_modified s)(k \<mapsto> us)"
    by (simp add: container_simps Let_def split_beta)
qed

lemma m2m_erase_inv:
  assumes "m2m_inv GetRow GetCol s" and "\<And>k'. k' \<noteq> k \<Longrightarrow> lm k' = m2m_last_modified s k'"
  shows "m2m_inv GetRow GetCol
    (m2m_DoEraseWithoutTouchingLastModified k (s\<lparr>m2m_last_modified := lm\<rparr>))"
  using assms el_inv_erase [OF m2m_inv_el [OF assms(1)], of k]
  by (cases k) (simp add: m2m_inv_def container_simps index_del)

lemma m2m_erase_view:
  assumes "m2m_inv GetRow GetCol s"
  shows "m2m_elems (m2m_DoEraseWithLastModified us k s) = (m2m_elems s)(k := None)"
    "m2m_last_modified (m2m_DoEraseWithLastModified us k s) = (m2m_last_modified s)(k \<mapsto> us)"
    "m2m_elems (m2m_forget k s) = (m2m_elems s)(k := None)"
    "m2m_last_modified (m2m_forget k s) = (m2m_last_modified s)(k := None)"
  by (simp_all add: container_simps m2m_elems_def el_view_erase [OF m2m_inv_el [OF assms]])

lemma m2m_erase_ok:
  assumes "m2m_inv GetRow GetCol s"
  shows "m2m_inv GetRow GetCol (m2m_DoEraseWithLastModified us k s)"
    "m2m_inv GetRow GetCol (m2m_forget k s)"
  unfolding m2m_DoEraseWithLastModified_def m2m_forget_def
  by (rule m2m_erase_inv [OF assms], simp)+

lemma m2m_inv_elems:
  assumes "m2m_inv GetRow GetCol s" "m2m_elems s k = Some t"
  shows "entry_key GetRow GetCol t = k \<and> m2m_last_modified s k \<noteq> None"
  using assms el_view_key [OF m2m_inv_el [OF assms(1)], of k t]
    el_view_Some [OF m2m_inv_el [OF assms(1)], of k t]
  by (cases k) (auto simp: m2m_elems_def m2m_inv_def)

interpretation m2m: matrix_container GetRow GetCol "m2m_inv GetRow GetCol" m2m_elems m2m_last_modified
  "\<lambda>_ _. True" m2m_DoUpdateWithLastModified m2m_DoEraseWithLastModified m2m_forget "m2m_apply GetRow GetCol"
  for GetRow :: "'t \<Rightarrow> 'r" and GetCol :: "'t \<Rightarrow> 'c"
  by unfold_locales
    (simp_all add: m2m_inv_elems m2m_update_ok m2m_erase_ok m2m_erase_view)

subsection \<open>Every operation is logged\<close>

abbreviation m2m_logged ::
  "('t \<Rightarrow> 'r) \<Rightarrow> ('t \<Rightarrow> 'c) \<Rightarrow> ('r, 'c, 't) m2m_ctx \<Rightarrow> ('r, 'c, 't) m2m_ctx \<Rightarrow> bool" where
  "m2m_logged GetRow GetCol \<equiv>
     logged (m2m_inv GetRow GetCol) m2m_view (m2m_apply GetRow GetCol) matrix_event_us"

lemma m2m_live:
  assumes "m2m_inv GetRow GetCol s" "el_map (m2m_elements s) (r, c) = Some p"
  obtains t us where "el_heap (m2m_elements s) p = Some t" "GetRow t = r" "GetCol t = c"
    "m2m_elems s (r, c) = Some t" "m2m_last_modified s (r, c) = Some us"
proof -
  from el_inv_live [OF m2m_inv_el [OF assms(1)] assms(2)]
  obtain t where t: "el_heap (m2m_elements s) p = Some t" "GetRow t = r" "GetCol t = c"
    by (auto simp: entry_key_def)
  moreover from t(1) assms(2) have "m2m_elems s (r, c) = Some t"
    by (simp add: m2m_elems_def el_view_def)
  moreover from m2m_inv_elems [OF assms(1) this]
  obtain us where "m2m_last_modified s (r, c) = Some us" by auto
  ultimately show ?thesis by (rule that)
qed

lemma m2m_Erase_logged:
  assumes inv: "m2m_inv GetRow GetCol (this c)"
  shows "\<exists>c'. m2m_Erase GetRow GetCol key c = Some c' \<and> m2m_logged GetRow GetCol c c'"
proof -
  obtain now c1 where now: "CtxNow c = (now, c1)" by (cases "CtxNow c")
  note s1 = CtxNow_simps [OF now]
  show ?thesis
  proof (cases "el_map (m2m_elements (this c)) (fst key, snd key)")
    case (Some p)
    then obtain t u where t: "el_heap (m2m_elements (this c)) p = Some t"
      "m2m_elems (this c) key = Some t" "m2m_last_modified (this c) key = Some u"
      by (rule m2m_live [OF inv]) simp
    then show ?thesis
      using Some m2m.erase_logged [OF now inv t(2,3)] by (simp add: m2m_Erase_def Let_def now s1)
  qed (use CtxNow_logged [OF now] inv in \<open>auto simp: m2m_Erase_def now s1\<close>)
qed

lemma m2m_Add_logged:
  assumes inv: "m2m_inv GetRow GetCol (this c)"
  shows "\<exists>c'. m2m_Add GetRow GetCol object c = Some c' \<and> m2m_logged GetRow GetCol c c' \<and>
    m2m_elems (this c') = (m2m_elems (this c))((GetRow object, GetCol object) \<mapsto> object)"
proof -
  obtain now c1 where now: "CtxNow c = (now, c1)" by (cases "CtxNow c")
  note s1 = CtxNow_simps [OF now]
  let ?k = "(GetRow object, GetCol object)"
  show ?thesis
  proof (cases "el_map (m2m_elements (this c)) ?k")
    case (Some p)
    then obtain t u where t: "el_heap (m2m_elements (this c)) p = Some t"
      "m2m_elems (this c) ?k = Some t" "m2m_last_modified (this c) ?k = Some u"
      by (rule m2m_live [OF inv])
    then show ?thesis
      using Some m2m.overwrite_logged [OF now inv refl t(2,3)]
      by (simp add: m2m_Add_def Let_def now s1 m2m_update_ok [OF inv] entry_key_def)
  next
    case None
    then show ?thesis
      using m2m.insert_logged [OF now inv refl _ _ refl, of object] m2m_elems_None [OF inv]
      by (simp add: m2m_Add_def Let_def now s1 m2m_update_ok [OF inv] entry_key_def)
  qed
qed

subsection \<open>What the getters read\<close>

lemma m2m_via_map:
  assumes "m2m_inv GetRow GetCol s"
  shows "m2m_via s (el_map (m2m_elements s) k) = Some (m2m_elems s k)"
proof (cases "el_map (m2m_elements s) k")
  case (Some p)
  with el_inv_live [OF m2m_inv_el [OF assms] this] show ?thesis
    by (auto simp: m2m_via_def m2m_elems_def el_view_def)
qed (simp add: m2m_via_def m2m_elems_def el_view_def)

lemma m2m_get_elems: "m2m_inv GetRow GetCol s \<Longrightarrow> m2m_get k s = Some (m2m_elems s k)"
  by (simp add: m2m_get_def m2m_via_map)

lemma m2m_Row_elems: "m2m_inv GetRow GetCol s \<Longrightarrow> m2m_Row row s col = Some (m2m_elems s (row, col))"
  using m2m_via_map [of GetRow GetCol s "(row, col)"]
  by (simp add: m2m_Row_def m2m_inv_def row_table_def table_lookup_def)

lemma m2m_Col_elems: "m2m_inv GetRow GetCol s \<Longrightarrow> m2m_Col col s row = Some (m2m_elems s (row, col))"
  using m2m_via_map [of GetRow GetCol s "(row, col)"]
  by (simp add: m2m_Col_def m2m_inv_def col_table_def table_lookup_def)

lemma m2m_Rows_Cols_Has:
  assumes "m2m_inv GetRow GetCol s"
  shows "outer_Has row (m2m_Rows s) \<longleftrightarrow> (\<exists>col. m2m_elems s (row, col) \<noteq> None)"
    "outer_Has col (m2m_Cols s) \<longleftrightarrow> (\<exists>row. m2m_elems s (row, col) \<noteq> None)"
proof -
  have "row_table (m2m_forward s) (el_map (m2m_elements s))" "col_table (m2m_transposed s) (el_map (m2m_elements s))"
    using assms by (simp_all add: m2m_inv_def)
  then show "outer_Has row (m2m_Rows s) \<longleftrightarrow> (\<exists>col. m2m_elems s (row, col) \<noteq> None)"
    "outer_Has col (m2m_Cols s) \<longleftrightarrow> (\<exists>row. m2m_elems s (row, col) \<noteq> None)"
    by (simp_all only: outer_Has_def m2m_Rows_def m2m_Cols_def row_table_find col_table_find
          m2m_elems_None [OF assms] not_all)
qed

lemma m2m_Erase_elems:
  assumes inv: "m2m_inv GetRow GetCol (this c)" and c': "m2m_Erase GetRow GetCol key c = Some c'"
  shows "m2m_elems (this c') = (m2m_elems (this c))(key := None)"
proof -
  obtain now c1 where now: "CtxNow c = (now, c1)" by (cases "CtxNow c")
  note s1 = CtxNow_simps [OF now]
  show ?thesis
  proof (cases "el_map (m2m_elements (this c)) key")
    case None
    then have "m2m_elems (this c) key = None" using m2m_elems_None [OF inv] by simp
    moreover have "c' = c1" using None c' by (simp add: m2m_Erase_def now s1)
    ultimately show ?thesis by (simp add: s1 fun_upd_idem)
  next
    case (Some p)
    with c' show ?thesis
      by (auto simp: m2m_Erase_def now s1 Let_def m2m_erase_view [OF inv] split: bind_splits)
  qed
qed

interpretation m2m_field: journaled_field "m2m_inv GetRow GetCol" m2m_view "m2m_apply GetRow GetCol"
  matrix_event_us "m2m_run GetRow GetCol" "\<lambda>_. True"
  for GetRow :: "'t \<Rightarrow> 'r" and GetCol :: "'t \<Rightarrow> 'c"
proof
  fix c :: "('r, 'c, 't) m2m_ctx" and op
  assume "m2m_inv GetRow GetCol (this c)"
  then show "\<exists>c'. m2m_run GetRow GetCol op c = Some c' \<and> m2m_logged GetRow GetCol c c'"
    using m2m_Add_logged [of GetRow GetCol c]
    by (cases op) (auto simp: m2m_Erase_logged)
qed

subsection \<open>Properties\<close>

text \<open>
  C15: \<^verbatim>\<open>Add\<close> and \<^verbatim>\<open>Erase\<close> on a well-formed many-to-many container never dereference a dangling pointer and leave
  it well-formed; they change the entry of one key and no other.  The lookup by key, the row accessor
  and the column accessor agree everywhere, and \<^verbatim>\<open>Rows()\<close> and \<^verbatim>\<open>Cols()\<close> have exactly the rows and columns with an entry.
\<close>

theorem many_to_many_operations:
  assumes "m2m_inv GetRow GetCol (this c)"
  shows "(\<exists>c'. m2m_Add GetRow GetCol object c = Some c' \<and> m2m_inv GetRow GetCol (this c') \<and>
       m2m_get (row, col) (this c') =
         (if row = GetRow object \<and> col = GetCol object then Some (Some object) else m2m_get (row, col) (this c))) \<and>
    (\<exists>c'. m2m_Erase GetRow GetCol key c = Some c' \<and> m2m_inv GetRow GetCol (this c') \<and>
       m2m_get (row, col) (this c') = (if (row, col) = key then Some None else m2m_get (row, col) (this c))) \<and>
    m2m_Row row (this c) col = m2m_get (row, col) (this c) \<and>
    m2m_Col col (this c) row = m2m_get (row, col) (this c) \<and>
    (outer_Has row (m2m_Rows (this c)) \<longleftrightarrow> (\<exists>col t. m2m_get (row, col) (this c) = Some (Some t))) \<and>
    (outer_Has col (m2m_Cols (this c)) \<longleftrightarrow> (\<exists>row t. m2m_get (row, col) (this c) = Some (Some t)))"
proof -
  obtain c1 where c1: "m2m_Add GetRow GetCol object c = Some c1" "m2m_inv GetRow GetCol (this c1)"
    "m2m_elems (this c1) = (m2m_elems (this c))((GetRow object, GetCol object) \<mapsto> object)"
    using m2m_Add_logged [OF assms, of object] by (auto simp: logged_def)
  obtain c2 where c2: "m2m_Erase GetRow GetCol key c = Some c2" "m2m_inv GetRow GetCol (this c2)"
    using m2m_Erase_logged [OF assms, of key] by (auto simp: logged_def)
  show ?thesis
    using c1 c2 m2m_Erase_elems [OF assms c2(1)]
    by (simp add: m2m_get_elems [OF assms] m2m_get_elems [OF c1(2)] m2m_get_elems [OF c2(2)]
        m2m_Row_elems [OF assms] m2m_Col_elems [OF assms] m2m_Rows_Cols_Has [OF assms])
qed

theorem many_to_many_operations_witness:
  "\<exists>c'. m2m_Add fst snd (1 :: int, 2 :: int) (fresh_ctx m2m_empty) = Some c' \<and>
     m2m_get (1, 2) (this c') = Some (Some (1, 2))"
  using many_to_many_operations [of fst snd "fresh_ctx m2m_empty" "(1 :: int, 2 :: int)" 1 2 "(1, 2)"]
  by (auto simp: m2m_inv_empty)

end
