(* ===== verification/Transaction.thy ===== *)
theory Transaction
  imports Journal
begin

text \<open>
  The transaction policy of \<^verbatim>\<open>src/storage/transaction_policy.h\<close> with the results of
  \<^verbatim>\<open>src/storage/transaction_result.h\<close> and the transactions of \<^verbatim>\<open>src/storage/transaction.h\<close>.

  The user's transaction body is a tree of the calls it makes: operations of the fields, reads of
  the fields, reads of the clock and changes of the metadata, ending in a return or in a throw.
  \<open>run\<close> executes one operation of a field, \<open>persist\<close> is \<^verbatim>\<open>PersistJournalFromLockedSection\<close> of the
  persister, the template parameter of the policy.
\<close>

record 'ev transaction =
  tx_meta :: transaction_meta
  tx_mutations :: "'ev list"

datatype 'r storage_exception =
    StorageRollbackExceptionWithValue 'r
  | StorageRollbackExceptionWithNoValue
  | OtherException string

record 'r transaction_result =
  tr_result :: "'r option"
  tr_committed :: bool

definition Committed :: "'r option \<Rightarrow> 'r transaction_result" where
  "Committed result = \<lparr>tr_result = result, tr_committed = True\<rparr>"

definition RolledBack :: "'r option \<Rightarrow> 'r transaction_result" where
  "RolledBack result = \<lparr>tr_result = result, tr_committed = False\<rparr>"

definition WasCommitted :: "'r transaction_result \<Rightarrow> bool" where
  "WasCommitted x \<longleftrightarrow> tr_committed x"

text \<open>The state of the promise behind the returned future: \<open>'x\<close> is the exception the body threw.\<close>

datatype ('r, 'x) promise =
    PromiseValue "'r transaction_result"
  | PromiseException "'x storage_exception"
  | PromiseInGracefulShutdown

text \<open>
  How a call ends: with a promise, with an exception that escapes it, or with \<^verbatim>\<open>std::exit(-1)\<close>.
\<close>

datatype ('a, 'x, 'p) completion =
    Completed 'a 'p
  | Escaped "'x storage_exception" 'p
  | Exited

datatype ('s, 'op, 'r) tx_body =
    TxReturn 'r
  | TxThrow "'r storage_exception"
  | TxRun 'op "('s, 'op, 'r) tx_body"
  | TxRead "'s \<Rightarrow> ('s, 'op, 'r) tx_body"
  | TxNow "microseconds \<Rightarrow> ('s, 'op, 'r) tx_body"
  | TxSetMeta string string "('s, 'op, 'r) tx_body"
  | TxEraseMeta string "('s, 'op, 'r) tx_body"

primrec tx_exec ::
  "('op \<Rightarrow> ('ev, 's) ctx \<Rightarrow> ('ev, 's) ctx option) \<Rightarrow> ('s, 'op, 'r) tx_body \<Rightarrow> ('ev, 's) ctx \<Rightarrow>
   (('r storage_exception + 'r) \<times> ('ev, 's) ctx) option" where
  "tx_exec run (TxReturn r) c = Some (Inr r, c)"
| "tx_exec run (TxThrow x) c = Some (Inl x, c)"
| "tx_exec run (TxRun op body) c = do { c \<leftarrow> run op c; tx_exec run body c }"
| "tx_exec run (TxRead body) c = tx_exec run (body (this c)) c"
| "tx_exec run (TxNow body) c = (case CtxNow c of (now, c) \<Rightarrow> tx_exec run (body now) c)"
| "tx_exec run (TxSetMeta key value body) c = tx_exec run body (SetTransactionMetaField key value c)"
| "tx_exec run (TxEraseMeta key body) c = tx_exec run body (EraseTransactionMetaField key c)"

text \<open>What the body may call: operations \<open>valid\<close> for the fields; and a body over \<^verbatim>\<open>const\<close> fields.\<close>

primrec tx_valid :: "('op \<Rightarrow> bool) \<Rightarrow> ('s, 'op, 'r) tx_body \<Rightarrow> bool" where
  "tx_valid valid (TxReturn r) \<longleftrightarrow> True"
| "tx_valid valid (TxThrow x) \<longleftrightarrow> True"
| "tx_valid valid (TxRun op body) \<longleftrightarrow> valid op \<and> tx_valid valid body"
| "tx_valid valid (TxRead body) \<longleftrightarrow> (\<forall>s. tx_valid valid (body s))"
| "tx_valid valid (TxNow body) \<longleftrightarrow> (\<forall>us. tx_valid valid (body us))"
| "tx_valid valid (TxSetMeta key value body) \<longleftrightarrow> tx_valid valid body"
| "tx_valid valid (TxEraseMeta key body) \<longleftrightarrow> tx_valid valid body"

primrec tx_const :: "('s, 'op, 'r) tx_body \<Rightarrow> bool" where
  "tx_const (TxReturn r) \<longleftrightarrow> True"
| "tx_const (TxThrow x) \<longleftrightarrow> True"
| "tx_const (TxRun op body) \<longleftrightarrow> False"
| "tx_const (TxRead body) \<longleftrightarrow> (\<forall>s. tx_const (body s))"
| "tx_const (TxNow body) \<longleftrightarrow> (\<forall>us. tx_const (body us))"
| "tx_const (TxSetMeta key value body) \<longleftrightarrow> False"
| "tx_const (TxEraseMeta key body) \<longleftrightarrow> False"

subsection \<open>The policy\<close>

record ('ev, 's, 'w) policy =
  pol_ctx :: "('ev, 's) ctx"
  pol_persister :: 'w
  pol_destructing :: bool

type_synonym ('ev, 's, 'w) persist_fn = "('ev, 's) ctx \<Rightarrow> 'w \<Rightarrow> string + ('ev, 's) ctx \<times> 'w"

text \<open>\<^verbatim>\<open>PersistJournal\<close>: an exception of the persister ends the process.\<close>

definition PersistJournal ::
  "('ev, 's, 'w) persist_fn \<Rightarrow> 'a \<Rightarrow> ('ev, 's, 'w) policy \<Rightarrow> ('a, 'x, ('ev, 's, 'w) policy) completion" where
  "PersistJournal persist a pol =
     (case persist (pol_ctx pol) (pol_persister pol) of
        Inl what \<Rightarrow> Exited
      | Inr (c, w) \<Rightarrow> Completed a (pol\<lparr>pol_ctx := c, pol_persister := w\<rparr>))"

text \<open>Read-write transaction returning a non-void type.\<close>

definition TransactionRW ::
  "('op \<Rightarrow> ('ev, 's) ctx \<Rightarrow> ('ev, 's) ctx option) \<Rightarrow> ('ev, 's, 'w) persist_fn \<Rightarrow> ('s, 'op, 'r) tx_body \<Rightarrow>
   ('ev, 's, 'w) policy \<Rightarrow> (('r, 'r) promise, 'r, ('ev, 's, 'w) policy) completion option" where
  "TransactionRW run persist f pol =
     (if pol_destructing pol then Some (Completed PromiseInGracefulShutdown pol)
      else do {
        (outcome, c) \<leftarrow> tx_exec run f (BeforeTransaction (pol_ctx pol));
        Some (case outcome of
            Inr f_result \<Rightarrow>
              PersistJournal persist (PromiseValue (Committed (Some f_result)))
                (pol\<lparr>pol_ctx := AfterTransaction c\<rparr>)
          | Inl (StorageRollbackExceptionWithValue value) \<Rightarrow>
              Completed (PromiseValue (RolledBack (Some value))) (pol\<lparr>pol_ctx := Rollback c\<rparr>)
          | Inl StorageRollbackExceptionWithNoValue \<Rightarrow>
              Completed (PromiseValue (RolledBack None)) (pol\<lparr>pol_ctx := Rollback c\<rparr>)
          | Inl x \<Rightarrow> Completed (PromiseException x) (pol\<lparr>pol_ctx := Rollback c\<rparr>)) })"

text \<open>Read-only transaction returning a non-void type.\<close>

definition TransactionRO ::
  "('op \<Rightarrow> ('ev, 's) ctx \<Rightarrow> ('ev, 's) ctx option) \<Rightarrow> ('s, 'op, 'r) tx_body \<Rightarrow>
   ('ev, 's, 'w) policy \<Rightarrow> (('r, 'r) promise, 'r, ('ev, 's, 'w) policy) completion option" where
  "TransactionRO run f pol =
     (if pol_destructing pol then Some (Completed PromiseInGracefulShutdown pol)
      else do {
        (outcome, c) \<leftarrow> tx_exec run f (pol_ctx pol);
        Some (Completed
          (case outcome of
             Inr f_result \<Rightarrow> PromiseValue (Committed (Some f_result))
           | Inl (StorageRollbackExceptionWithValue value) \<Rightarrow> PromiseValue (RolledBack (Some value))
           | Inl StorageRollbackExceptionWithNoValue \<Rightarrow> PromiseValue (RolledBack None)
           | Inl x \<Rightarrow> PromiseException x)
          (pol\<lparr>pol_ctx := c\<rparr>)) })"

text \<open>
  The void versions: a result is \<^verbatim>\<open>OptionalResultExists\<close> or \<^verbatim>\<open>OptionalResultMissing\<close>, and a rollback
  exception with a value is just another exception.
\<close>

definition TransactionRWVoid ::
  "('op \<Rightarrow> ('ev, 's) ctx \<Rightarrow> ('ev, 's) ctx option) \<Rightarrow> ('ev, 's, 'w) persist_fn \<Rightarrow> ('s, 'op, 'x) tx_body \<Rightarrow>
   ('ev, 's, 'w) policy \<Rightarrow> ((unit, 'x) promise, 'x, ('ev, 's, 'w) policy) completion option" where
  "TransactionRWVoid run persist f pol =
     (if pol_destructing pol then Some (Completed PromiseInGracefulShutdown pol)
      else do {
        (outcome, c) \<leftarrow> tx_exec run f (BeforeTransaction (pol_ctx pol));
        Some (case outcome of
            Inr _ \<Rightarrow>
              PersistJournal persist (PromiseValue (Committed (Some ()))) (pol\<lparr>pol_ctx := AfterTransaction c\<rparr>)
          | Inl StorageRollbackExceptionWithNoValue \<Rightarrow>
              Completed (PromiseValue (RolledBack (Some ()))) (pol\<lparr>pol_ctx := Rollback c\<rparr>)
          | Inl x \<Rightarrow> Completed (PromiseException x) (pol\<lparr>pol_ctx := Rollback c\<rparr>)) })"

definition TransactionROVoid ::
  "('op \<Rightarrow> ('ev, 's) ctx \<Rightarrow> ('ev, 's) ctx option) \<Rightarrow> ('s, 'op, 'x) tx_body \<Rightarrow>
   ('ev, 's, 'w) policy \<Rightarrow> ((unit, 'x) promise, 'x, ('ev, 's, 'w) policy) completion option" where
  "TransactionROVoid run f pol =
     (if pol_destructing pol then Some (Completed PromiseInGracefulShutdown pol)
      else do {
        (outcome, c) \<leftarrow> tx_exec run f (pol_ctx pol);
        Some (Completed
          (case outcome of
             Inr _ \<Rightarrow> PromiseValue (Committed (Some ()))
           | Inl StorageRollbackExceptionWithNoValue \<Rightarrow> PromiseValue (RolledBack (Some ()))
           | Inl x \<Rightarrow> PromiseException x)
          (pol\<lparr>pol_ctx := c\<rparr>)) })"

text \<open>
  The two-step versions: \<open>f2\<close> consumes the result of the first step, and may throw; the list is the
  arguments \<open>f2\<close> was called with, in order.  The handlers of the exceptions of the \<^verbatim>\<open>try\<close> block:
\<close>

definition handle_two_step ::
  "('r \<Rightarrow> 'r storage_exception option) \<Rightarrow> (('ev, 's) ctx \<Rightarrow> ('ev, 's) ctx) \<Rightarrow> 'r storage_exception \<Rightarrow> 'r list \<Rightarrow>
   ('ev, 's, 'w) policy \<Rightarrow> ((unit, 'r) promise \<times> 'r list, 'r, ('ev, 's, 'w) policy) completion" where
  "handle_two_step f2 undo x calls pol =
     (let pol = pol\<lparr>pol_ctx := undo (pol_ctx pol)\<rparr> in
      case x of
        StorageRollbackExceptionWithValue value \<Rightarrow>
          (case f2 value of
             None \<Rightarrow> Completed (PromiseValue (RolledBack None), calls @ [value]) pol
           | Some x' \<Rightarrow> Escaped x' pol)
      | StorageRollbackExceptionWithNoValue \<Rightarrow> Completed (PromiseValue (RolledBack None), calls) pol
      | _ \<Rightarrow> Completed (PromiseException x, calls) pol)"

definition TransactionRWTwoStep ::
  "('op \<Rightarrow> ('ev, 's) ctx \<Rightarrow> ('ev, 's) ctx option) \<Rightarrow> ('ev, 's, 'w) persist_fn \<Rightarrow> ('s, 'op, 'r) tx_body \<Rightarrow>
   ('r \<Rightarrow> 'r storage_exception option) \<Rightarrow> ('ev, 's, 'w) policy \<Rightarrow>
   ((unit, 'r) promise \<times> 'r list, 'r, ('ev, 's, 'w) policy) completion option" where
  "TransactionRWTwoStep run persist f1 f2 pol =
     (if pol_destructing pol then Some (Completed (PromiseInGracefulShutdown, []) pol)
      else do {
        (outcome, c) \<leftarrow> tx_exec run f1 (BeforeTransaction (pol_ctx pol));
        Some (case outcome of
            Inl x \<Rightarrow> handle_two_step f2 Rollback x [] (pol\<lparr>pol_ctx := c\<rparr>)
          | Inr f1_result \<Rightarrow>
              (case PersistJournal persist () (pol\<lparr>pol_ctx := AfterTransaction c\<rparr>) of
                 Completed _ pol \<Rightarrow>
                   (case f2 f1_result of
                      None \<Rightarrow> Completed (PromiseValue (Committed (Some ())), [f1_result]) pol
                    | Some x \<Rightarrow> handle_two_step f2 Rollback x [f1_result] pol)
               | Escaped x pol \<Rightarrow> Escaped x pol
               | Exited \<Rightarrow> Exited)) })"

definition TransactionROTwoStep ::
  "('op \<Rightarrow> ('ev, 's) ctx \<Rightarrow> ('ev, 's) ctx option) \<Rightarrow> ('s, 'op, 'r) tx_body \<Rightarrow>
   ('r \<Rightarrow> 'r storage_exception option) \<Rightarrow> ('ev, 's, 'w) policy \<Rightarrow>
   ((unit, 'r) promise \<times> 'r list, 'r, ('ev, 's, 'w) policy) completion option" where
  "TransactionROTwoStep run f1 f2 pol =
     (if pol_destructing pol then Some (Completed (PromiseInGracefulShutdown, []) pol)
      else do {
        (outcome, c) \<leftarrow> tx_exec run f1 (pol_ctx pol);
        let pol = pol\<lparr>pol_ctx := c\<rparr>;
        Some (case outcome of
            Inl x \<Rightarrow> handle_two_step f2 id x [] pol
          | Inr f1_result \<Rightarrow>
              (case f2 f1_result of
                 None \<Rightarrow> Completed (PromiseValue (Committed (Some ())), [f1_result]) pol
               | Some x \<Rightarrow> handle_two_step f2 id x [f1_result] pol)) })"

definition GracefulShutdown :: "('ev, 's, 'w) policy \<Rightarrow> ('ev, 's, 'w) policy" where
  "GracefulShutdown pol = pol\<lparr>pol_destructing := True\<rparr>"

subsection \<open>Executing a body\<close>

text \<open>The transaction that a journal amounts to; nothing is published for an empty one.\<close>

definition journal_transactions :: "('ev, 's) mutation_journal \<Rightarrow> 'ev transaction list" where
  "journal_transactions j =
     (if commit_log j = [] then [] else [\<lparr>tx_meta = meta j, tx_mutations = commit_log j\<rparr>])"

definition replay :: "('ev \<Rightarrow> 's \<Rightarrow> 's) \<Rightarrow> 'ev transaction list \<Rightarrow> 's \<Rightarrow> 's" where
  "replay app ts s = fold (\<lambda>t s. fold app (tx_mutations t) s) ts s"

lemma journal_transactions_length: "length (journal_transactions j) \<le> 1"
  by (simp add: journal_transactions_def)

lemma replay_append: "replay app (xs @ ys) s = replay app ys (replay app xs s)"
  by (simp add: replay_def)

lemma replay_journal: "replay app (journal_transactions j) s = fold app (commit_log j) s"
  by (simp add: replay_def journal_transactions_def)

lemma replay_concat: "replay app ts s = fold app (concat (map tx_mutations ts)) s"
  by (induction ts arbitrary: s) (simp_all add: replay_def)

lemma logged_same_logs:
  "invar (this c) \<Longrightarrow> this c' = this c \<Longrightarrow> commit_log (journal c') = commit_log (journal c) \<Longrightarrow>
   rollback_log (journal c') = rollback_log (journal c) \<Longrightarrow>
   monotonic_now_us (clock c) \<le> monotonic_now_us (clock c') \<Longrightarrow> logged invar view app us c c'"
  by (auto simp: logged_def undoes_def redoes_def stamped_def intro!: exI [of _ "[]"])

lemma meta_field_simps [simp]:
  "this (SetTransactionMetaField k v c) = this c" "this (EraseTransactionMetaField k c) = this c"
  "clock (SetTransactionMetaField k v c) = clock c" "clock (EraseTransactionMetaField k c) = clock c"
  "commit_log (journal (SetTransactionMetaField k v c)) = commit_log (journal c)"
  "commit_log (journal (EraseTransactionMetaField k c)) = commit_log (journal c)"
  "rollback_log (journal (SetTransactionMetaField k v c)) = rollback_log (journal c)"
  "rollback_log (journal (EraseTransactionMetaField k c)) = rollback_log (journal c)"
  by (simp_all add: SetTransactionMetaField_def EraseTransactionMetaField_def)

lemma transaction_brackets [simp]:
  "this (BeforeTransaction c) = this c" "this (AfterTransaction c) = this c"
  "commit_log (journal (BeforeTransaction c)) = commit_log (journal c)"
  "commit_log (journal (AfterTransaction c)) = commit_log (journal c)"
  "rollback_log (journal (BeforeTransaction c)) = rollback_log (journal c)"
  "rollback_log (journal (AfterTransaction c)) = rollback_log (journal c)"
  "monotonic_now_us (clock c) < monotonic_now_us (clock (BeforeTransaction c))"
  "monotonic_now_us (clock c) < monotonic_now_us (clock (AfterTransaction c))"
  by (cases "CtxNow c", simp add: BeforeTransaction_def AfterTransaction_def CtxNow_simps)+

context journaled_field
begin

lemma exec_logged:
  assumes "tx_valid valid f" "invar (this c)"
  shows "\<exists>outcome c'. tx_exec run f c = Some (outcome, c') \<and> logged invar view app us c c'"
  using assms
proof (induction f arbitrary: c)
  case (TxRun op body)
  obtain c1 where c1: "run op c = Some c1" "logged invar view app us c c1"
    using run_logged [of c op] TxRun.prems by auto
  then have "invar (this c1)" by (simp add: logged_def)
  with TxRun.IH [of c1] TxRun.prems c1 show ?case by (auto intro: logged_trans)
next
  case (TxNow body)
  obtain now c1 where now: "CtxNow c = (now, c1)" by (cases "CtxNow c")
  then have log1: "logged invar view app us c c1" using TxNow.prems CtxNow_logged by blast
  have "tx_valid valid (body now)" "invar (this c1)"
    using TxNow.prems CtxNow_simps [OF now] by auto
  from TxNow.IH [OF rangeI this] log1 show ?case by (auto simp: now intro: logged_trans)
next
  case (TxSetMeta key val body)
  have "logged invar view app us c (SetTransactionMetaField key val c)"
    using TxSetMeta.prems by (intro logged_same_logs) simp_all
  with TxSetMeta.IH [of "SetTransactionMetaField key val c"] TxSetMeta.prems show ?case
    by (auto intro: logged_trans)
next
  case (TxEraseMeta key body)
  have "logged invar view app us c (EraseTransactionMetaField key c)"
    using TxEraseMeta.prems by (intro logged_same_logs) simp_all
  with TxEraseMeta.IH [of "EraseTransactionMetaField key c"] TxEraseMeta.prems show ?case
    by (auto intro: logged_trans)
qed (auto intro: logged_refl)

end

text \<open>A body over \<^verbatim>\<open>const\<close> fields changes nothing but the clock.\<close>

lemma exec_const:
  assumes "tx_const f"
  shows "\<exists>outcome c'. tx_exec run f c = Some (outcome, c') \<and> this c' = this c \<and> journal c' = journal c \<and>
    monotonic_now_us (clock c) \<le> monotonic_now_us (clock c')"
  using assms
proof (induction f arbitrary: c)
  case (TxNow body)
  obtain now c1 where now: "CtxNow c = (now, c1)" by (cases "CtxNow c")
  from TxNow.prems have "tx_const (body now)" by simp
  from TxNow.IH [OF rangeI this, of c1] CtxNow_simps [OF now] show ?case by (fastforce simp: now)
qed auto

text \<open>The begin time of the transaction is not touched by its body.\<close>

lemma exec_begin_us:
  assumes "tx_exec run f c = Some (outcome, c')"
    and run: "\<And>op c c'. run op c = Some c' \<Longrightarrow> meta (journal c') = meta (journal c)"
  shows "begin_us (meta (journal c')) = begin_us (meta (journal c))"
  using assms(1)
proof (induction f arbitrary: c)
  case (TxRun op body)
  then obtain c1 where "run op c = Some c1" "tx_exec run body c1 = Some (outcome, c')"
    by (auto split: bind_splits)
  with TxRun.IH run show ?case by metis
next
  case (TxNow body)
  obtain now c1 where now: "CtxNow c = (now, c1)" by (cases "CtxNow c")
  with TxNow.prems have "tx_exec run (body now) c1 = Some (outcome, c')" by simp
  from TxNow.IH [OF rangeI this] show ?case by (simp add: CtxNow_simps [OF now])
next
  case (TxSetMeta key val body)
  then show ?case by (fastforce simp: SetTransactionMetaField_def)
next
  case (TxEraseMeta key body)
  then show ?case by (fastforce simp: EraseTransactionMetaField_def)
qed auto

subsection \<open>The contract of the persister, and atomicity\<close>

locale journal_persister =
  fixes persist :: "('ev, 's, 'w) persist_fn"
    and pinv :: "'w \<Rightarrow> bool"
    and txs :: "'w \<Rightarrow> 'ev transaction list"
    and whead :: "'w \<Rightarrow> microseconds"
  assumes persist_ok: "pinv w \<Longrightarrow> whead w \<le> monotonic_now_us (clock c) \<Longrightarrow>
    \<exists>c' w'. persist c w = Inr (c', w') \<and> this c' = this c \<and> journal c' = empty_journal \<and>
      monotonic_now_us (clock c) \<le> monotonic_now_us (clock c') \<and>
      pinv w' \<and> whead w' \<le> monotonic_now_us (clock c') \<and>
      txs w' = txs w @ journal_transactions (journal c)"

text \<open>
  The state between transactions: the journal is empty, and what was published, replayed from the
  state \<open>s0\<close> the storage started from, gives what the fields hold.
\<close>

definition tx_consistent ::
  "('s \<Rightarrow> bool) \<Rightarrow> ('s \<Rightarrow> 'a) \<Rightarrow> ('ev \<Rightarrow> 's \<Rightarrow> 's) \<Rightarrow> ('w \<Rightarrow> bool) \<Rightarrow> ('w \<Rightarrow> 'ev transaction list) \<Rightarrow>
   ('w \<Rightarrow> microseconds) \<Rightarrow> 's \<Rightarrow> ('ev, 's, 'w) policy \<Rightarrow> bool" where
  "tx_consistent invar view app pinv txs whead s0 pol \<longleftrightarrow>
     invar (this (pol_ctx pol)) \<and> journal (pol_ctx pol) = empty_journal \<and>
     pinv (pol_persister pol) \<and> whead (pol_persister pol) \<le> monotonic_now_us (clock (pol_ctx pol)) \<and>
     (\<forall>t. invar t \<and> view t = view s0 \<longrightarrow>
        invar (replay app (txs (pol_persister pol)) t) \<and>
        view (replay app (txs (pol_persister pol)) t) = view (this (pol_ctx pol)))"

definition tx_unchanged :: "('s \<Rightarrow> 'a) \<Rightarrow> ('ev, 's, 'w) policy \<Rightarrow> ('ev, 's, 'w) policy \<Rightarrow> bool" where
  "tx_unchanged view pol pol' \<longleftrightarrow> view (this (pol_ctx pol')) = view (this (pol_ctx pol)) \<and>
     pol_persister pol' = pol_persister pol"

locale transactional =
  journaled_field invar view app us run valid + journal_persister persist pinv txs whead
  for invar :: "'s \<Rightarrow> bool" and view :: "'s \<Rightarrow> 'a" and app :: "'ev \<Rightarrow> 's \<Rightarrow> 's"
    and us :: "'ev \<Rightarrow> microseconds" and run :: "'op \<Rightarrow> ('ev, 's) ctx \<Rightarrow> ('ev, 's) ctx option"
    and valid :: "'op \<Rightarrow> bool" and persist :: "('ev, 's, 'w) persist_fn"
    and pinv :: "'w \<Rightarrow> bool" and txs :: "'w \<Rightarrow> 'ev transaction list" and whead :: "'w \<Rightarrow> microseconds"
begin

abbreviation consistent :: "'s \<Rightarrow> ('ev, 's, 'w) policy \<Rightarrow> bool" where
  "consistent \<equiv> tx_consistent invar view app pinv txs whead"

abbreviation unchanged :: "('ev, 's, 'w) policy \<Rightarrow> ('ev, 's, 'w) policy \<Rightarrow> bool" where
  "unchanged \<equiv> tx_unchanged view"

lemma exec_transaction:
  assumes "consistent s0 pol" "tx_valid valid f"
  obtains outcome c c' w' where "tx_exec run f (BeforeTransaction (pol_ctx pol)) = Some (outcome, c)"
    "consistent s0 (pol\<lparr>pol_ctx := Rollback c\<rparr>)" "unchanged pol (pol\<lparr>pol_ctx := Rollback c\<rparr>)"
    "persist (AfterTransaction c) (pol_persister pol) = Inr (c', w')"
    "consistent s0 (pol\<lparr>pol_ctx := c', pol_persister := w'\<rparr>)" "this c' = this c"
    "txs w' = txs (pol_persister pol) @ journal_transactions (journal (AfterTransaction c))"
proof -
  let ?c0 = "pol_ctx pol"
  from assms(1) have inv: "invar (this ?c0)" and empty: "journal ?c0 = empty_journal"
    and p: "pinv (pol_persister pol)" "whead (pol_persister pol) \<le> monotonic_now_us (clock ?c0)"
    and rep: "\<And>t. invar t \<Longrightarrow> view t = view s0 \<Longrightarrow> invar (replay app (txs (pol_persister pol)) t) \<and>
      view (replay app (txs (pol_persister pol)) t) = view (this ?c0)"
    by (auto simp: tx_consistent_def)
  have "invar (this (BeforeTransaction ?c0))" using inv by simp
  from exec_logged [OF assms(2) this] obtain outcome c where
    exec: "tx_exec run f (BeforeTransaction ?c0) = Some (outcome, c)"
    and log: "logged invar view app us (BeforeTransaction ?c0) c" by blast
  have logs: "commit_log (journal ?c0) = []" "rollback_log (journal ?c0) = []"
    using empty by (simp_all add: empty_journal_def)
  from log have l: "invar (this c)" "undoes invar view (rollback_log (journal c)) (this ?c0) (this c)"
    "redoes invar view app (commit_log (journal c)) (this ?c0) (this c)"
    and ck0: "monotonic_now_us (clock (BeforeTransaction ?c0)) \<le> monotonic_now_us (clock c)"
    by (auto simp: logged_def stamped_def logs)
  from ck0 have ck: "monotonic_now_us (clock ?c0) \<le> monotonic_now_us (clock c)"
    using transaction_brackets(7) [of ?c0] by linarith
  from l have rb: "invar (this (Rollback c))" "view (this (Rollback c)) = view (this ?c0)"
    by (auto simp: Rollback_def undoes_def)
  have 1: "consistent s0 (pol\<lparr>pol_ctx := Rollback c\<rparr>)"
    using rb p rep ck by (auto simp: tx_consistent_def Rollback_def Clear_eq)
  have 2: "unchanged pol (pol\<lparr>pol_ctx := Rollback c\<rparr>)" using rb by (simp add: tx_unchanged_def)
  have "whead (pol_persister pol) \<le> monotonic_now_us (clock (AfterTransaction c))"
    using p(2) ck transaction_brackets(8) [of c] by linarith
  from persist_ok [OF p(1) this] obtain c' w' where per:
    "persist (AfterTransaction c) (pol_persister pol) = Inr (c', w')" "this c' = this c" "journal c' = empty_journal"
    "pinv w'" "whead w' \<le> monotonic_now_us (clock c')"
    "txs w' = txs (pol_persister pol) @ journal_transactions (journal (AfterTransaction c))" by auto
  have 3: "consistent s0 (pol\<lparr>pol_ctx := c', pol_persister := w'\<rparr>)"
    using per l rep by (auto simp: tx_consistent_def replay_append replay_journal redoes_def)
  show ?thesis by (rule that [OF exec 1 2 per(1) 3 per(2,6)])
qed

text \<open>
  Each of the three read-write transactions completes without undefined behaviour and keeps
  \<open>consistent\<close>; unless it reports a commit it leaves the fields and the stream as they were.
\<close>

abbreviation atomic_completion ::
  "'s \<Rightarrow> ('ev, 's, 'w) policy \<Rightarrow> ('r, 'x) promise \<Rightarrow> ('ev, 's, 'w) policy \<Rightarrow> bool" where
  "atomic_completion s0 pol p pol' \<equiv> consistent s0 pol' \<and> pol_destructing pol' = pol_destructing pol \<and>
     ((\<exists>r. p = PromiseValue (Committed r)) \<and>
        (\<exists>ts. length ts \<le> 1 \<and> txs (pol_persister pol') = txs (pol_persister pol) @ ts) \<or>
      unchanged pol pol')"

lemma atomic_RW:
  assumes "consistent s0 pol" "tx_valid valid f"
  shows "\<exists>p pol'. TransactionRW run persist f pol = Some (Completed p pol') \<and> atomic_completion s0 pol p pol'"
proof (cases "pol_destructing pol")
  case True
  then show ?thesis using assms by (simp add: TransactionRW_def tx_unchanged_def)
next
  case False
  obtain outcome c c' w' where t: "tx_exec run f (BeforeTransaction (pol_ctx pol)) = Some (outcome, c)"
    "consistent s0 (pol\<lparr>pol_ctx := Rollback c\<rparr>)" "unchanged pol (pol\<lparr>pol_ctx := Rollback c\<rparr>)"
    "persist (AfterTransaction c) (pol_persister pol) = Inr (c', w')"
    "consistent s0 (pol\<lparr>pol_ctx := c', pol_persister := w'\<rparr>)"
    "txs w' = txs (pol_persister pol) @ journal_transactions (journal (AfterTransaction c))"
    by (rule exec_transaction [OF assms])
  with False journal_transactions_length [of "journal (AfterTransaction c)"] show ?thesis
    by (auto simp: TransactionRW_def PersistJournal_def
        split: sum.split storage_exception.split)
qed

lemma atomic_RWVoid:
  assumes "consistent s0 pol" "tx_valid valid f"
  shows "\<exists>p pol'. TransactionRWVoid run persist f pol = Some (Completed p pol') \<and> atomic_completion s0 pol p pol'"
proof (cases "pol_destructing pol")
  case True
  then show ?thesis using assms by (simp add: TransactionRWVoid_def tx_unchanged_def)
next
  case False
  obtain outcome c c' w' where t: "tx_exec run f (BeforeTransaction (pol_ctx pol)) = Some (outcome, c)"
    "consistent s0 (pol\<lparr>pol_ctx := Rollback c\<rparr>)" "unchanged pol (pol\<lparr>pol_ctx := Rollback c\<rparr>)"
    "persist (AfterTransaction c) (pol_persister pol) = Inr (c', w')"
    "consistent s0 (pol\<lparr>pol_ctx := c', pol_persister := w'\<rparr>)"
    "txs w' = txs (pol_persister pol) @ journal_transactions (journal (AfterTransaction c))"
    by (rule exec_transaction [OF assms])
  with False journal_transactions_length [of "journal (AfterTransaction c)"] show ?thesis
    by (auto simp: TransactionRWVoid_def PersistJournal_def
        split: sum.split storage_exception.split)
qed

text \<open>
  The two-step transaction is atomic when its second step does not throw after a commit.
\<close>

lemma atomic_RWTwoStep:
  assumes "consistent s0 pol" "tx_valid valid f1" "\<And>r. f2 r = None"
  shows "\<exists>p calls pol'. TransactionRWTwoStep run persist f1 f2 pol = Some (Completed (p, calls) pol') \<and>
    atomic_completion s0 pol p pol'"
proof (cases "pol_destructing pol")
  case True
  then show ?thesis using assms by (simp add: TransactionRWTwoStep_def tx_unchanged_def)
next
  case False
  obtain outcome c c' w' where t: "tx_exec run f1 (BeforeTransaction (pol_ctx pol)) = Some (outcome, c)"
    "consistent s0 (pol\<lparr>pol_ctx := Rollback c\<rparr>)" "unchanged pol (pol\<lparr>pol_ctx := Rollback c\<rparr>)"
    "persist (AfterTransaction c) (pol_persister pol) = Inr (c', w')"
    "consistent s0 (pol\<lparr>pol_ctx := c', pol_persister := w'\<rparr>)"
    "txs w' = txs (pol_persister pol) @ journal_transactions (journal (AfterTransaction c))"
    by (rule exec_transaction [OF assms(1,2)])
  with False assms(3) journal_transactions_length [of "journal (AfterTransaction c)"] show ?thesis
    by (auto simp: TransactionRWTwoStep_def PersistJournal_def handle_two_step_def Let_def
        split: sum.split storage_exception.split)
qed

text \<open>A read-only transaction leaves the fields, the journal and the stream alone.\<close>

lemma consistent_RO:
  assumes "consistent s0 pol" "tx_const f"
  shows "\<exists>p pol'. TransactionRO run f pol = Some (Completed p pol') \<and> consistent s0 pol' \<and>
    this (pol_ctx pol') = this (pol_ctx pol) \<and> pol_persister pol' = pol_persister pol"
proof (cases "pol_destructing pol")
  case False
  obtain outcome c' where c': "tx_exec run f (pol_ctx pol) = Some (outcome, c')" "this c' = this (pol_ctx pol)"
    "journal c' = journal (pol_ctx pol)" "monotonic_now_us (clock (pol_ctx pol)) \<le> monotonic_now_us (clock c')"
    using exec_const [OF assms(2)] by blast
  then have "consistent s0 (pol\<lparr>pol_ctx := c'\<rparr>)" using assms(1) by (auto simp: tx_consistent_def)
  with False c' show ?thesis by (simp add: TransactionRO_def)
qed (use assms in \<open>simp add: TransactionRO_def\<close>)

end

end
