(* ===== verification/StorageFields.thy ===== *)
theory StorageFields
  imports Dictionary OneToOne OneToMany ManyToMany Transaction
begin

text \<open>
  The fields of a storage, as the \<^verbatim>\<open>CURRENT_STORAGE_FIELD\<close> macros of \<^verbatim>\<open>src/storage/storage.h\<close> declare
  them: a list of containers of four kinds over one journal.  An event of a transaction is an event
  of one field; replaying it dispatches on the field.

  One type \<open>'k\<close> stands for the keys, rows and columns of all the fields and one type \<open>'t\<close> for their
  entries; \<open>entry_type\<close> has the accessors of the entry type of one field.
\<close>

datatype container_kind = KDictionary | KOneToOne | KOneToMany | KManyToMany

record ('k, 't, 'p) entry_type =
  et_kind :: container_kind
  et_GetKey :: "'t \<Rightarrow> 'k"
  et_GetRow :: "'t \<Rightarrow> 'k"
  et_GetCol :: "'t \<Rightarrow> 'k"
  et_PatchWith :: "'p \<Rightarrow> 't \<Rightarrow> 't"

datatype ('k, 't) field =
    DictField "('k, 't) dictionary"
  | O2OField "('k, 'k, 't) one_to_one"
  | O2MField "('k, 'k, 't) one_to_many"
  | M2MField "('k, 'k, 't) many_to_many"

datatype ('k, 't, 'p) field_event =
    DictEvent "('k, 't, 'p) dict_event"
  | MatrixEvent "('k, 'k, 't) matrix_event"

datatype ('k, 't, 'p) field_op =
    DictOp "('k, 't, 'p) dict_op"
  | O2OOp "('k, 'k, 't) o2o_op"
  | O2MOp "('k, 'k, 't) o2m_op"
  | M2MOp "('k, 'k, 't) m2m_op"

type_synonym ('k, 't) fields = "('k, 't) field list"
type_synonym ('k, 't, 'p) mutation = "nat \<times> ('k, 't, 'p) field_event"
type_synonym ('k, 't, 'p) schema = "('k, 't, 'p) entry_type list"

fun field_event_us :: "('k, 't, 'p) field_event \<Rightarrow> microseconds" where
  "field_event_us (DictEvent e) = dict_event_us e"
| "field_event_us (MatrixEvent e) = matrix_event_us e"

definition mutation_us :: "('k, 't, 'p) mutation \<Rightarrow> microseconds" where
  "mutation_us m = field_event_us (snd m)"

definition field_init :: "('k, 't, 'p) entry_type \<Rightarrow> ('k, 't) field" where
  "field_init et =
     (case et_kind et of
        KDictionary \<Rightarrow> DictField dict_empty
      | KOneToOne \<Rightarrow> O2OField o2o_empty
      | KOneToMany \<Rightarrow> O2MField o2m_empty
      | KManyToMany \<Rightarrow> M2MField m2m_empty)"

definition fields_init :: "('k, 't, 'p) schema \<Rightarrow> ('k, 't) fields" where
  "fields_init schema = map field_init schema"

text \<open>\<^verbatim>\<open>void operator()(const persisted_event_t& e) { field_name(e); }\<close>, resolved by the type of the event.\<close>

fun field_apply ::
  "('k, 't, 'p) entry_type \<Rightarrow> ('k, 't, 'p) field_event \<Rightarrow> ('k, 't) field \<Rightarrow> ('k, 't) field" where
  "field_apply et (DictEvent e) (DictField s) = DictField (dict_apply (et_GetKey et) (et_PatchWith et) e s)"
| "field_apply et (MatrixEvent e) (O2OField s) = O2OField (o2o_apply (et_GetRow et) (et_GetCol et) e s)"
| "field_apply et (MatrixEvent e) (O2MField s) = O2MField (o2m_apply (et_GetRow et) (et_GetCol et) e s)"
| "field_apply et (MatrixEvent e) (M2MField s) = M2MField (m2m_apply (et_GetRow et) (et_GetCol et) e s)"
| "field_apply et _ f = f"

definition fields_apply ::
  "('k, 't, 'p) schema \<Rightarrow> ('k, 't, 'p) mutation \<Rightarrow> ('k, 't) fields \<Rightarrow> ('k, 't) fields" where
  "fields_apply schema m fs =
     (case m of (i, e) \<Rightarrow>
        if i < length fs then fs[i := field_apply (schema ! i) e (fs ! i)] else fs)"

subsection \<open>An operation on a part of the state\<close>

text \<open>
  A container holds a reference to the journal of the storage, and only appends to it.  An
  operation on the part of the state that \<open>get\<close> and \<open>put\<close> select runs with a journal of its own,
  which is then appended to the outer one; its closures act on that part only.
\<close>

definition on_part :: "('u \<Rightarrow> 's option) \<Rightarrow> ('s \<Rightarrow> 'u \<Rightarrow> 'u) \<Rightarrow> ('s \<Rightarrow> 's) \<Rightarrow> 'u \<Rightarrow> 'u" where
  "on_part get put f u = (case get u of Some s \<Rightarrow> put (f s) u | None \<Rightarrow> u)"

definition run_part ::
  "('u \<Rightarrow> 's option) \<Rightarrow> ('s \<Rightarrow> 'u \<Rightarrow> 'u) \<Rightarrow> ('e \<Rightarrow> 'ev) \<Rightarrow> (('e, 's) ctx \<Rightarrow> ('e, 's) ctx option) \<Rightarrow>
   ('ev, 'u) ctx \<Rightarrow> ('ev, 'u) ctx option" where
  "run_part get put wrap op c = do {
     s \<leftarrow> get (this c);
     c' \<leftarrow> op \<lparr>clock = clock c, journal = empty_journal, this = s\<rparr>;
     Some (c\<lparr>clock := clock c',
             journal := (journal c)
               \<lparr>commit_log := commit_log (journal c) @ map wrap (commit_log (journal c')),
                rollback_log := rollback_log (journal c) @ map (on_part get put) (rollback_log (journal c'))\<rparr>,
             this := put (this c') (this c)\<rparr>) }"

locale part =
  fixes get :: "'u \<Rightarrow> 's option"
    and put :: "'s \<Rightarrow> 'u \<Rightarrow> 'u"
    and wrap :: "'e \<Rightarrow> 'ev"
    and invar :: "'u \<Rightarrow> bool" and view :: "'u \<Rightarrow> 'a"
    and app :: "'ev \<Rightarrow> 'u \<Rightarrow> 'u" and us :: "'ev \<Rightarrow> microseconds"
    and invar1 :: "'s \<Rightarrow> bool" and view1 :: "'s \<Rightarrow> 'b"
    and app1 :: "'e \<Rightarrow> 's \<Rightarrow> 's" and us1 :: "'e \<Rightarrow> microseconds"
  assumes get_put: "get u = Some s \<Longrightarrow> get (put s' u) = Some s'"
    and put_get: "get u = Some s \<Longrightarrow> put s u = u"
    and put_put: "put s (put s' u) = put s u"
    and invar_get: "invar u \<Longrightarrow> get u = Some s \<Longrightarrow> invar1 s"
    and invar_put: "invar u \<Longrightarrow> get u = Some s \<Longrightarrow> invar1 s' \<Longrightarrow> invar (put s' u)"
    and view_get: "invar u \<Longrightarrow> invar u' \<Longrightarrow> view u = view u' \<Longrightarrow> get u = Some s \<Longrightarrow>
      \<exists>s'. get u' = Some s' \<and> view1 s' = view1 s"
    and view_put: "get u = Some s0 \<Longrightarrow> get u' = Some s0' \<Longrightarrow> view u = view u' \<Longrightarrow> view1 s = view1 s' \<Longrightarrow>
      view (put s u) = view (put s' u')"
    and app_wrap: "get u = Some s \<Longrightarrow> app (wrap e) u = put (app1 e s) u"
    and us_wrap: "us (wrap e) = us1 e"
begin

lemma run_rollback_part:
  assumes "get u = Some s"
  shows "run_rollback (map (on_part get put) rbs) u = put (run_rollback rbs s) u"
  using assms
proof (induction rbs arbitrary: u s rule: rev_induct)
  case (snoc f rbs)
  then show ?case
    using get_put [OF snoc.prems, of "f s"] by (simp add: run_rollback_append on_part_def put_put)
qed (simp add: put_get)

lemma fold_app_part:
  assumes "get u = Some s"
  shows "fold app (map wrap evs) u = put (fold app1 evs s) u"
  using assms
proof (induction evs arbitrary: u s)
  case (Cons e evs)
  then show ?case
    using get_put [OF Cons.prems, of "app1 e s"] by (simp add: app_wrap [OF Cons.prems] put_put)
qed (simp add: put_get)

lemma undoes_part:
  assumes "get u = Some s" "invar u" "invar1 s'" and "undoes invar1 view1 rbs s s'"
  shows "undoes invar view (map (on_part get put) rbs) u (put s' u)"
  unfolding undoes_def
proof (intro allI impI)
  fix t assume t: "invar t \<and> view t = view (put s' u)"
  note u' = invar_put [OF assms(2,1,3)]
  obtain st where st: "get t = Some st" "view1 st = view1 s'"
    using view_get [OF u' _ _ get_put [OF assms(1)], of t] t by auto
  with assms(4) t have "invar1 (run_rollback rbs st)" "view1 (run_rollback rbs st) = view1 s"
    by (auto simp: undoes_def intro: invar_get)
  then show "invar (run_rollback (map (on_part get put) rbs) t) \<and>
      view (run_rollback (map (on_part get put) rbs) t) = view u"
    using t st view_put [OF st(1) get_put [OF assms(1)], of s' "run_rollback rbs st" s]
    by (auto simp: run_rollback_part [OF st(1)] put_put put_get [OF assms(1)] intro: invar_put)
qed

lemma redoes_part:
  assumes "get u = Some s" "invar u" and "redoes invar1 view1 app1 evs s s'"
  shows "redoes invar view app (map wrap evs) u (put s' u)"
  unfolding redoes_def
proof (intro allI impI)
  fix t assume t: "invar t \<and> view t = view u"
  obtain st where st: "get t = Some st" "view1 st = view1 s"
    using view_get [OF assms(2) _ _ assms(1), of t] t by auto
  with assms(3) t have "invar1 (fold app1 evs st)" "view1 (fold app1 evs st) = view1 s'"
    by (auto simp: redoes_def intro: invar_get)
  then show "invar (fold app (map wrap evs) t) \<and> view (fold app (map wrap evs) t) = view (put s' u)"
    using t st view_put [OF st(1) assms(1), of "fold app1 evs st" s']
    by (auto simp: fold_app_part [OF st(1)] intro: invar_put)
qed

lemma run_part_logged:
  assumes inv: "invar (this c)" and get: "get (this c) = Some s"
    and op: "\<And>c0. this c0 = s \<Longrightarrow> \<exists>c'. op c0 = Some c' \<and> logged invar1 view1 app1 us1 c0 c'"
  shows "\<exists>c'. run_part get put wrap op c = Some c' \<and> logged invar view app us c c'"
proof -
  let ?c0 = "\<lparr>clock = clock c, journal = empty_journal, this = s\<rparr>"
  obtain c' where c': "op ?c0 = Some c'" "logged invar1 view1 app1 us1 ?c0 c'"
    using op [of ?c0] by auto
  then have l: "invar1 (this c')" "undoes invar1 view1 (rollback_log (journal c')) s (this c')"
    "redoes invar1 view1 app1 (commit_log (journal c')) s (this c')"
    "stamped us1 (clock c) (commit_log (journal c')) (clock c')"
    by (auto simp: logged_def empty_journal_def)
  have "stamped us (clock c) (map wrap (commit_log (journal c'))) (clock c')"
    using l(4) by (simp add: stamped_def us_wrap comp_def)
  then show ?thesis
    using c'(1) get invar_put [OF inv get l(1)] undoes_part [OF get inv l(1,2)] redoes_part [OF get inv l(3)]
    by (auto simp: run_part_def logged_def)
qed

end

subsection \<open>One field\<close>

fun get_dict :: "('k, 't) field \<Rightarrow> ('k, 't) dictionary option" where
  "get_dict (DictField s) = Some s" | "get_dict _ = None"

fun get_o2o :: "('k, 't) field \<Rightarrow> ('k, 'k, 't) one_to_one option" where
  "get_o2o (O2OField s) = Some s" | "get_o2o _ = None"

fun get_o2m :: "('k, 't) field \<Rightarrow> ('k, 'k, 't) one_to_many option" where
  "get_o2m (O2MField s) = Some s" | "get_o2m _ = None"

fun get_m2m :: "('k, 't) field \<Rightarrow> ('k, 'k, 't) many_to_many option" where
  "get_m2m (M2MField s) = Some s" | "get_m2m _ = None"

fun field_run ::
  "('k, 't, 'p) entry_type \<Rightarrow> ('k, 't, 'p) field_op \<Rightarrow> (('k, 't, 'p) field_event, ('k, 't) field) ctx \<Rightarrow>
   (('k, 't, 'p) field_event, ('k, 't) field) ctx option" where
  "field_run et (DictOp op) = run_part get_dict (\<lambda>s _. DictField s) DictEvent (dict_run (et_GetKey et) (et_PatchWith et) op)"
| "field_run et (O2OOp op) = run_part get_o2o (\<lambda>s _. O2OField s) MatrixEvent (o2o_run (et_GetRow et) (et_GetCol et) op)"
| "field_run et (O2MOp op) = run_part get_o2m (\<lambda>s _. O2MField s) MatrixEvent (o2m_run (et_GetRow et) (et_GetCol et) op)"
| "field_run et (M2MOp op) = run_part get_m2m (\<lambda>s _. M2MField s) MatrixEvent (m2m_run (et_GetRow et) (et_GetCol et) op)"

text \<open>What the C++ type checker and the user's patch guarantee of a call.\<close>

fun field_valid :: "('k, 't, 'p) entry_type \<Rightarrow> ('k, 't, 'p) field_op \<Rightarrow> bool" where
  "field_valid et (DictOp op) \<longleftrightarrow> et_kind et = KDictionary \<and> dict_valid (et_GetKey et) (et_PatchWith et) op"
| "field_valid et (O2OOp op) \<longleftrightarrow> et_kind et = KOneToOne"
| "field_valid et (O2MOp op) \<longleftrightarrow> et_kind et = KOneToMany"
| "field_valid et (M2MOp op) \<longleftrightarrow> et_kind et = KManyToMany"

fun field_inv :: "('k, 't, 'p) entry_type \<Rightarrow> ('k, 't) field \<Rightarrow> bool" where
  "field_inv et (DictField s) \<longleftrightarrow> et_kind et = KDictionary \<and> dict_inv (et_GetKey et) s"
| "field_inv et (O2OField s) \<longleftrightarrow> et_kind et = KOneToOne \<and> o2o_inv (et_GetRow et) (et_GetCol et) s"
| "field_inv et (O2MField s) \<longleftrightarrow> et_kind et = KOneToMany \<and> o2m_inv (et_GetRow et) (et_GetCol et) s"
| "field_inv et (M2MField s) \<longleftrightarrow> et_kind et = KManyToMany \<and> m2m_inv (et_GetRow et) (et_GetCol et) s"

text \<open>The contents of a field: entries and last-modified times, without the pointers.\<close>

datatype ('k, 't) contents =
    DictContents "('k, 't) dictionary"
  | O2OContents "'k \<times> 'k \<rightharpoonup> 't" "'k \<times> 'k \<rightharpoonup> microseconds"
  | O2MContents "'k \<times> 'k \<rightharpoonup> 't" "'k \<times> 'k \<rightharpoonup> microseconds"
  | M2MContents "'k \<times> 'k \<rightharpoonup> 't" "'k \<times> 'k \<rightharpoonup> microseconds"

fun field_view :: "('k, 't) field \<Rightarrow> ('k, 't) contents" where
  "field_view (DictField s) = DictContents s"
| "field_view (O2OField s) = O2OContents (o2o_elems s) (o2o_last_modified s)"
| "field_view (O2MField s) = O2MContents (o2m_elems s) (o2m_last_modified s)"
| "field_view (M2MField s) = M2MContents (m2m_elems s) (m2m_last_modified s)"

lemma get_field_iff [simp]:
  "get_dict f = Some d \<longleftrightarrow> f = DictField d" "get_o2o f = Some a \<longleftrightarrow> f = O2OField a"
  "get_o2m f = Some b \<longleftrightarrow> f = O2MField b" "get_m2m f = Some e \<longleftrightarrow> f = M2MField e"
  by (cases f; auto)+

lemma field_view_iff:
  "field_view f = DictContents d \<longleftrightarrow> f = DictField d"
  "field_view f = O2OContents m l \<longleftrightarrow> (\<exists>s. f = O2OField s \<and> o2o_elems s = m \<and> o2o_last_modified s = l)"
  "field_view f = O2MContents m l \<longleftrightarrow> (\<exists>s. f = O2MField s \<and> o2m_elems s = m \<and> o2m_last_modified s = l)"
  "field_view f = M2MContents m l \<longleftrightarrow> (\<exists>s. f = M2MField s \<and> m2m_elems s = m \<and> m2m_last_modified s = l)"
  by (cases f; auto)+

lemmas field_view_eq = field_view_iff field_view_iff [THEN eq_commute [THEN trans]]

interpretation dict_part: part get_dict "\<lambda>s _. DictField s" DictEvent "field_inv et" field_view
  "field_apply et" field_event_us "dict_inv (et_GetKey et)" "\<lambda>s. s"
  "dict_apply (et_GetKey et) (et_PatchWith et)" dict_event_us
  for et :: "('k, 't, 'p) entry_type"
  by unfold_locales (auto simp: field_view_eq)

interpretation o2o_part: part get_o2o "\<lambda>s _. O2OField s" MatrixEvent "field_inv et" field_view
  "field_apply et" field_event_us "o2o_inv (et_GetRow et) (et_GetCol et)" o2o_view
  "o2o_apply (et_GetRow et) (et_GetCol et)" matrix_event_us
  for et :: "('k, 't, 'p) entry_type"
  by unfold_locales (auto simp: field_view_eq)

interpretation o2m_part: part get_o2m "\<lambda>s _. O2MField s" MatrixEvent "field_inv et" field_view
  "field_apply et" field_event_us "o2m_inv (et_GetRow et) (et_GetCol et)" o2m_view
  "o2m_apply (et_GetRow et) (et_GetCol et)" matrix_event_us
  for et :: "('k, 't, 'p) entry_type"
  by unfold_locales (auto simp: field_view_eq)

interpretation m2m_part: part get_m2m "\<lambda>s _. M2MField s" MatrixEvent "field_inv et" field_view
  "field_apply et" field_event_us "m2m_inv (et_GetRow et) (et_GetCol et)" m2m_view
  "m2m_apply (et_GetRow et) (et_GetCol et)" matrix_event_us
  for et :: "('k, 't, 'p) entry_type"
  by unfold_locales (auto simp: field_view_eq)

lemma field_kind:
  assumes "field_inv et f"
  shows "et_kind et = KDictionary \<Longrightarrow> \<exists>s. f = DictField s \<and> dict_inv (et_GetKey et) s"
    "et_kind et = KOneToOne \<Longrightarrow> \<exists>s. f = O2OField s \<and> o2o_inv (et_GetRow et) (et_GetCol et) s"
    "et_kind et = KOneToMany \<Longrightarrow> \<exists>s. f = O2MField s \<and> o2m_inv (et_GetRow et) (et_GetCol et) s"
    "et_kind et = KManyToMany \<Longrightarrow> \<exists>s. f = M2MField s \<and> m2m_inv (et_GetRow et) (et_GetCol et) s"
  using assms by (cases f; auto)+

lemma field_run_logged:
  assumes inv: "field_inv et (this c)" and valid: "field_valid et op"
  shows "\<exists>c'. field_run et op c = Some c' \<and> logged (field_inv et) field_view (field_apply et) field_event_us c c'"
proof (cases op)
  case (DictOp x)
  with valid obtain s where "this c = DictField s" "dict_inv (et_GetKey et) s"
    using field_kind(1) [OF inv] by auto
  then show ?thesis
    using DictOp valid dict.run_logged by (auto intro!: dict_part.run_part_logged [OF inv])
next
  case (O2OOp x)
  with valid obtain s where "this c = O2OField s" "o2o_inv (et_GetRow et) (et_GetCol et) s"
    using field_kind(2) [OF inv] by auto
  then show ?thesis
    using O2OOp o2o_field.run_logged by (auto intro!: o2o_part.run_part_logged [OF inv])
next
  case (O2MOp x)
  with valid obtain s where "this c = O2MField s" "o2m_inv (et_GetRow et) (et_GetCol et) s"
    using field_kind(3) [OF inv] by auto
  then show ?thesis
    using O2MOp o2m_field.run_logged by (auto intro!: o2m_part.run_part_logged [OF inv])
next
  case (M2MOp x)
  with valid obtain s where "this c = M2MField s" "m2m_inv (et_GetRow et) (et_GetCol et) s"
    using field_kind(4) [OF inv] by auto
  then show ?thesis
    using M2MOp m2m_field.run_logged by (auto intro!: m2m_part.run_part_logged [OF inv])
qed

subsection \<open>All the fields\<close>

definition get_field :: "nat \<Rightarrow> ('k, 't) fields \<Rightarrow> ('k, 't) field option" where
  "get_field i fs = (if i < length fs then Some (fs ! i) else None)"

definition fields_run ::
  "('k, 't, 'p) schema \<Rightarrow> nat \<times> ('k, 't, 'p) field_op \<Rightarrow> (('k, 't, 'p) mutation, ('k, 't) fields) ctx \<Rightarrow>
   (('k, 't, 'p) mutation, ('k, 't) fields) ctx option" where
  "fields_run schema op = (case op of (i, fop) \<Rightarrow>
     run_part (get_field i) (\<lambda>f fs. fs[i := f]) (Pair i) (field_run (schema ! i) fop))"

definition fields_valid :: "('k, 't, 'p) schema \<Rightarrow> nat \<times> ('k, 't, 'p) field_op \<Rightarrow> bool" where
  "fields_valid schema op \<longleftrightarrow> fst op < length schema \<and> field_valid (schema ! fst op) (snd op)"

definition fields_inv :: "('k, 't, 'p) schema \<Rightarrow> ('k, 't) fields \<Rightarrow> bool" where
  "fields_inv schema fs \<longleftrightarrow> list_all2 field_inv schema fs"

definition fields_view :: "('k, 't) fields \<Rightarrow> ('k, 't) contents list" where
  "fields_view fs = map field_view fs"

interpretation fields_part: part "get_field i" "\<lambda>f fs. fs[i := f]" "Pair i" "fields_inv schema"
  fields_view "fields_apply schema" mutation_us "field_inv (schema ! i)" field_view
  "field_apply (schema ! i)" field_event_us
  for schema :: "('k, 't, 'p) schema" and i :: nat
proof (unfold_locales, goal_cases)
  case (6 u u' s)
  then show ?case
    by (auto simp: get_field_def fields_view_def list_eq_iff_nth_eq split: if_splits)
qed (auto simp: get_field_def fields_inv_def fields_view_def fields_apply_def mutation_us_def
      list_all2_conv_all_nth nth_list_update map_update split: if_splits)

interpretation fields: journaled_field "fields_inv schema" fields_view "fields_apply schema" mutation_us
  "fields_run schema" "fields_valid schema"
  for schema :: "('k, 't, 'p) schema"
proof
  fix c :: "(('k, 't, 'p) mutation, ('k, 't) fields) ctx" and op :: "nat \<times> ('k, 't, 'p) field_op"
  assume inv: "fields_inv schema (this c)" and valid: "fields_valid schema op"
  obtain i fop where op: "op = (i, fop)" by (cases op)
  from inv valid have i: "get_field i (this c) = Some (this c ! i)" "field_inv (schema ! i) (this c ! i)"
    by (auto simp: op fields_valid_def fields_inv_def get_field_def list_all2_conv_all_nth)
  show "\<exists>c'. fields_run schema op c = Some c' \<and>
      logged (fields_inv schema) fields_view (fields_apply schema) mutation_us c c'"
    using i valid field_run_logged [of "schema ! i"]
    by (auto simp: op fields_run_def fields_valid_def intro!: fields_part.run_part_logged [OF inv])
qed

lemma fields_inv_init: "fields_inv schema (fields_init schema)"
  by (auto simp: fields_inv_def fields_init_def list_all2_map2 field_init_def dict_inv_empty o2o_inv_empty
      o2m_inv_empty m2m_inv_empty split: container_kind.splits intro!: list.rel_refl_strong)

end
