(* ===== verification/Stream.thy ===== *)
theory Stream
  imports Persister
begin

text \<open>
  \<^verbatim>\<open>src/stream/stream.h\<close> and \<^verbatim>\<open>src/stream/stream_impl.h\<close>: a stream owns a persister and hands out its
  publisher; a subscriber is a thread that follows the persister from a given index.

  The subscriber thread (\<^verbatim>\<open>ThreadImpl\<close> and \<^verbatim>\<open>PassEntriesToSubscriber\<close>) is a state machine that takes
  one step per call into the subscriber or into the persister; publishers, head updates and the
  termination signal interleave with it in any order.
\<close>

subsection \<open>Publishers\<close>

text \<open>
  A publisher is known by its generation.  \<^verbatim>\<open>RecreatePublisher\<close> destroys the owned publisher, which waits
  until every borrower has released it: \<^const>\<open>None\<close> stands for waiting.
\<close>

record 's stream_state =
  str_persister :: 's
  str_generation :: nat
  str_borrowable :: bool
  str_borrowed :: nat

definition CreateStream :: "'s \<Rightarrow> 's stream_state" where
  "CreateStream s = \<lparr>str_persister = s, str_generation = 0, str_borrowable = True, str_borrowed = 0\<rparr>"

definition BorrowPublisher :: "'s stream_state \<Rightarrow> string + nat \<times> 's stream_state" where
  "BorrowPublisher st =
     (if str_borrowable st then Inr (str_generation st, st\<lparr>str_borrowed := str_borrowed st + 1\<rparr>)
      else Inl ''PublisherNotAvailableException'')"

definition ReleasePublisher :: "'s stream_state \<Rightarrow> 's stream_state" where
  "ReleasePublisher st = st\<lparr>str_borrowed := str_borrowed st - 1\<rparr>"

definition IsMasterStream :: "'s stream_state \<Rightarrow> bool" where
  "IsMasterStream st \<longleftrightarrow> str_borrowable st"

definition RecreatePublisher :: "'s stream_state \<Rightarrow> (nat \<times> 's stream_state) option" where
  "RecreatePublisher st =
     (if str_borrowed st \<noteq> 0 then None
      else let g = str_generation st + 1
           in Some (g, st\<lparr>str_generation := g, str_borrowable := False, str_borrowed := 1\<rparr>))"

definition BecomeMasterStream :: "'s stream_state \<Rightarrow> 's stream_state option" where
  "BecomeMasterStream st =
     map_option (\<lambda>(g, st). st\<lparr>str_borrowable := True, str_borrowed := 0\<rparr>) (RecreatePublisher st)"

definition BecomeFollowingStream :: "'s stream_state \<Rightarrow> (nat \<times> 's stream_state) option" where
  "BecomeFollowingStream st = RecreatePublisher st"

text \<open>Publishing through a publisher of the given generation; a stale one is undefined behaviour.\<close>

definition PublisherPublishImpl ::
  "('s, 'e) persister_ops \<Rightarrow> nat \<Rightarrow> 'e \<Rightarrow> microseconds \<Rightarrow> 's stream_state \<Rightarrow>
   (ss_exception + idxts \<times> 's stream_state) option" where
  "PublisherPublishImpl ops g e timestamp st =
     (if g \<noteq> str_generation st then None
      else Some (map_sum id (map_prod id (\<lambda>s. st\<lparr>str_persister := s\<rparr>))
             (PersisterPublish ops e timestamp (str_persister st))))"

definition PublisherUpdateHeadImpl ::
  "('s, 'e) persister_ops \<Rightarrow> nat \<Rightarrow> microseconds \<Rightarrow> 's stream_state \<Rightarrow> (ss_exception + 's stream_state) option" where
  "PublisherUpdateHeadImpl ops g timestamp st =
     (if g \<noteq> str_generation st then None
      else Some (map_sum id (\<lambda>s. st\<lparr>str_persister := s\<rparr>)
             (PersisterUpdateHead ops timestamp (str_persister st))))"

subsection \<open>Subscribers\<close>

datatype entry_response = ResponseDone | ResponseMore
datatype termination_response = TerminationWait | TerminationTerminate

record ('u, 'e) subscriber =
  sub_matches :: "'e \<Rightarrow> bool"
  sub_entry :: "'e \<Rightarrow> idxts \<Rightarrow> idxts \<Rightarrow> 'u \<Rightarrow> entry_response \<times> 'u"
  sub_no_more :: "'u \<Rightarrow> entry_response \<times> 'u"
  sub_head :: "microseconds \<Rightarrow> 'u \<Rightarrow> entry_response \<times> 'u"
  sub_terminate :: "'u \<Rightarrow> termination_response \<times> 'u"

text \<open>\<^verbatim>\<open>PassEntryToSubscriberIfTypeMatches\<close> of \<^verbatim>\<open>src/blocks/ss/pubsub.h\<close>.\<close>

definition PassEntryToSubscriberIfTypeMatches ::
  "('u, 'e) subscriber \<Rightarrow> 'e \<Rightarrow> idxts \<Rightarrow> idxts \<Rightarrow> 'u \<Rightarrow> entry_response \<times> 'u" where
  "PassEntryToSubscriberIfTypeMatches sub entry current last_published u =
     (if sub_matches sub entry then sub_entry sub entry current last_published u
      else if idx_index current < idx_index last_published then (ResponseMore, u)
      else sub_no_more sub u)"

datatype 'e trace_event = TraceEntry idxts 'e | TraceHead microseconds

fun trace_us :: "'e trace_event \<Rightarrow> microseconds" where
  "trace_us (TraceEntry i e) = idx_us i"
| "trace_us (TraceHead u) = u"

text \<open>
  Where the thread is: at the top of its loop; passing the entries that are left of a range, with
  the \<^verbatim>\<open>head_idx\<close> it read; about to report the head; waiting on the condition variable; or returned.
\<close>

datatype 'e thread_pc =
    AtLoop
  | Passing "(idxts \<times> 'e) list" nat microseconds microseconds
  | Notifying nat microseconds
  | Waiting
  | Returned

record ('u, 'e) subscriber_thread =
  th_pc :: "'e thread_pc"
  th_head :: microseconds
  th_index :: nat
  th_terminate_sent :: bool
  th_user :: 'u
  th_trace :: "'e trace_event list"

record ('s, 'u, 'e) subscription =
  sn_persister :: 's
  sn_signal :: bool
  sn_thread :: "('u, 'e) subscriber_thread"

definition thread_init :: "nat \<Rightarrow> microseconds \<Rightarrow> 'u \<Rightarrow> ('u, 'e) subscriber_thread" where
  "thread_init begin_idx from_us u =
     \<lparr>th_pc = AtLoop, th_head = from_us - 1, th_index = begin_idx, th_terminate_sent = False, th_user = u,
      th_trace = []\<rparr>"

text \<open>\<^verbatim>\<open>if (!terminate_sent_ && terminate_signal_) ...\<close>: whether the thread returns.\<close>

definition check_terminate ::
  "('u, 'e) subscriber \<Rightarrow> bool \<Rightarrow> ('u, 'e) subscriber_thread \<Rightarrow> bool \<times> ('u, 'e) subscriber_thread" where
  "check_terminate sub signal th =
     (if \<not> th_terminate_sent th \<and> signal
      then case sub_terminate sub (th_user th) of
             (response, u) \<Rightarrow> (response \<noteq> TerminationWait, th\<lparr>th_terminate_sent := True, th_user := u\<rparr>)
      else (False, th))"

definition loop_step ::
  "('s, 'e) persister_ops \<Rightarrow> ('u, 'e) subscriber \<Rightarrow> 's \<Rightarrow> bool \<Rightarrow> ('u, 'e) subscriber_thread \<Rightarrow>
   ('u, 'e) subscriber_thread" where
  "loop_step ops sub s signal th =
     (case check_terminate sub signal th of
        (True, th) \<Rightarrow> th\<lparr>th_pc := Returned\<rparr>
      | (False, th) \<Rightarrow>
          let head_idx = PersisterHeadAndLast ops s;
              size = (case hoi_idxts head_idx of Some i \<Rightarrow> idx_index i + 1 | None \<Rightarrow> 0) in
          if hoi_head head_idx > th_head th then
            (case hoi_idxts head_idx of
               Some i \<Rightarrow>
                 if size > th_index th then
                   (case PersisterIterate ops (th_index th) size s of
                      Inr es \<Rightarrow> th\<lparr>th_pc := Passing es size (idx_us i) (hoi_head head_idx)\<rparr>
                    | Inl x \<Rightarrow> th\<lparr>th_pc := Returned\<rparr>)
                 else th\<lparr>th_pc := Notifying size (hoi_head head_idx)\<rparr>
             | None \<Rightarrow> th\<lparr>th_pc := Notifying size (hoi_head head_idx)\<rparr>)
          else th\<lparr>th_pc := Waiting\<rparr>)"

definition pass_step ::
  "('s, 'e) persister_ops \<Rightarrow> ('u, 'e) subscriber \<Rightarrow> 's \<Rightarrow> bool \<Rightarrow> idxts \<times> 'e \<Rightarrow> 'e thread_pc \<Rightarrow>
   ('u, 'e) subscriber_thread \<Rightarrow> ('u, 'e) subscriber_thread" where
  "pass_step ops sub s signal e next_pc th =
     (case check_terminate sub signal th of
        (True, th) \<Rightarrow> th\<lparr>th_pc := Returned\<rparr>
      | (False, th) \<Rightarrow>
          (case hoi_idxts (PersisterHeadAndLast ops s) of
             None \<Rightarrow> th\<lparr>th_pc := Returned\<rparr>
           | Some last_published \<Rightarrow>
               (case PassEntryToSubscriberIfTypeMatches sub (snd e) (fst e) last_published (th_user th) of
                  (response, u) \<Rightarrow>
                    th\<lparr>th_user := u,
                       th_trace := th_trace th @ (if sub_matches sub (snd e) then [TraceEntry (fst e) (snd e)] else []),
                       th_pc := (if response = ResponseDone then Returned else next_pc)\<rparr>)))"

definition notify_step ::
  "('u, 'e) subscriber \<Rightarrow> nat \<Rightarrow> nat \<Rightarrow> microseconds \<Rightarrow> ('u, 'e) subscriber_thread \<Rightarrow>
   ('u, 'e) subscriber_thread" where
  "notify_step sub begin_idx sz head th =
     (if sz \<ge> begin_idx \<and> head > th_head th
      then case sub_head sub head (th_user th) of
             (response, u) \<Rightarrow>
               th\<lparr>th_user := u, th_trace := th_trace th @ [TraceHead head], th_head := head,
                  th_pc := (if response = ResponseDone then Returned else AtLoop)\<rparr>
      else th\<lparr>th_head := head, th_pc := AtLoop\<rparr>)"

text \<open>The predicate of \<^verbatim>\<open>terminate_signal_.WaitUntil\<close>.\<close>

definition wait_predicate ::
  "('s, 'e) persister_ops \<Rightarrow> nat \<Rightarrow> 's \<Rightarrow> bool \<Rightarrow> ('u, 'e) subscriber_thread \<Rightarrow> bool" where
  "wait_predicate ops begin_idx s signal th \<longleftrightarrow>
     signal \<or> PersisterSize ops s > th_index th \<or>
     (th_index th > begin_idx \<and> PersisterCurrentHead ops s > th_head th)"

text \<open>One step of the thread; \<^const>\<open>None\<close> when it is blocked or has returned.\<close>

definition thread_step ::
  "('s, 'e) persister_ops \<Rightarrow> ('u, 'e) subscriber \<Rightarrow> nat \<Rightarrow> 's \<Rightarrow> bool \<Rightarrow> ('u, 'e) subscriber_thread \<Rightarrow>
   ('u, 'e) subscriber_thread option" where
  "thread_step ops sub begin_idx s signal th =
     (case th_pc th of
        AtLoop \<Rightarrow> Some (loop_step ops sub s signal th)
      | Passing [] sz last_us head \<Rightarrow>
          Some (th\<lparr>th_index := sz, th_head := last_us, th_pc := Notifying sz head\<rparr>)
      | Passing (e # es) sz last_us head \<Rightarrow>
          Some (pass_step ops sub s signal e (Passing es sz last_us head) th)
      | Notifying sz head \<Rightarrow> Some (notify_step sub begin_idx sz head th)
      | Waiting \<Rightarrow> if wait_predicate ops begin_idx s signal th then Some (th\<lparr>th_pc := AtLoop\<rparr>) else None
      | Returned \<Rightarrow> None)"

inductive subscription_step ::
  "('s, 'e) persister_ops \<Rightarrow> ('u, 'e) subscriber \<Rightarrow> nat \<Rightarrow> ('s, 'u, 'e) subscription \<Rightarrow>
   ('s, 'u, 'e) subscription \<Rightarrow> bool"
  for ops sub begin_idx where
  step_thread: "thread_step ops sub begin_idx (sn_persister w) (sn_signal w) (sn_thread w) = Some th \<Longrightarrow>
     subscription_step ops sub begin_idx w (w\<lparr>sn_thread := th\<rparr>)"
| step_publish: "PersisterPublish ops e u (sn_persister w) = Inr (i, s) \<Longrightarrow>
     subscription_step ops sub begin_idx w (w\<lparr>sn_persister := s\<rparr>)"
| step_update_head: "PersisterUpdateHead ops u (sn_persister w) = Inr s \<Longrightarrow> u \<le> int64_max \<Longrightarrow>
     subscription_step ops sub begin_idx w (w\<lparr>sn_persister := s\<rparr>)"
| step_terminate: "subscription_step ops sub begin_idx w (w\<lparr>sn_signal := True\<rparr>)"

inductive subscription_reachable ::
  "('s, 'e) persister_ops \<Rightarrow> ('u, 'e) subscriber \<Rightarrow> nat \<Rightarrow> ('s, 'u, 'e) subscription \<Rightarrow>
   ('s, 'u, 'e) subscription \<Rightarrow> bool"
  for ops sub begin_idx w0 where
  reachable_init: "subscription_reachable ops sub begin_idx w0 w0"
| reachable_step: "subscription_reachable ops sub begin_idx w0 w \<Longrightarrow>
     subscription_step ops sub begin_idx w w' \<Longrightarrow> subscription_reachable ops sub begin_idx w0 w'"

subsection \<open>What a subscriber sees\<close>

text \<open>
  The trace of a subscriber: the entries it was called with are consecutive records of the log from
  its first index on, those of the type it asked for, none lost and none repeated; and all its calls,
  entries and heads, come with strictly increasing timestamps.
\<close>

fun trace_entries :: "'e trace_event list \<Rightarrow> (idxts \<times> 'e) list" where
  "trace_entries [] = []"
| "trace_entries (TraceEntry i e # tr) = (i, e) # trace_entries tr"
| "trace_entries (TraceHead u # tr) = trace_entries tr"

lemma trace_entries_append [simp]: "trace_entries (xs @ ys) = trace_entries xs @ trace_entries ys"
  by (induction xs rule: trace_entries.induct) simp_all

definition seen_upto :: "nat \<Rightarrow> ('e \<Rightarrow> bool) \<Rightarrow> 'e plog \<Rightarrow> nat \<Rightarrow> 'e trace_event list \<Rightarrow> bool" where
  "seen_upto b M l pos tr \<longleftrightarrow>
     b \<le> pos \<and> (pos = b \<or> pos \<le> length (plog_records l)) \<and>
     trace_entries tr = filter (\<lambda>r. M (snd r)) (take (pos - b) (drop b (plog_records l))) \<and>
     sorted_wrt (<) (map trace_us tr) \<and>
     (\<forall>ev \<in> set tr. trace_us ev \<le> plog_head l \<and>
        (\<forall>r \<in> set (drop pos (plog_records l)). trace_us ev < idx_us (fst r)))"

fun pc_ok :: "nat \<Rightarrow> ('e \<Rightarrow> bool) \<Rightarrow> 'e plog \<Rightarrow> ('u, 'e) subscriber_thread \<Rightarrow> 'e thread_pc \<Rightarrow> bool" where
  "pc_ok b M l th (Passing es sz last_us head) \<longleftrightarrow>
     length es \<le> sz \<and> sz \<le> length (plog_records l) \<and> b \<le> sz - length es \<and> 0 < sz \<and>
     seen_upto b M l (sz - length es) (th_trace th) \<and>
     es = drop (sz - length es) (take sz (plog_records l)) \<and>
     last_us = idx_us (fst (plog_records l ! (sz - 1))) \<and>
     (\<forall>ev \<in> set (th_trace th). trace_us ev \<le> last_us) \<and> last_us \<le> head \<and> head \<le> plog_head l \<and>
     (\<forall>r \<in> set (drop sz (plog_records l)). head < idx_us (fst r))"
| "pc_ok b M l th (Notifying sz head) \<longleftrightarrow>
     seen_upto b M l (th_index th) (th_trace th) \<and> (\<forall>ev \<in> set (th_trace th). trace_us ev \<le> th_head th) \<and>
     th_head th \<le> head \<and> head \<le> plog_head l \<and>
     (\<forall>r \<in> set (drop (th_index th) (plog_records l)). head < idx_us (fst r))"
| "pc_ok b M l th Returned \<longleftrightarrow> (\<exists>pos. seen_upto b M l pos (th_trace th))"
| "pc_ok b M l th pc \<longleftrightarrow>
     seen_upto b M l (th_index th) (th_trace th) \<and> (\<forall>ev \<in> set (th_trace th). trace_us ev \<le> th_head th)"

definition plog_extends :: "'e plog \<Rightarrow> 'e plog \<Rightarrow> bool" where
  "plog_extends l l' \<longleftrightarrow> plog_head l \<le> plog_head l' \<and>
     (\<exists>rs. plog_records l' = plog_records l @ rs \<and> (\<forall>r \<in> set rs. plog_head l < idx_us (fst r)))"

lemma plog_publish_extends: "plog_publish e u l = Inr (i, l') \<Longrightarrow> plog_extends l l'"
  by (auto simp: plog_publish_def plog_extends_def plog_records_snoc split: if_splits)

lemma plog_update_head_extends: "plog_update_head u l = Inr l' \<Longrightarrow> plog_extends l l'"
  by (auto simp: plog_update_head_def plog_extends_def plog_records_def split: if_splits)

lemma plog_extendsE:
  assumes "plog_extends l l'"
  obtains rs where "plog_records l' = plog_records l @ rs" "plog_head l \<le> plog_head l'"
    "\<And>r. r \<in> set rs \<Longrightarrow> plog_head l < idx_us (fst r)"
  using assms by (auto simp: plog_extends_def)

lemma plog_extends_later:
  assumes "plog_extends l l'" "h \<le> plog_head l" "\<forall>r \<in> set (drop n (plog_records l)). h < idx_us (fst r)"
  shows "\<forall>r \<in> set (drop n (plog_records l')). h < idx_us (fst r)"
proof
  fix r assume r: "r \<in> set (drop n (plog_records l'))"
  obtain rs where rs: "plog_records l' = plog_records l @ rs"
    "\<forall>r \<in> set rs. plog_head l < idx_us (fst r)" using assms(1) by (auto simp: plog_extends_def)
  from r have "r \<in> set (drop n (plog_records l)) \<or> r \<in> set rs"
    by (auto simp: rs(1) dest: in_set_dropD)
  then show "h < idx_us (fst r)"
    using assms(2,3) rs(2) le_less_trans by blast
qed

lemma plog_extends_take:
  assumes "plog_extends l l'" "n \<le> length (plog_records l)"
  shows "n \<le> length (plog_records l')" "take n (plog_records l') = take n (plog_records l)"
    "0 < n \<Longrightarrow> plog_records l' ! (n - 1) = plog_records l ! (n - 1)"
proof -
  obtain rs where "plog_records l' = plog_records l @ rs" by (rule plog_extendsE [OF assms(1)])
  with assms(2) show "n \<le> length (plog_records l')" "take n (plog_records l') = take n (plog_records l)"
    "0 < n \<Longrightarrow> plog_records l' ! (n - 1) = plog_records l ! (n - 1)"
    by (auto simp: nth_append)
qed

lemma seen_upto_extends:
  assumes ext: "plog_extends l l'" and seen: "seen_upto b M l pos tr"
  shows "seen_upto b M l' pos tr"
proof -
  have pos: "b \<le> pos" "pos = b \<or> pos \<le> length (plog_records l)"
    and tr: "trace_entries tr = filter (\<lambda>r. M (snd r)) (take (pos - b) (drop b (plog_records l)))"
    and sorted: "sorted_wrt (<) (map trace_us tr)"
    and ev: "\<And>ev. ev \<in> set tr \<Longrightarrow> trace_us ev \<le> plog_head l"
      "\<And>ev. ev \<in> set tr \<Longrightarrow> \<forall>r \<in> set (drop pos (plog_records l)). trace_us ev < idx_us (fst r)"
    using seen by (auto simp: seen_upto_def)
  from pos(2) have "take (pos - b) (drop b (plog_records l')) = take (pos - b) (drop b (plog_records l)) \<and>
      (pos = b \<or> pos \<le> length (plog_records l'))"
    using plog_extends_take [OF ext, of pos] by (auto simp: take_drop pos(1))
  moreover have "plog_head l \<le> plog_head l'" by (rule plog_extendsE [OF ext])
  ultimately show ?thesis
    using pos(1) tr sorted ev(1) plog_extends_later [OF ext ev(1) ev(2)]
    unfolding seen_upto_def by (auto dest: order_trans)
qed

lemma pc_ok_extends:
  assumes ext: "plog_extends l l'" and ok: "pc_ok b M l th pc"
  shows "pc_ok b M l' th pc"
proof -
  note seen = seen_upto_extends [OF ext]
  have hd: "plog_head l \<le> plog_head l'" by (rule plog_extendsE [OF ext])
  show ?thesis
  proof (cases pc)
    case (Passing es sz last_us head)
    with ok have sz: "sz \<le> length (plog_records l)" "0 < sz" "head \<le> plog_head l"
      "\<forall>r \<in> set (drop sz (plog_records l)). head < idx_us (fst r)" by auto
    note tk = plog_extends_take [OF ext sz(1)] and later = plog_extends_later [OF ext sz(3,4)]
    have "head \<le> plog_head l'" using sz(3) hd by linarith
    then show ?thesis
      using ok [unfolded Passing pc_ok.simps] tk(1) seen later
      unfolding Passing pc_ok.simps tk(2) tk(3) [OF sz(2)] by blast
  next
    case (Notifying sz head)
    with ok have h: "head \<le> plog_head l"
      "\<forall>r \<in> set (drop (th_index th) (plog_records l)). head < idx_us (fst r)" by auto
    from plog_extends_later [OF ext h] show ?thesis
      using ok hd seen by (simp add: Notifying)
  qed (use ok in \<open>auto intro: seen\<close>)
qed

lemma check_terminate_keeps:
  assumes "check_terminate sub signal th = (stop, th')"
  shows "th_head th' = th_head th" "th_index th' = th_index th" "th_trace th' = th_trace th" "th_pc th' = th_pc th"
  using assms by (auto simp: check_terminate_def split: if_splits prod.splits)

lemma pc_ok_cong:
  "th_head th' = th_head th \<Longrightarrow> th_index th' = th_index th \<Longrightarrow> th_trace th' = th_trace th \<Longrightarrow>
   pc_ok b M l th' pc = pc_ok b M l th pc"
  by (cases pc) simp_all

lemma pc_ok_returned: "pc_ok b M l th pc \<Longrightarrow> pc_ok b M l th Returned"
  by (cases pc) auto

lemma pc_ok_loop_waiting: "pc_ok b M l th AtLoop = pc_ok b M l th Waiting"
  by simp

text \<open>Passing one more entry.\<close>

lemma seen_upto_next:
  assumes "seen_upto b M l pos tr" "pos < length (plog_records l)" "plog_inv l"
    "sorted_wrt (<) (map (\<lambda>r. idx_us (fst r)) (plog_records l))"
  shows "seen_upto b M l (Suc pos) (tr @ (if M (snd (plog_records l ! pos))
      then [TraceEntry (fst (plog_records l ! pos)) (snd (plog_records l ! pos))] else []))"
proof -
  let ?r = "plog_records l ! pos"
  have step: "drop pos (plog_records l) = ?r # drop (Suc pos) (plog_records l)"
    using assms(2) by (simp add: Cons_nth_drop_Suc)
  have pos: "b \<le> pos" using assms(1) by (simp add: seen_upto_def)
  have "take (Suc pos - b) (drop b (plog_records l)) = take (pos - b) (drop b (plog_records l)) @ [?r]"
    using assms(2) pos by (simp add: Suc_diff_le take_Suc_conv_app_nth)
  moreover have later: "\<forall>r \<in> set (drop (Suc pos) (plog_records l)). idx_us (fst ?r) < idx_us (fst r)"
    using sorted_wrt_drop [OF assms(4), of pos] by (simp add: drop_map step)
  moreover have "idx_us (fst ?r) \<in> set (plog_timestamps l)"
    using assms(2) by (metis (no_types, lifting) length_map map_idx_us_records nth_map nth_mem)
  then have "idx_us (fst ?r) \<le> plog_head l" using assms(3) by (auto simp: plog_inv_def)
  ultimately show ?thesis
    using assms(1,2) pos step unfolding seen_upto_def by (auto simp: sorted_wrt_append)
qed

lemma notify_step_ok:
  assumes "pc_ok b (sub_matches sub) l th (Notifying sz head)"
  shows "pc_ok b (sub_matches sub) l (notify_step sub b sz head th) (th_pc (notify_step sub b sz head th))"
proof (cases "sz \<ge> b \<and> head > th_head th")
  case True
  obtain response u where r: "sub_head sub head (th_user th) = (response, u)" by (cases "sub_head sub head (th_user th)")
  have "\<forall>ev \<in> set (th_trace th). trace_us ev < head" using assms True by fastforce
  then have "seen_upto b (sub_matches sub) l (th_index th) (th_trace th @ [TraceHead head])"
    using assms by (auto simp: seen_upto_def sorted_wrt_append)
  then show ?thesis
    using True assms r by (auto simp: notify_step_def dest: order_trans)
next
  case False
  then show ?thesis using assms by (auto simp: notify_step_def dest: order_trans)
qed

locale subscribable = persister ops invar absl
  for ops :: "('s, 'e) persister_ops" and invar :: "'s \<Rightarrow> bool" and absl :: "'s \<Rightarrow> 'e plog"
begin

lemma records_sorted:
  "invar s \<Longrightarrow> sorted_wrt (<) (map (\<lambda>r. idx_us (fst r)) (plog_records (absl s)))"
  using invar_plog [of s] by (simp add: map_idx_us_records plog_inv_def)

lemma last_record:
  assumes "invar s" "plog_last (absl s) = Some i"
  shows "idx_index i + 1 = length (plog_records (absl s))"
    "idx_us i = idx_us (fst (plog_records (absl s) ! (length (plog_records (absl s)) - 1)))"
    "idx_us i \<le> plog_head (absl s)"
proof -
  let ?es = "plog_entries (absl s)"
  from assms(2) have ne: "?es \<noteq> []" and i: "i = \<lparr>idx_index = length ?es - 1, idx_us = fst (last ?es)\<rparr>"
    by (auto simp: plog_last_def split: if_splits)
  then show "idx_index i + 1 = length (plog_records (absl s))" by simp
  show "idx_us i = idx_us (fst (plog_records (absl s) ! (length (plog_records (absl s)) - 1)))"
    using ne i by (simp add: plog_records_nth last_conv_nth)
  have "fst (last ?es) \<in> set (plog_timestamps (absl s))" using ne by (simp add: plog_timestamps_def)
  then show "idx_us i \<le> plog_head (absl s)"
    using invar_plog [OF assms(1)] i by (auto simp: plog_inv_def)
qed

lemma trace_below_last:
  assumes "invar s" "plog_last (absl s) = Some i" "seen_upto b M (absl s) n tr" "n \<le> idx_index i" "ev \<in> set tr"
  shows "trace_us ev \<le> idx_us i"
proof -
  let ?R = "plog_records (absl s)"
  note l = last_record [OF assms(1,2)]
  have n: "n \<le> length ?R - 1" "0 < length ?R" using l(1) assms(4) by linarith+
  then have "length ?R - 1 - n < length (drop n ?R)" unfolding length_drop by linarith
  from nth_mem [OF this] have "?R ! (n + (length ?R - 1 - n)) \<in> set (drop n ?R)" using n by simp
  moreover have "n + (length ?R - 1 - n) = length ?R - 1" using n by linarith
  ultimately have "?R ! (length ?R - 1) \<in> set (drop n ?R)" by (simp only:)
  then have "trace_us ev < idx_us (fst (?R ! (length ?R - 1)))"
    using assms(3,5) by (simp add: seen_upto_def)
  then show ?thesis using l(2) by simp
qed

lemma loop_step_ok:
  assumes inv: "invar s" and ok: "pc_ok b (sub_matches sub) (absl s) th AtLoop"
  shows "pc_ok b (sub_matches sub) (absl s) (loop_step ops sub s signal th) (th_pc (loop_step ops sub s signal th))"
proof -
  let ?l = "absl s" and ?M = "sub_matches sub"
  let ?R = "plog_records ?l"
  obtain stop th1 where ct: "check_terminate sub signal th = (stop, th1)" by (cases "check_terminate sub signal th")
  note th1 = check_terminate_keeps [OF ct]
  have ok1: "seen_upto b ?M ?l (th_index th1) (th_trace th1)" "\<forall>ev \<in> set (th_trace th1). trace_us ev \<le> th_head th1"
    using ok by (simp_all add: th1)
  show ?thesis
  proof (cases "stop \<or> plog_head ?l \<le> th_head th1")
    case True
    then show ?thesis
      using ok1 by (cases stop) (auto simp: loop_step_def ct head_and_last [OF inv] Let_def)
  next
    case False
    show ?thesis
    proof (cases "plog_last ?l")
      case None
      then have "?R = []" by (simp add: plog_last_def plog_records_def split: if_splits)
      then show ?thesis
        using False None ok1 by (auto simp: loop_step_def ct head_and_last [OF inv] Let_def)
    next
      case (Some i)
      note l = last_record [OF inv Some]
      show ?thesis
      proof (cases "idx_index i + 1 > th_index th1")
        case pass: True
        let ?es = "drop (th_index th1) ?R"
        have es: "PersisterIterate ops (th_index th1) (idx_index i + 1) s = Inr ?es"
          unfolding l(1) using pass l(1) by (simp add: iterate [OF inv] plog_iterate_def Let_def)
        have "\<forall>ev \<in> set (th_trace th1). trace_us ev \<le> idx_us i"
          using trace_below_last [OF inv Some ok1(1)] pass by auto
        moreover have "length ?R - length ?es = th_index th1" using pass l(1) by simp
        moreover have "b \<le> th_index th1" using ok1(1) by (simp add: seen_upto_def)
        moreover have "plog_entries ?l \<noteq> []" using pass l(1) by auto
        ultimately show ?thesis
          using False Some pass es l ok1(1) by (simp add: loop_step_def ct head_and_last [OF inv] Let_def)
      next
        case nopass: False
        then have "drop (th_index th1) ?R = []" using l(1) by simp
        then show ?thesis
          using False Some nopass ok1 by (simp add: loop_step_def ct head_and_last [OF inv] Let_def)
      qed
    qed
  qed
qed

lemma pass_step_ok:
  assumes inv: "invar s" and ok: "pc_ok b (sub_matches sub) (absl s) th (Passing (e # es) sz last_us head)"
  shows "pc_ok b (sub_matches sub) (absl s) (pass_step ops sub s signal e (Passing es sz last_us head) th)
    (th_pc (pass_step ops sub s signal e (Passing es sz last_us head) th))"
proof -
  let ?l = "absl s" and ?M = "sub_matches sub"
  let ?R = "plog_records ?l" and ?pos = "sz - Suc (length es)"
  obtain stop th1 where ct: "check_terminate sub signal th = (stop, th1)" by (cases "check_terminate sub signal th")
  note th1 = check_terminate_keeps [OF ct]
  have ok1: "pc_ok b ?M ?l th1 (Passing (e # es) sz last_us head)"
    using ok pc_ok_cong [OF th1(1-3)] by blast
  then have len: "Suc (length es) \<le> sz" "sz \<le> length ?R" and seen: "seen_upto b ?M ?l ?pos (th_trace th1)"
    and ees: "e # es = drop ?pos (take sz ?R)" and lu: "last_us = idx_us (fst (?R ! (sz - 1)))"
    and rest: "\<forall>ev \<in> set (th_trace th1). trace_us ev \<le> last_us" "last_us \<le> head" "head \<le> plog_head ?l"
      "\<forall>r \<in> set (drop sz ?R). head < idx_us (fst r)" "b \<le> ?pos"
    by auto
  have pos: "?pos < length ?R" "Suc ?pos = sz - length es" using len by linarith+
  have "e # es = ?R ! ?pos # drop (Suc ?pos) (take sz ?R)"
    unfolding ees using len by (subst Cons_nth_drop_Suc [symmetric]) simp_all
  then have e: "e = ?R ! ?pos" and es: "es = drop (sz - length es) (take sz ?R)" unfolding pos(2) by simp_all
  let ?tr = "th_trace th1 @ (if ?M (snd e) then [TraceEntry (fst e) (snd e)] else [])"
  have seen': "seen_upto b ?M ?l (sz - length es) ?tr"
    using seen_upto_next [OF seen pos(1) invar_plog [OF inv] records_sorted [OF inv]] unfolding e [symmetric] pos(2) .
  have "idx_us (fst e) \<le> last_us"
  proof (cases "?pos = sz - 1")
    case False
    then have "?pos < sz - 1" "sz - 1 < length ?R" using len by linarith+
    then show ?thesis using sorted_wrt_nth_less [OF records_sorted [OF inv], of ?pos "sz - 1"] by (simp add: e lu)
  qed (simp add: e lu)
  then have le: "\<forall>ev \<in> set ?tr. trace_us ev \<le> last_us" using rest(1) by auto
  have passing: "pc_ok b ?M ?l th2 (Passing es sz last_us head)" if "th_trace th2 = ?tr" for th2
    unfolding pc_ok.simps that using len rest(2-5) seen' es lu le by (intro conjI) linarith+
  have returned: "pc_ok b ?M ?l th2 Returned" if "th_trace th2 = ?tr \<or> th_trace th2 = th_trace th1" for th2
    using that seen seen' by (auto simp del: append.simps)
  show ?thesis
  proof (cases "stop \<or> hoi_idxts (PersisterHeadAndLast ops s) = None")
    case True
    then show ?thesis
      by (cases stop) (auto simp: pass_step_def ct returned simp del: pc_ok.simps)
  next
    case False
    then obtain lp where "\<not> stop" "hoi_idxts (PersisterHeadAndLast ops s) = Some lp" by auto
    then show ?thesis
      by (cases "PassEntryToSubscriberIfTypeMatches sub (snd e) (fst e) lp (th_user th1)")
        (simp add: pass_step_def ct returned passing del: pc_ok.simps)
  qed
qed

lemma thread_step_ok:
  assumes inv: "invar s" and ok: "pc_ok b (sub_matches sub) (absl s) th (th_pc th)"
    and step: "thread_step ops sub b s signal th = Some th'"
  shows "pc_ok b (sub_matches sub) (absl s) th' (th_pc th')"
proof (cases "th_pc th")
  case AtLoop
  then show ?thesis using step ok loop_step_ok [OF inv, of b sub th signal] by (simp add: thread_step_def)
next
  case (Passing es sz last_us head)
  show ?thesis
  proof (cases es)
    case Nil
    then show ?thesis using step ok by (auto simp: thread_step_def Passing)
  next
    case (Cons e es')
    then show ?thesis
      using step ok pass_step_ok [OF inv, of b sub th e es' sz last_us head signal]
      by (simp add: thread_step_def Passing del: pc_ok.simps)
  qed
next
  case (Notifying sz head)
  then show ?thesis
    using step ok notify_step_ok [of b sub "absl s" th sz head] by (simp add: thread_step_def del: pc_ok.simps)
qed (use step ok in \<open>auto simp: thread_step_def split: if_splits\<close>)

lemma reachable_ok:
  assumes "subscription_reachable ops sub b w0 w" "invar (sn_persister w0)"
    "sn_thread w0 = thread_init b from_us u"
  shows "invar (sn_persister w) \<and>
    pc_ok b (sub_matches sub) (absl (sn_persister w)) (sn_thread w) (th_pc (sn_thread w))"
  using assms(1)
proof induction
  case reachable_init
  then show ?case using assms(2,3) by (simp add: thread_init_def seen_upto_def)
next
  case (reachable_step w w')
  note IH = reachable_step.IH
  from reachable_step.hyps(2) show ?case
  proof cases
    case (step_thread th)
    then show ?thesis using IH thread_step_ok [OF _ _ step_thread(2)] by simp
  next
    case (step_publish e u i s)
    then have "invar s" "plog_publish e u (absl (sn_persister w)) = Inr (i, absl s)"
      using IH publish_ok by blast+
    then show ?thesis using step_publish(1) IH pc_ok_extends plog_publish_extends by fastforce
  next
    case (step_update_head u s)
    then have "invar s" "plog_update_head u (absl (sn_persister w)) = Inr (absl s)"
      using IH update_head_ok by blast+
    then show ?thesis using step_update_head(1) IH pc_ok_extends plog_update_head_extends by fastforce
  next
    case step_terminate
    then show ?thesis using IH by simp
  qed
qed

text \<open>The result for a subscriber, at any moment.\<close>

lemma reachable_trace:
  assumes "subscription_reachable ops sub b w0 w" "invar (sn_persister w0)"
    "sn_thread w0 = thread_init b from_us u"
  shows "\<exists>n. trace_entries (th_trace (sn_thread w)) =
      filter (\<lambda>r. sub_matches sub (snd r)) (take n (drop b (plog_records (absl (sn_persister w)))))"
    "sorted_wrt (<) (map trace_us (th_trace (sn_thread w)))"
proof -
  from reachable_ok [OF assms] pc_ok_returned
  obtain pos where "seen_upto b (sub_matches sub) (absl (sn_persister w)) pos (th_trace (sn_thread w))"
    by fastforce
  then show "\<exists>n. trace_entries (th_trace (sn_thread w)) =
      filter (\<lambda>r. sub_matches sub (snd r)) (take n (drop b (plog_records (absl (sn_persister w)))))"
    "sorted_wrt (<) (map trace_us (th_trace (sn_thread w)))"
    by (auto simp: seen_upto_def)
qed

text \<open>
  No wake-up is lost: a thread that is blocked has been given everything that was published.
\<close>

lemma blocked_complete:
  assumes "subscription_reachable ops sub b w0 w" "invar (sn_persister w0)"
    "sn_thread w0 = thread_init b from_us u"
    and blocked: "thread_step ops sub b (sn_persister w) (sn_signal w) (sn_thread w) = None"
      "th_pc (sn_thread w) \<noteq> Returned"
  shows "trace_entries (th_trace (sn_thread w)) =
      filter (\<lambda>r. sub_matches sub (snd r)) (drop b (plog_records (absl (sn_persister w))))"
proof -
  let ?R = "plog_records (absl (sn_persister w))"
  from blocked have pc: "th_pc (sn_thread w) = Waiting"
    and sz: "\<not> PersisterSize ops (sn_persister w) > th_index (sn_thread w)"
    by (auto simp: thread_step_def wait_predicate_def split: thread_pc.splits list.splits if_splits)
  from reachable_ok [OF assms(1-3)] pc have inv: "invar (sn_persister w)"
    and seen: "seen_upto b (sub_matches sub) (absl (sn_persister w)) (th_index (sn_thread w)) (th_trace (sn_thread w))"
    by simp_all
  have "length ?R \<le> th_index (sn_thread w)" using sz size [OF inv] by simp
  then have "take (th_index (sn_thread w) - b) (drop b ?R) = drop b ?R" by simp
  then show ?thesis using seen by (simp add: seen_upto_def)
qed

end

text \<open>
  A subscription from a moment in the future, on a stream that has entries already, does not wait:
  the thread passes from the top of its loop to the wait and back without any change.
\<close>

lemma spin:
  assumes "th_pc th = AtLoop" "hoi_head (PersisterHeadAndLast ops s) \<le> th_head th"
    "PersisterSize ops s > th_index th"
  shows "thread_step ops sub b s False th = Some (th\<lparr>th_pc := Waiting\<rparr>)"
    "thread_step ops sub b s False (th\<lparr>th_pc := Waiting\<rparr>) = Some th"
  using assms by (simp_all add: thread_step_def loop_step_def check_terminate_def Let_def wait_predicate_def)

end
