(* ===== verification/StoragePersister.thy ===== *)
theory StoragePersister
  imports Stream Transaction
begin

text \<open>
  \<^verbatim>\<open>StreamStreamPersisterImpl\<close> of \<^verbatim>\<open>src/storage/persister/stream.h\<close>: the storage's transactions are entries
  of a stream.  A master storage replays the stream when it is created and holds the publisher of the
  stream; a following storage applies the transactions its subscription delivers, and may later
  become the master.
\<close>

text \<open>An entry of the stream: a transaction, or another case of a custom \<^verbatim>\<open>Variant\<close> record type.\<close>

datatype ('ev, 'x) stream_entry =
    TransactionEntry "'ev transaction"
  | OtherEntry 'x

fun entry_transactions :: "('ev, 'x) stream_entry \<Rightarrow> 'ev transaction list" where
  "entry_transactions (TransactionEntry t) = [t]"
| "entry_transactions (OtherEntry x) = []"

record 'p storage_persister =
  sp_stream :: "'p stream_state"
  sp_publisher_used :: "nat option"
  sp_last_applied_timestamp :: microseconds
  sp_subscribed :: bool
  sp_next_replay_index :: nat

definition IsMasterStoragePersister :: "'p storage_persister \<Rightarrow> bool" where
  "IsMasterStoragePersister sp \<longleftrightarrow> sp_publisher_used sp \<noteq> None"

definition SetLastAppliedTimestamp :: "microseconds \<Rightarrow> 'p storage_persister \<Rightarrow> 'p storage_persister" where
  "SetLastAppliedTimestamp timestamp sp = sp\<lparr>sp_last_applied_timestamp := timestamp\<rparr>"

definition ApplyMutations ::
  "('ev \<Rightarrow> 's \<Rightarrow> 's) \<Rightarrow> 'ev transaction \<Rightarrow> microseconds \<Rightarrow> 's \<times> 'p storage_persister \<Rightarrow> 's \<times> 'p storage_persister" where
  "ApplyMutations fields_update_f t timestamp st =
     (case st of (fs, sp) \<Rightarrow>
        (fold fields_update_f (tx_mutations t) fs, SetLastAppliedTimestamp timestamp sp))"

definition replay_record ::
  "('ev \<Rightarrow> 's \<Rightarrow> 's) \<Rightarrow> idxts \<times> ('ev, 'x) stream_entry \<Rightarrow> 's \<times> 'p storage_persister \<Rightarrow> 's \<times> 'p storage_persister" where
  "replay_record fields_update_f r st =
     (case snd r of
        TransactionEntry t \<Rightarrow> ApplyMutations fields_update_f t (idx_us (fst r)) st
      | OtherEntry x \<Rightarrow> st)"

definition SyncReplayStream ::
  "('p, ('ev, 'x) stream_entry) persister_ops \<Rightarrow> ('ev \<Rightarrow> 's \<Rightarrow> 's) \<Rightarrow> nat \<Rightarrow> 's \<times> 'p storage_persister \<Rightarrow>
   ss_exception + 's \<times> 'p storage_persister" where
  "SyncReplayStream ops fields_update_f from_idx st =
     map_sum id (\<lambda>records. fold (replay_record fields_update_f) records st)
       (PersisterIterate ops from_idx uint64_npos (str_persister (sp_stream (snd st))))"

text \<open>The two constructors; \<^const>\<open>None\<close> is waiting for the publisher of the stream to be released.\<close>

definition construct_master ::
  "('p, ('ev, 'x) stream_entry) persister_ops \<Rightarrow> ('ev \<Rightarrow> 's \<Rightarrow> 's) \<Rightarrow> 's \<Rightarrow> 'p stream_state \<Rightarrow>
   (ss_exception + 's \<times> 'p storage_persister) option" where
  "construct_master ops fields_update_f fs stream = do {
     (publisher, stream) \<leftarrow> BecomeFollowingStream stream;
     Some (SyncReplayStream ops fields_update_f 0
       (fs, \<lparr>sp_stream = stream, sp_publisher_used = Some publisher, sp_last_applied_timestamp = -1,
                 sp_subscribed = False, sp_next_replay_index = 0\<rparr>)) }"

definition construct_following :: "'s \<Rightarrow> 'p stream_state \<Rightarrow> 's \<times> 'p storage_persister" where
  "construct_following fs stream =
     (fs, \<lparr>sp_stream = stream, sp_publisher_used = None, sp_last_applied_timestamp = -1,
               sp_subscribed = True, sp_next_replay_index = 0\<rparr>)"

text \<open>The call of \<^verbatim>\<open>StreamSubscriberImpl\<close> with one transaction; other entries do not reach it.\<close>

definition subscriber_call ::
  "('ev \<Rightarrow> 's \<Rightarrow> 's) \<Rightarrow> 'ev transaction \<Rightarrow> idxts \<Rightarrow> 's \<times> 'p storage_persister \<Rightarrow> 's \<times> 'p storage_persister" where
  "subscriber_call fields_update_f t current st =
     (case ApplyMutations fields_update_f t (idx_us current) st of
        (fs, sp) \<Rightarrow> (fs, sp\<lparr>sp_next_replay_index := idx_index current + 1\<rparr>))"

definition subscriber_record ::
  "('ev \<Rightarrow> 's \<Rightarrow> 's) \<Rightarrow> idxts \<times> ('ev, 'x) stream_entry \<Rightarrow> 's \<times> 'p storage_persister \<Rightarrow> 's \<times> 'p storage_persister" where
  "subscriber_record fields_update_f r st =
     (case snd r of
        TransactionEntry t \<Rightarrow> subscriber_call fields_update_f t (fst r) st
      | OtherEntry x \<Rightarrow> st)"

definition BecomeMasterStorage ::
  "('p, ('ev, 'x) stream_entry) persister_ops \<Rightarrow> ('ev \<Rightarrow> 's \<Rightarrow> 's) \<Rightarrow> 's \<times> 'p storage_persister \<Rightarrow>
   (string + ss_exception + 's \<times> 'p storage_persister) option" where
  "BecomeMasterStorage ops fields_update_f st =
     (case st of (fs, sp) \<Rightarrow>
        if sp_publisher_used sp \<noteq> None then Some (Inl ''StorageIsAlreadyMasterException'')
        else do {
          let sp = sp\<lparr>sp_subscribed := False\<rparr>;
          (publisher, stream) \<leftarrow> BecomeFollowingStream (sp_stream sp);
          let sp = sp\<lparr>sp_stream := stream, sp_publisher_used := Some publisher\<rparr>;
          Some (Inr (SyncReplayStream ops fields_update_f (sp_next_replay_index sp) (fs, sp))) })"

definition PersistJournalFromLockedSection ::
  "('p, ('ev, 'x) stream_entry) persister_ops \<Rightarrow> ('ev, 's, 'p storage_persister) persist_fn" where
  "PersistJournalFromLockedSection ops c sp =
     (case CtxNow c of (timestamp, c) \<Rightarrow>
        if commit_log (journal c) \<noteq> [] then
          (case sp_publisher_used sp of
             None \<Rightarrow> Inl ''NoValueException''
           | Some publisher \<Rightarrow>
               let t = \<lparr>tx_meta = meta (journal c), tx_mutations = commit_log (journal c)\<rparr> in
               (case PublisherPublishImpl ops publisher (TransactionEntry t) timestamp (sp_stream sp) of
                  None \<Rightarrow> Inl ''use of a destroyed publisher''
                | Some (Inl x) \<Rightarrow> Inl ''InconsistentTimestampException''
                | Some (Inr (idxts, stream)) \<Rightarrow>
                    Inr (c\<lparr>journal := Clear (journal c)\<rparr>,
                         SetLastAppliedTimestamp timestamp (sp\<lparr>sp_stream := stream\<rparr>))))
        else Inr (c\<lparr>journal := Clear (journal c)\<rparr>, sp))"

subsection \<open>The persister of a master storage\<close>

definition log_transactions :: "('ev, 'x) stream_entry plog \<Rightarrow> 'ev transaction list" where
  "log_transactions l = concat (map (\<lambda>e. entry_transactions (snd e)) (plog_entries l))"

definition records_transactions :: "(idxts \<times> ('ev, 'x) stream_entry) list \<Rightarrow> 'ev transaction list" where
  "records_transactions rs = concat (map (\<lambda>r. entry_transactions (snd r)) rs)"

lemma records_transactions_log: "records_transactions (plog_records l) = log_transactions l"
  unfolding records_transactions_def log_transactions_def
  by (rule arg_cong [where f = concat], rule nth_equalityI) (simp_all add: plog_records_nth)

lemma replay_record_step:
  "fst (replay_record app r st) = replay app (entry_transactions (snd r)) (fst st)"
  "sp_stream (snd (replay_record app r st)) = sp_stream (snd st)"
  "sp_publisher_used (snd (replay_record app r st)) = sp_publisher_used (snd st)"
  by (auto simp: replay_record_def ApplyMutations_def replay_def SetLastAppliedTimestamp_def
      split: stream_entry.split prod.split)

lemma fold_replay_record:
  "fst (fold (replay_record app) rs st) = replay app (records_transactions rs) (fst st)"
  "sp_stream (snd (fold (replay_record app) rs st)) = sp_stream (snd st)"
  "sp_publisher_used (snd (fold (replay_record app) rs st)) = sp_publisher_used (snd st)"
proof -
  show "fst (fold (replay_record app) rs st) = replay app (records_transactions rs) (fst st)"
  proof (induction rs arbitrary: st)
    case Nil
    then show ?case by (simp add: records_transactions_def replay_def)
  next
    case (Cons r rs)
    then show ?case by (simp add: replay_record_step records_transactions_def replay_append)
  qed
  show "sp_stream (snd (fold (replay_record app) rs st)) = sp_stream (snd st)"
    "sp_publisher_used (snd (fold (replay_record app) rs st)) = sp_publisher_used (snd st)"
    by (induction rs arbitrary: st) (simp_all add: replay_record_step)
qed

definition master_inv :: "('p \<Rightarrow> bool) \<Rightarrow> 'p storage_persister \<Rightarrow> bool" where
  "master_inv invar sp \<longleftrightarrow> invar (str_persister (sp_stream sp)) \<and>
     sp_publisher_used sp = Some (str_generation (sp_stream sp))"

definition master_txs :: "('p \<Rightarrow> ('ev, 'x) stream_entry plog) \<Rightarrow> 'p storage_persister \<Rightarrow> 'ev transaction list" where
  "master_txs absl sp = log_transactions (absl (str_persister (sp_stream sp)))"

definition master_head :: "('p \<Rightarrow> ('ev, 'x) stream_entry plog) \<Rightarrow> 'p storage_persister \<Rightarrow> microseconds" where
  "master_head absl sp = plog_head (absl (str_persister (sp_stream sp)))"

locale storage_stream = persister ops invar absl
  for ops :: "('p, ('ev, 'x) stream_entry) persister_ops"
    and invar :: "'p \<Rightarrow> bool" and absl :: "'p \<Rightarrow> ('ev, 'x) stream_entry plog"
begin

lemma persist_ok:
  assumes "master_inv invar sp" "master_head absl sp \<le> monotonic_now_us (clock c)"
  shows "\<exists>c' sp'. PersistJournalFromLockedSection ops c sp = Inr (c', sp') \<and>
    this c' = this c \<and> journal c' = empty_journal \<and> monotonic_now_us (clock c) \<le> monotonic_now_us (clock c') \<and>
    master_inv invar sp' \<and> master_head absl sp' \<le> monotonic_now_us (clock c') \<and>
    master_txs absl sp' = master_txs absl sp @ journal_transactions (journal c)"
proof -
  obtain now c1 where now: "CtxNow c = (now, c1)" by (cases "CtxNow c")
  note s1 = CtxNow_simps [OF now]
  show ?thesis
  proof (cases "commit_log (journal c) = []")
    case True
    then show ?thesis
      using assms s1 by (auto simp: PersistJournalFromLockedSection_def now Clear_eq journal_transactions_def)
  next
    case False
    let ?t = "\<lparr>tx_meta = meta (journal c), tx_mutations = commit_log (journal c)\<rparr>"
    have "plog_head (absl (str_persister (sp_stream sp))) < now" "invar (str_persister (sp_stream sp))"
      using assms s1(1) by (auto simp: master_inv_def master_head_def)
    then obtain i s' where s': "PersisterPublish ops (TransactionEntry ?t) now (str_persister (sp_stream sp)) = Inr (i, s')"
      "invar s'" "absl s' = \<lparr>plog_entries = plog_entries (absl (str_persister (sp_stream sp))) @
        [(now, TransactionEntry ?t)], plog_head = now\<rparr>"
      by (metis publish_succeeds)
    then show ?thesis
      using False assms s1
      by (auto simp: PersistJournalFromLockedSection_def now Clear_eq journal_transactions_def
          PublisherPublishImpl_def master_inv_def master_txs_def master_head_def log_transactions_def
          SetLastAppliedTimestamp_def)
  qed
qed

end

sublocale storage_stream \<subseteq> sp: journal_persister "PersistJournalFromLockedSection ops"
  "master_inv invar" "master_txs absl" "master_head absl"
  by unfold_locales (rule persist_ok)

context storage_stream
begin

text \<open>A master storage starts with the stream replayed.\<close>

lemma construct_master_ok:
  assumes "invar (str_persister stream)" "str_borrowed stream = 0"
  shows "\<exists>fs' sp. construct_master ops app fs stream = Some (Inr (fs', sp)) \<and> master_inv invar sp \<and>
    absl (str_persister (sp_stream sp)) = absl (str_persister stream) \<and>
    fs' = replay app (log_transactions (absl (str_persister stream))) fs"
proof -
  let ?l = "absl (str_persister stream)"
  let ?sp = "\<lparr>sp_stream = stream\<lparr>str_generation := str_generation stream + 1, str_borrowable := False, str_borrowed := 1\<rparr>,
    sp_publisher_used = Some (str_generation stream + 1), sp_last_applied_timestamp = -1,
    sp_subscribed = False, sp_next_replay_index = 0\<rparr>"
  let ?st = "fold (replay_record app) (plog_records ?l) (fs, ?sp)"
  have "construct_master ops app fs stream = Some (Inr ?st)"
    using assms by (simp add: construct_master_def BecomeFollowingStream_def RecreatePublisher_def Let_def
        SyncReplayStream_def iterate plog_iterate_all)
  moreover have "master_inv invar (snd ?st)" "str_persister (sp_stream (snd ?st)) = str_persister stream"
    "fst ?st = replay app (log_transactions ?l) fs"
    using assms(1) by (simp_all add: master_inv_def fold_replay_record records_transactions_log)
  ultimately show ?thesis by (metis prod.collapse)
qed

end

subsection \<open>From follower to master\<close>

text \<open>
  Transactions the subscription has applied lie below \<^verbatim>\<open>next_replay_index_\<close>; between it and the last
  record consumed there are no transactions.
\<close>

lemma records_transactions_snoc:
  "records_transactions (rs @ [r]) = records_transactions rs @ entry_transactions (snd r)"
  by (simp add: records_transactions_def)

lemma follow_records:
  assumes "n \<le> length (plog_records l)"
  shows "case fold (subscriber_record app) (take n (plog_records l)) (construct_following fs stream) of
    (fs', sp) \<Rightarrow> fs' = replay app (records_transactions (take n (plog_records l))) fs \<and>
      sp_stream sp = stream \<and> sp_publisher_used sp = None \<and> sp_next_replay_index sp \<le> n \<and>
      records_transactions (take (sp_next_replay_index sp) (plog_records l)) =
      records_transactions (take n (plog_records l))"
  using assms
proof (induction n)
  case 0
  then show ?case by (simp add: construct_following_def replay_def records_transactions_def)
next
  case (Suc n)
  let ?R = "plog_records l"
  let ?st = "fold (subscriber_record app) (take n ?R) (construct_following fs stream)"
  obtain fs' sp where st: "?st = (fs', sp)" by (cases ?st)
  have n: "n < length ?R" using Suc.prems by simp
  have IH: "fs' = replay app (records_transactions (take n ?R)) fs" "sp_stream sp = stream"
    "sp_publisher_used sp = None" "sp_next_replay_index sp \<le> n"
    "records_transactions (take (sp_next_replay_index sp) ?R) = records_transactions (take n ?R)"
    using Suc.IH n by (auto simp: st)
  have tk: "take (Suc n) ?R = take n ?R @ [?R ! n]" using n by (simp add: take_Suc_conv_app_nth)
  have idx: "idx_index (fst (?R ! n)) = n" using n by (simp add: plog_records_nth)
  have fold: "fold (subscriber_record app) (take (Suc n) ?R) (construct_following fs stream) =
      subscriber_record app (?R ! n) (fs', sp)" by (simp add: tk st)
  show ?case
  proof (cases "snd (?R ! n)")
    case (TransactionEntry t)
    then show ?thesis
      unfolding fold using IH
      by (simp add: tk subscriber_record_def subscriber_call_def ApplyMutations_def idx
          SetLastAppliedTimestamp_def records_transactions_snoc replay_append) (simp add: replay_def)
  next
    case (OtherEntry x)
    then show ?thesis unfolding fold using IH by (simp add: tk subscriber_record_def records_transactions_snoc)
  qed
qed

context storage_stream
begin

lemma follow_then_master:
  assumes "invar (str_persister stream)" "str_borrowed stream = 0"
    "n \<le> length (plog_records (absl (str_persister stream)))"
  shows "\<exists>fs' sp. BecomeMasterStorage ops app
      (fold (subscriber_record app) (take n (plog_records (absl (str_persister stream))))
        (construct_following fs stream)) = Some (Inr (Inr (fs', sp))) \<and>
    master_inv invar sp \<and> fs' = replay app (log_transactions (absl (str_persister stream))) fs"
proof -
  let ?l = "absl (str_persister stream)"
  let ?R = "plog_records ?l"
  obtain fs1 sp1 where st: "fold (subscriber_record app) (take n ?R) (construct_following fs stream) = (fs1, sp1)"
    by (cases "fold (subscriber_record app) (take n ?R) (construct_following fs stream)")
  from follow_records [OF assms(3), of app fs stream]
  have f: "fs1 = replay app (records_transactions (take n ?R)) fs" "sp_stream sp1 = stream"
    "sp_publisher_used sp1 = None" "sp_next_replay_index sp1 \<le> n"
    "records_transactions (take (sp_next_replay_index sp1) ?R) = records_transactions (take n ?R)"
    by (auto simp: st)
  let ?i = "sp_next_replay_index sp1"
  let ?sp = "sp1\<lparr>sp_subscribed := False, sp_stream := stream\<lparr>str_generation := str_generation stream + 1,
    str_borrowable := False, str_borrowed := 1\<rparr>, sp_publisher_used := Some (str_generation stream + 1)\<rparr>"
  let ?st = "fold (replay_record app) (drop ?i ?R) (fs1, ?sp)"
  have "plog_iterate ?i uint64_npos ?l = Inr (drop ?i ?R)"
    using f(4) assms(3) by (simp add: plog_iterate_def Let_def)
  then have "BecomeMasterStorage ops app (fs1, sp1) = Some (Inr (Inr ?st))"
    using assms(1,2) f(2,3) by (simp add: BecomeMasterStorage_def BecomeFollowingStream_def RecreatePublisher_def
        Let_def SyncReplayStream_def iterate)
  moreover have "master_inv invar (snd ?st)" using assms(1) by (simp add: master_inv_def fold_replay_record)
  moreover have "records_transactions ?R = records_transactions (take ?i ?R) @ records_transactions (drop ?i ?R)"
    by (simp add: records_transactions_def flip: concat_append map_append)
  then have "fst ?st = replay app (log_transactions ?l) fs"
    by (simp add: fold_replay_record f(1) f(5) [symmetric] records_transactions_log [symmetric] replay_append)
  ultimately show ?thesis unfolding st by (metis prod.collapse)
qed

end

end
