(* ===== verification/MemoryPersister.thy ===== *)
theory MemoryPersister
  imports Persister
begin

text \<open>
  \<^verbatim>\<open>MemoryPersister\<close> of \<^verbatim>\<open>src/blocks/persistence/memory.h\<close>: a deque of timestamped entries and a head.
  Each operation holds the container's mutex, so an operation is one step.
\<close>

record 'e memory =
  mem_entries :: "(microseconds \<times> 'e) list"
  mem_head :: microseconds

definition mem_empty :: "'e memory" where
  "mem_empty = \<lparr>mem_entries = [], mem_head = -1\<rparr>"

definition mem_PublishImpl :: "'e \<Rightarrow> microseconds \<Rightarrow> 'e memory \<Rightarrow> ss_exception + idxts \<times> 'e memory" where
  "mem_PublishImpl entry timestamp s =
     (let head = mem_head s in
      if \<not> (timestamp > head) then Inl (InconsistentTimestampException (head + 1) timestamp)
      else let index = length (mem_entries s);
               s = s\<lparr>mem_entries := mem_entries s @ [(timestamp, entry)]\<rparr>;
               s = s\<lparr>mem_head := timestamp\<rparr>
           in Inr (\<lparr>idx_index = index, idx_us = timestamp\<rparr>, s))"

definition mem_PublishUnsafeImpl :: "'e codec \<Rightarrow> string \<Rightarrow> 'e memory \<Rightarrow> ss_exception + idxts \<times> 'e memory" where
  "mem_PublishUnsafeImpl cd raw_log_line s =
     (let head = mem_head s in
      case split_tab raw_log_line of
        None \<Rightarrow> Inl (MalformedEntryException raw_log_line)
      | Some (before, after) \<Rightarrow>
          (case ParseJSON_idxts cd before of
             None \<Rightarrow> Inl (InvalidJSONException before)
           | Some idxts \<Rightarrow>
               let expected_index = length (mem_entries s) in
               if idx_index idxts \<noteq> expected_index
               then Inl (UnsafePublishBadIndexTimestampException expected_index (idx_index idxts))
               else if \<not> (idx_us idxts > head)
               then Inl (InconsistentTimestampException (head + 1) (idx_us idxts))
               else (case ParseJSON_entry cd after of
                       None \<Rightarrow> Inl (InvalidJSONException after)
                     | Some entry \<Rightarrow>
                         Inr (idxts, s\<lparr>mem_entries := mem_entries s @ [(idx_us idxts, entry)],
                                       mem_head := idx_us idxts\<rparr>))))"

definition mem_UpdateHeadImpl :: "microseconds \<Rightarrow> 'e memory \<Rightarrow> ss_exception + 'e memory" where
  "mem_UpdateHeadImpl timestamp s =
     (let head = mem_head s in
      if \<not> (timestamp > head) then Inl (InconsistentTimestampException (head + 1) timestamp)
      else Inr (s\<lparr>mem_head := timestamp\<rparr>))"

definition mem_SizeImpl :: "'e memory \<Rightarrow> nat" where
  "mem_SizeImpl s = length (mem_entries s)"

definition mem_LastPublishedIndexAndTimestampImpl :: "'e memory \<Rightarrow> ss_exception + idxts" where
  "mem_LastPublishedIndexAndTimestampImpl s =
     (if mem_entries s \<noteq> []
      then Inr \<lparr>idx_index = length (mem_entries s) - 1, idx_us = fst (last (mem_entries s))\<rparr>
      else Inl NoEntriesPublishedYet)"

definition mem_HeadAndLastPublishedIndexAndTimestampImpl :: "'e memory \<Rightarrow> head_optidxts" where
  "mem_HeadAndLastPublishedIndexAndTimestampImpl s =
     (if mem_entries s \<noteq> []
      then \<lparr>hoi_head = mem_head s,
            hoi_idxts = Some \<lparr>idx_index = length (mem_entries s) - 1, idx_us = fst (last (mem_entries s))\<rparr>\<rparr>
      else \<lparr>hoi_head = mem_head s, hoi_idxts = None\<rparr>)"

definition mem_CurrentHeadImpl :: "'e memory \<Rightarrow> microseconds" where
  "mem_CurrentHeadImpl s = mem_head s"

definition mem_IndexRangeByTimestampRangeImpl :: "microseconds \<Rightarrow> microseconds \<Rightarrow> 'e memory \<Rightarrow> nat \<times> nat" where
  "mem_IndexRangeByTimestampRangeImpl from till s =
     (let ts = map fst (mem_entries s);
          result = (uint64_npos, uint64_npos);
          begin_it = lower_bound ts from;
          result = (if begin_it \<noteq> length ts then (begin_it, snd result) else result)
      in if till > 0
         then let end_it = upper_bound ts till
              in if end_it \<noteq> length ts then (fst result, end_it) else result
         else result)"

text \<open>\<^verbatim>\<open>Iterator\<close>: \<^verbatim>\<open>operator*\<close> reads \<^verbatim>\<open>entries_[i_]\<close>, \<^verbatim>\<open>operator++\<close> increments \<^verbatim>\<open>i_\<close>, until the end of the range.\<close>

definition mem_iterator_get :: "'e memory \<Rightarrow> nat \<Rightarrow> idxts \<times> 'e" where
  "mem_iterator_get s i = (\<lparr>idx_index = i, idx_us = fst (mem_entries s ! i)\<rparr>, snd (mem_entries s ! i))"

definition mem_range :: "'e memory \<Rightarrow> nat \<Rightarrow> nat \<Rightarrow> (idxts \<times> 'e) list" where
  "mem_range s b e = map (mem_iterator_get s) [b..<e]"

definition mem_IterateImpl :: "nat \<Rightarrow> nat \<Rightarrow> 'e memory \<Rightarrow> ss_exception + (idxts \<times> 'e) list" where
  "mem_IterateImpl b e s =
     (let size = length (mem_entries s);
          e = (if e = uint64_npos then size else e) in
      if e > size then Inl InvalidIterableRangeException
      else if b = e then Inr (mem_range s 0 0)
      else if b \<ge> size then Inl InvalidIterableRangeException
      else if e < b then Inl InvalidIterableRangeException
      else Inr (mem_range s b e))"

text \<open>\<^verbatim>\<open>IteratorUnsafe\<close>: the raw log line of an entry, printed on the fly.\<close>

definition mem_iterator_unsafe_get :: "'e codec \<Rightarrow> 'e memory \<Rightarrow> nat \<Rightarrow> string" where
  "mem_iterator_unsafe_get cd s i =
     (let entry = mem_entries s ! i
      in JSON_idxts cd \<lparr>idx_index = i, idx_us = fst entry\<rparr> @ [tab] @ JSON_entry cd (snd entry))"

definition memory_ops :: "('e memory, 'e) persister_ops" where
  "memory_ops =
     \<lparr>PersisterPublish = mem_PublishImpl, PersisterUpdateHead = mem_UpdateHeadImpl,
      PersisterSize = mem_SizeImpl, PersisterCurrentHead = mem_CurrentHeadImpl,
      PersisterHeadAndLast = mem_HeadAndLastPublishedIndexAndTimestampImpl,
      PersisterIndexRange = mem_IndexRangeByTimestampRangeImpl, PersisterIterate = mem_IterateImpl\<rparr>"

subsection \<open>Refinement of the abstract log\<close>

definition mem_plog :: "'e memory \<Rightarrow> 'e plog" where
  "mem_plog s = \<lparr>plog_entries = mem_entries s, plog_head = mem_head s\<rparr>"

definition mem_inv :: "'e memory \<Rightarrow> bool" where
  "mem_inv s \<longleftrightarrow> plog_inv (mem_plog s)"

lemma mem_plog_simps [simp]:
  "plog_entries (mem_plog s) = mem_entries s" "plog_head (mem_plog s) = mem_head s"
  "plog_timestamps (mem_plog s) = map fst (mem_entries s)"
  by (simp_all add: mem_plog_def plog_timestamps_def)

lemma mem_inv_empty: "mem_inv mem_empty"
  by (simp add: mem_inv_def plog_inv_def mem_empty_def)

lemma mem_publish_refines:
  "map_sum id (map_prod id mem_plog) (mem_PublishImpl e u s) = plog_publish e u (mem_plog s)"
  by (simp add: mem_PublishImpl_def plog_publish_def Let_def mem_plog_def not_less)

lemma mem_update_head_refines:
  "map_sum id mem_plog (mem_UpdateHeadImpl u s) = plog_update_head u (mem_plog s)"
  by (simp add: mem_UpdateHeadImpl_def plog_update_head_def Let_def mem_plog_def not_less)

lemma mem_iterate_refines: "mem_IterateImpl b e s = plog_iterate b e (mem_plog s)"
proof -
  have "mem_range s b e = take (e - b) (drop b (plog_records (mem_plog s)))"
    if "e \<le> length (mem_entries s)" for b e
    using plog_records_slice [of e "mem_plog s" b] that by (simp add: mem_range_def mem_iterator_get_def)
  moreover have "mem_range s 0 0 = []" by (simp add: mem_range_def)
  ultimately show ?thesis by (auto simp: mem_IterateImpl_def plog_iterate_def Let_def)
qed

lemma mem_index_range_refines:
  "mem_IndexRangeByTimestampRangeImpl from till s = plog_index_range from till (mem_plog s)"
proof -
  have "lower_bound ts from \<le> length ts" "upper_bound ts till \<le> length ts" for ts
    by (simp_all add: lower_bound_def upper_bound_def length_takeWhile_le)
  from this [of "map fst (mem_entries s)"] show ?thesis
    by (auto simp: mem_IndexRangeByTimestampRangeImpl_def plog_index_range_def Let_def)
qed

interpretation memory: persister memory_ops mem_inv mem_plog
proof
  fix s :: "'e memory" and e u x i s'
  assume inv: "mem_inv s"
  show "plog_inv (mem_plog s)" using inv by (simp add: mem_inv_def)
  show "plog_publish e u (mem_plog s) = Inl x" if "PersisterPublish memory_ops e u s = Inl x"
    using that mem_publish_refines [of e u s] by (simp add: memory_ops_def)
  show "mem_inv s' \<and> plog_publish e u (mem_plog s) = Inr (i, mem_plog s')"
    if "PersisterPublish memory_ops e u s = Inr (i, s')"
    using that inv mem_publish_refines [of e u s] plog_publish_inv [of "mem_plog s" e u i "mem_plog s'"]
    by (simp add: memory_ops_def mem_inv_def)
  show "plog_update_head u (mem_plog s) = Inl x" if "PersisterUpdateHead memory_ops u s = Inl x"
    using that mem_update_head_refines [of u s] by (simp add: memory_ops_def)
  show "mem_inv s' \<and> plog_update_head u (mem_plog s) = Inr (mem_plog s')"
    if "PersisterUpdateHead memory_ops u s = Inr s'"
    using that inv mem_update_head_refines [of u s] plog_update_head_inv [of "mem_plog s" u "mem_plog s'"]
    by (simp add: memory_ops_def mem_inv_def)
qed (auto simp: memory_ops_def mem_SizeImpl_def mem_CurrentHeadImpl_def
    mem_HeadAndLastPublishedIndexAndTimestampImpl_def plog_last_def mem_index_range_refines mem_iterate_refines)

text \<open>
  The raw line of an entry, published into a persister that lacks exactly this entry, restores it:
  how a replica is fed from \<^verbatim>\<open>IterateUnsafe\<close>.
\<close>

lemma mem_unsafe_copy:
  assumes "codec_ok cd" "plog_inv (mem_plog src)" "i < length (mem_entries src)"
    and dst: "mem_entries dst = take i (mem_entries src)" "mem_head dst < fst (mem_entries src ! i)"
  shows "mem_PublishUnsafeImpl cd (mem_iterator_unsafe_get cd src i) dst =
    Inr (\<lparr>idx_index = i, idx_us = fst (mem_entries src ! i)\<rparr>,
         \<lparr>mem_entries = take (Suc i) (mem_entries src), mem_head = fst (mem_entries src ! i)\<rparr>)"
  using assms(3) dst codec_okD [OF assms(1)]
  by (simp add: mem_PublishUnsafeImpl_def mem_iterator_unsafe_get_def Let_def log_line_def
      take_Suc_conv_app_nth)

end
