(* ===== verification/FilePersister.thy ===== *)
theory FilePersister
  imports Persister "HOL-Library.Sublist"
begin

text \<open>
  \<^verbatim>\<open>FilePersister\<close> of \<^verbatim>\<open>src/blocks/persistence/file.h\<close>: the log as an append-only text file.  The file is
  the list of its characters.  A line is an entry or a directive (\<^verbatim>\<open>#signature\<close>, \<^verbatim>\<open>#head\<close>); the
  head directive at the end of the file is rewritten in place.

  Opening a file replays it (\<^verbatim>\<open>ValidateFileAndInitializeHead\<close>).  The main results: every operation keeps
  the file such that opening it again gives exactly the in-memory state the persister had, and the
  persister refines the abstract log, iteration by re-reading the file included.

  Not modelled: failures of the file system (\<^verbatim>\<open>PersistenceFileNotWritable\<close>, short writes) and an
  iterator that reads while the file grows.
\<close>

record file_persister =
  fp_file :: string
  fp_record_offset :: "int list"
  fp_head_offset :: int
  fp_record_timestamp :: "microseconds list"
  fp_next_index :: nat
  fp_last_entry_us :: microseconds
  fp_head :: microseconds

definition kSignatureDirective :: string where "kSignatureDirective = ''#signature''"
definition kHeadDirective :: string where "kHeadDirective = ''#head''"

subsection \<open>Reading entries from a file\<close>

record file_iterator =
  fi_rest :: string
  fi_next_index :: nat
  fi_next_us :: microseconds

text \<open>What one call of \<^verbatim>\<open>ProcessNextEntry\<close> passes to its two callbacks; the flag says that the end of the
  file was hit, after which \<^verbatim>\<open>tellg()\<close> is \<open>-1\<close>.\<close>

datatype processed =
    ProcessedEntry idxts string file_iterator bool
  | ProcessedDirective string file_iterator bool
  | ProcessedEnd
  | ProcessedThrow ss_exception

definition ProcessNextEntry :: "'e codec \<Rightarrow> file_iterator \<Rightarrow> processed" where
  "ProcessNextEntry cd it =
     (case getline (fi_rest it) of
        None \<Rightarrow> ProcessedEnd
      | Some (line, rest, eof) \<Rightarrow>
          if line = [] \<or> hd line \<noteq> CHR ''#'' then
            (case split_tab line of
               None \<Rightarrow> ProcessedThrow (MalformedEntryException line)
             | Some (before, after) \<Rightarrow>
                 (case ParseJSON_idxts cd before of
                    None \<Rightarrow> ProcessedThrow (InvalidJSONException before)
                  | Some current \<Rightarrow>
                      if idx_index current \<noteq> fi_next_index it
                      then ProcessedThrow (InconsistentIndexException (fi_next_index it) (idx_index current))
                      else if idx_us current < fi_next_us it
                      then ProcessedThrow (InconsistentTimestampException (fi_next_us it) (idx_us current))
                      else ProcessedEntry current (c_str after)
                             \<lparr>fi_rest = rest, fi_next_index = idx_index current + 1,
                              fi_next_us = idx_us current + 1\<rparr> eof))
          else ProcessedDirective line (it\<lparr>fi_rest := rest\<rparr>) eof)"

text \<open>\<^verbatim>\<open>Iterator::operator*\<close>: skip to the entry with index \<open>i\<close>.\<close>

lemma ProcessNextEntry_length:
  "ProcessNextEntry cd it = ProcessedEntry i j it' eof \<Longrightarrow> length (fi_rest it') < length (fi_rest it)"
  "ProcessNextEntry cd it = ProcessedDirective line it' eof \<Longrightarrow> length (fi_rest it') < length (fi_rest it)"
  by (auto simp: ProcessNextEntry_def split: option.splits if_splits; frule getline_length; simp)+

function fp_iterator_get :: "'e codec \<Rightarrow> nat \<Rightarrow> file_iterator \<Rightarrow> ss_exception + (idxts \<times> 'e) \<times> file_iterator" where
  "fp_iterator_get cd i it =
     (case ProcessNextEntry cd it of
        ProcessedEntry cursor json it' eof \<Rightarrow>
          if idx_index cursor = i then
            (case ParseJSON_entry cd json of
               Some entry \<Rightarrow> Inr ((cursor, entry), it')
             | None \<Rightarrow> Inl (InvalidJSONException json))
          else if idx_index cursor > i then Inl (InconsistentIndexException i (idx_index cursor))
          else fp_iterator_get cd i it'
      | ProcessedDirective line it' eof \<Rightarrow> fp_iterator_get cd i it'
      | ProcessedEnd \<Rightarrow> Inl EndOfFileException
      | ProcessedThrow x \<Rightarrow> Inl x)"
  by pat_completeness auto

termination fp_iterator_get
  by (relation "measure (\<lambda>(cd, i, it). length (fi_rest it))") (auto simp: ProcessNextEntry_length)

declare fp_iterator_get.simps [simp del]

text \<open>The range-based for loop: \<open>n\<close> times \<^verbatim>\<open>operator*\<close> and \<^verbatim>\<open>operator++\<close> from index \<open>i\<close>.\<close>

fun fp_collect :: "'e codec \<Rightarrow> nat \<Rightarrow> nat \<Rightarrow> file_iterator \<Rightarrow> ss_exception + (idxts \<times> 'e) list" where
  "fp_collect cd i 0 it = Inr []"
| "fp_collect cd i (Suc n) it =
     (case fp_iterator_get cd i it of
        Inl x \<Rightarrow> Inl x
      | Inr (r, it') \<Rightarrow> map_sum id (Cons r) (fp_collect cd (Suc i) n it'))"

subsection \<open>Opening a file\<close>

text \<open>The local state of \<^verbatim>\<open>ValidateFileAndInitializeHead\<close> and the members it fills in.\<close>

record file_scan =
  sc_it :: file_iterator
  sc_current_offset :: int
  sc_head :: microseconds
  sc_head_offset :: int
  sc_record_offset :: "int list"
  sc_record_timestamp :: "microseconds list"

definition tellg :: "string \<Rightarrow> string \<Rightarrow> bool \<Rightarrow> int" where
  "tellg file rest eof = (if eof then -1 else int (length file) - int (length rest))"

definition scan_entry ::
  "string \<Rightarrow> idxts \<Rightarrow> file_iterator \<Rightarrow> bool \<Rightarrow> file_scan \<Rightarrow> ss_exception + file_scan" where
  "scan_entry file current it' eof s =
     (if \<not> (idx_us current > sc_head s)
      then Inl (InconsistentTimestampException (sc_head s + 1) (idx_us current))
      else Inr \<lparr>sc_it = it', sc_current_offset = tellg file (fi_rest it') eof, sc_head = idx_us current,
                sc_head_offset = 0, sc_record_offset = sc_record_offset s @ [sc_current_offset s],
                sc_record_timestamp = sc_record_timestamp s @ [idx_us current]\<rparr>)"

definition skip_spaces :: "nat \<Rightarrow> string \<Rightarrow> nat" where
  "skip_spaces offset value = offset + length (takeWhile isspace (drop offset value))"

definition scan_directive ::
  "string \<Rightarrow> string \<Rightarrow> string \<Rightarrow> file_iterator \<Rightarrow> bool \<Rightarrow> file_scan \<Rightarrow> ss_exception + file_scan" where
  "scan_directive signature file value it' eof s =
     (let s' = s\<lparr>sc_it := it', sc_head_offset := 0, sc_current_offset := tellg file (fi_rest it') eof\<rparr> in
      if take (length kHeadDirective) value = kHeadDirective then
        let offset = skip_spaces (length kHeadDirective) value;
            us = FromString_int64 (c_str (drop offset value)) in
        if \<not> (us > sc_head s) then Inl (InconsistentTimestampException (sc_head s + 1) us)
        else Inr (s'\<lparr>sc_head := us, sc_head_offset := sc_current_offset s + int offset\<rparr>)
      else if take (length kSignatureDirective) value = kSignatureDirective then
        if sc_current_offset s \<noteq> 0 then Inl InvalidSignatureLocation
        else let offset = skip_spaces (length kSignatureDirective) value in
          if take (length signature) (drop offset value) \<noteq> signature
          then Inl (InvalidStreamSignature signature (drop offset value))
          else Inr s'
      else Inr s')"

lemma scan_step_rest:
  "scan_entry file i it' eof s = Inr s' \<Longrightarrow> sc_it s' = it'"
  "scan_directive sig file v it' eof s = Inr s' \<Longrightarrow> sc_it s' = it'"
  by (auto simp: scan_entry_def scan_directive_def Let_def split: if_splits)

function scan_loop :: "'e codec \<Rightarrow> string \<Rightarrow> string \<Rightarrow> file_scan \<Rightarrow> ss_exception + file_scan" where
  "scan_loop cd signature file s =
     (case ProcessNextEntry cd (sc_it s) of
        ProcessedEntry current json it' eof \<Rightarrow>
          (case scan_entry file current it' eof s of
             Inl x \<Rightarrow> Inl x
           | Inr s' \<Rightarrow> scan_loop cd signature file s')
      | ProcessedDirective value it' eof \<Rightarrow>
          (case scan_directive signature file value it' eof s of
             Inl x \<Rightarrow> Inl x
           | Inr s' \<Rightarrow> scan_loop cd signature file s')
      | ProcessedEnd \<Rightarrow> Inr s
      | ProcessedThrow x \<Rightarrow> Inl x)"
  by pat_completeness auto

termination scan_loop
  by (relation "measure (\<lambda>(cd, sig, file, s). length (fi_rest (sc_it s)))")
    (auto simp: ProcessNextEntry_length scan_step_rest)

declare scan_loop.simps [simp del]

definition ValidateFileAndInitializeHead :: "'e codec \<Rightarrow> string \<Rightarrow> string \<Rightarrow> ss_exception + file_persister" where
  "ValidateFileAndInitializeHead cd signature file =
     (case scan_loop cd signature file
        \<lparr>sc_it = \<lparr>fi_rest = file, fi_next_index = 0, fi_next_us = 0\<rparr>, sc_current_offset = 0, sc_head = -1,
         sc_head_offset = 0, sc_record_offset = [], sc_record_timestamp = []\<rparr> of
        Inl x \<Rightarrow> Inl x
      | Inr s \<Rightarrow>
          Inr \<lparr>fp_file = (if sc_current_offset s = 0
                           then file @ kSignatureDirective @ '' '' @ signature @ [newline] else file),
               fp_record_offset = sc_record_offset s, fp_head_offset = sc_head_offset s,
               fp_record_timestamp = sc_record_timestamp s, fp_next_index = fi_next_index (sc_it s),
               fp_last_entry_us = fi_next_us (sc_it s) - 1, fp_head = sc_head s\<rparr>)"

subsection \<open>The operations\<close>

definition fp_PublishImpl ::
  "'e codec \<Rightarrow> 'e \<Rightarrow> microseconds \<Rightarrow> file_persister \<Rightarrow> ss_exception + idxts \<times> file_persister" where
  "fp_PublishImpl cd entry timestamp s =
     (if \<not> (timestamp > fp_head s)
      then Inl (InconsistentTimestampException (fp_head s + 1) timestamp)
      else let idxts = \<lparr>idx_index = fp_next_index s, idx_us = timestamp\<rparr> in
        Inr (idxts,
          s\<lparr>fp_record_offset := fp_record_offset s @ [int (length (fp_file s))],
            fp_record_timestamp := fp_record_timestamp s @ [timestamp],
            fp_file := fp_file s @ JSON_idxts cd idxts @ [tab] @ JSON_entry cd entry @ [newline],
            fp_head_offset := 0, fp_last_entry_us := timestamp, fp_head := timestamp,
            fp_next_index := fp_next_index s + 1\<rparr>))"

definition fp_PublishUnsafeImpl ::
  "'e codec \<Rightarrow> string \<Rightarrow> file_persister \<Rightarrow> ss_exception + idxts \<times> file_persister" where
  "fp_PublishUnsafeImpl cd raw_log_line s =
     (case split_tab raw_log_line of
        None \<Rightarrow> Inl (MalformedEntryException raw_log_line)
      | Some (before, after) \<Rightarrow>
          (case ParseJSON_idxts cd before of
             None \<Rightarrow> Inl (InvalidJSONException before)
           | Some idxts \<Rightarrow>
               if idx_index idxts \<noteq> fp_next_index s
               then Inl (UnsafePublishBadIndexTimestampException (fp_next_index s) (idx_index idxts))
               else if \<not> (idx_us idxts > fp_head s)
               then Inl (InconsistentTimestampException (fp_head s + 1) (idx_us idxts))
               else Inr (idxts,
                 s\<lparr>fp_record_offset := fp_record_offset s @ [int (length (fp_file s))],
                   fp_record_timestamp := fp_record_timestamp s @ [idx_us idxts],
                   fp_file := fp_file s @ raw_log_line @ [newline],
                   fp_head_offset := 0, fp_last_entry_us := idx_us idxts, fp_head := idx_us idxts,
                   fp_next_index := fp_next_index s + 1\<rparr>)))"

text \<open>Writing through \<^verbatim>\<open>head_rewriter_\<close> at an offset of the file.\<close>

definition overwrite_at :: "int \<Rightarrow> string \<Rightarrow> string \<Rightarrow> string" where
  "overwrite_at offset text file = take (nat offset) file @ text @ drop (nat offset + length text) file"

definition fp_UpdateHeadImpl :: "microseconds \<Rightarrow> file_persister \<Rightarrow> ss_exception + file_persister" where
  "fp_UpdateHeadImpl timestamp s =
     (if \<not> (timestamp > fp_head s)
      then Inl (InconsistentTimestampException (fp_head s + 1) timestamp)
      else let head_str = printf_020lld timestamp in
        if fp_head_offset s \<noteq> 0
        then Inr (s\<lparr>fp_file := overwrite_at (fp_head_offset s) (head_str @ [newline]) (fp_file s),
                    fp_head := timestamp\<rparr>)
        else let file = fp_file s @ kHeadDirective @ '' '' in
          Inr (s\<lparr>fp_head_offset := int (length file), fp_file := file @ head_str @ [newline],
                 fp_head := timestamp\<rparr>))"

definition fp_SizeImpl :: "file_persister \<Rightarrow> nat" where
  "fp_SizeImpl s = fp_next_index s"

definition fp_CurrentHeadImpl :: "file_persister \<Rightarrow> microseconds" where
  "fp_CurrentHeadImpl s = fp_head s"

definition fp_LastPublishedIndexAndTimestampImpl :: "file_persister \<Rightarrow> ss_exception + idxts" where
  "fp_LastPublishedIndexAndTimestampImpl s =
     (if fp_next_index s \<noteq> 0 then Inr \<lparr>idx_index = fp_next_index s - 1, idx_us = fp_last_entry_us s\<rparr>
      else Inl NoEntriesPublishedYet)"

definition fp_HeadAndLastPublishedIndexAndTimestampImpl :: "file_persister \<Rightarrow> head_optidxts" where
  "fp_HeadAndLastPublishedIndexAndTimestampImpl s =
     (if fp_next_index s \<noteq> 0
      then \<lparr>hoi_head = fp_head s,
            hoi_idxts = Some \<lparr>idx_index = fp_next_index s - 1, idx_us = fp_last_entry_us s\<rparr>\<rparr>
      else \<lparr>hoi_head = fp_head s, hoi_idxts = None\<rparr>)"

definition fp_IndexRangeByTimestampRangeImpl :: "microseconds \<Rightarrow> microseconds \<Rightarrow> file_persister \<Rightarrow> nat \<times> nat" where
  "fp_IndexRangeByTimestampRangeImpl from till s =
     (let ts = fp_record_timestamp s;
          result = (uint64_npos, uint64_npos);
          begin_it = lower_bound ts from;
          result = (if begin_it \<noteq> length ts then (begin_it, snd result) else result)
      in if till > 0
         then let end_it = upper_bound ts till
              in if end_it \<noteq> length ts then (fst result, end_it) else result
         else result)"

text \<open>\<^verbatim>\<open>PersisterIterateImpl\<close> with the loop over the range it returns: a fresh stream at the offset of the
  first record.\<close>

definition fp_range :: "'e codec \<Rightarrow> file_persister \<Rightarrow> nat \<Rightarrow> nat \<Rightarrow> int \<Rightarrow> ss_exception + (idxts \<times> 'e) list" where
  "fp_range cd s b e offset =
     (if b = e then Inr []
      else fp_collect cd b (e - b)
             \<lparr>fi_rest = drop (nat offset) (fp_file s), fi_next_index = b, fi_next_us = 0\<rparr>)"

definition fp_IterateImpl :: "'e codec \<Rightarrow> nat \<Rightarrow> nat \<Rightarrow> file_persister \<Rightarrow> ss_exception + (idxts \<times> 'e) list" where
  "fp_IterateImpl cd b e s =
     (let size = fp_next_index s;
          e = (if e = uint64_npos then size else e) in
      if e > size then Inl InvalidIterableRangeException
      else if b = e then fp_range cd s 0 0 0
      else if e < b then Inl InvalidIterableRangeException
      else fp_range cd s b e (fp_record_offset s ! b))"

text \<open>\<^verbatim>\<open>IteratorUnsafe::operator*\<close>: the line at the offset of a record, without parsing it.\<close>

definition fp_iterator_unsafe_get :: "file_persister \<Rightarrow> nat \<Rightarrow> ss_exception + string" where
  "fp_iterator_unsafe_get s i =
     (case getline (drop (nat (fp_record_offset s ! i)) (fp_file s)) of
        Some (line, rest, eof) \<Rightarrow> Inr line
      | None \<Rightarrow> Inl EndOfFileException)"

definition file_ops :: "'e codec \<Rightarrow> (file_persister, 'e) persister_ops" where
  "file_ops cd =
     \<lparr>PersisterPublish = fp_PublishImpl cd, PersisterUpdateHead = fp_UpdateHeadImpl,
      PersisterSize = fp_SizeImpl, PersisterCurrentHead = fp_CurrentHeadImpl,
      PersisterHeadAndLast = fp_HeadAndLastPublishedIndexAndTimestampImpl,
      PersisterIndexRange = fp_IndexRangeByTimestampRangeImpl, PersisterIterate = fp_IterateImpl cd\<rparr>"

subsection \<open>The files the persister writes\<close>

text \<open>
  A file is a signature line followed by items: entries, numbered consecutively, and head
  directives.  \<open>fp_of\<close> is the state of the persister that corresponds to a list of items.
\<close>

datatype 'e item = ItemEntry microseconds 'e | ItemHead microseconds

fun item_us :: "'e item \<Rightarrow> microseconds" where
  "item_us (ItemEntry u e) = u"
| "item_us (ItemHead u) = u"

fun is_head :: "'e item \<Rightarrow> bool" where
  "is_head (ItemEntry u e) \<longleftrightarrow> False"
| "is_head (ItemHead u) \<longleftrightarrow> True"

fun item_entries :: "'e item list \<Rightarrow> (microseconds \<times> 'e) list" where
  "item_entries [] = []"
| "item_entries (ItemEntry u e # its) = (u, e) # item_entries its"
| "item_entries (ItemHead u # its) = item_entries its"

abbreviation item_count :: "'e item list \<Rightarrow> nat" where
  "item_count its \<equiv> length (item_entries its)"

fun item_line :: "'e codec \<Rightarrow> nat \<Rightarrow> 'e item \<Rightarrow> string" where
  "item_line cd n (ItemEntry u e) = log_line cd \<lparr>idx_index = n, idx_us = u\<rparr> e"
| "item_line cd n (ItemHead u) = kHeadDirective @ '' '' @ printf_020lld u"

fun render :: "'e codec \<Rightarrow> nat \<Rightarrow> 'e item list \<Rightarrow> string" where
  "render cd n [] = []"
| "render cd n (it # its) = item_line cd n it @ newline # render cd (n + item_count [it]) its"

fun item_offsets :: "'e codec \<Rightarrow> nat \<Rightarrow> nat \<Rightarrow> 'e item list \<Rightarrow> int list" where
  "item_offsets cd pos n [] = []"
| "item_offsets cd pos n (it # its) =
     (if is_head it then [] else [int pos]) @
     item_offsets cd (pos + length (item_line cd n it) + 1) (n + item_count [it]) its"

definition signature_line :: "string \<Rightarrow> string" where
  "signature_line sig = kSignatureDirective @ '' '' @ sig"

definition items_file :: "'e codec \<Rightarrow> string \<Rightarrow> 'e item list \<Rightarrow> string" where
  "items_file cd sig its = signature_line sig @ newline # render cd 0 its"

definition items_head :: "'e item list \<Rightarrow> microseconds" where
  "items_head its = (if its = [] then -1 else item_us (last its))"

definition items_last_us :: "'e item list \<Rightarrow> microseconds" where
  "items_last_us its = (if item_entries its = [] then -1 else fst (last (item_entries its)))"

definition items_head_offset :: "'e codec \<Rightarrow> string \<Rightarrow> 'e item list \<Rightarrow> int" where
  "items_head_offset cd sig its =
     (if its \<noteq> [] \<and> is_head (last its) then int (length (items_file cd sig its)) - 21 else 0)"

definition fp_of :: "'e codec \<Rightarrow> string \<Rightarrow> 'e item list \<Rightarrow> file_persister" where
  "fp_of cd sig its =
     \<lparr>fp_file = items_file cd sig its,
      fp_record_offset = item_offsets cd (length (signature_line sig) + 1) 0 its,
      fp_head_offset = items_head_offset cd sig its,
      fp_record_timestamp = map fst (item_entries its),
      fp_next_index = item_count its,
      fp_last_entry_us = items_last_us its,
      fp_head = items_head its\<rparr>"

definition items_ok :: "'e item list \<Rightarrow> bool" where
  "items_ok its \<longleftrightarrow> sorted_wrt (<) (map item_us its) \<and> 
     (\<forall>it \<in> set its. 0 \<le> item_us it \<and> (is_head it \<longrightarrow> item_us it \<le> int64_max))"

definition signature_ok :: "string \<Rightarrow> bool" where
  "signature_ok sig \<longleftrightarrow> sig \<noteq> [] \<and> \<not> isspace (hd sig) \<and> newline \<notin> set sig"

lemma item_entries_append [simp]: "item_entries (xs @ ys) = item_entries xs @ item_entries ys"
  by (induction xs rule: item_entries.induct) simp_all

lemma render_append: "render cd n (xs @ ys) = render cd n xs @ render cd (n + item_count xs) ys"
proof (induction xs arbitrary: n)
  case (Cons x xs)
  then show ?case by (cases x) (simp_all add: ac_simps)
qed simp

lemma item_offsets_append:
  "item_offsets cd pos n (xs @ ys) =
   item_offsets cd pos n xs @ item_offsets cd (pos + length (render cd n xs)) (n + item_count xs) ys"
proof (induction xs arbitrary: n pos)
  case (Cons x xs)
  then show ?case by (cases x) (simp_all add: ac_simps)
qed simp

lemma length_item_offsets [simp]: "length (item_offsets cd pos n its) = item_count its"
proof (induction its arbitrary: n pos)
  case (Cons x xs)
  then show ?case by (cases x) simp_all
qed simp

lemma items_ok_snoc:
  "items_ok (its @ [it]) \<longleftrightarrow> items_ok its \<and> items_head its < item_us it \<and> 0 \<le> item_us it \<and>
     (is_head it \<longrightarrow> item_us it \<le> int64_max)"
proof (cases its rule: rev_cases)
  case (snoc xs x)
  then show ?thesis by (fastforce simp: items_ok_def items_head_def sorted_wrt_append)
qed (auto simp: items_ok_def items_head_def)

lemma items_ok_empty: "items_ok []"
  by (simp add: items_ok_def)

lemma items_head_ge: "items_ok its \<Longrightarrow> -1 \<le> items_head its"
  using last_in_set [of its] by (fastforce simp: items_head_def items_ok_def)

lemma item_entries_us: "(u, e) \<in> set (item_entries its) \<Longrightarrow> \<exists>it \<in> set its. item_us it = u"
  by (induction its rule: item_entries.induct) auto

lemma items_last_le_head:
  assumes "items_ok its" shows "items_last_us its \<le> items_head its"
  using assms
proof (induction its rule: rev_induct)
  case (snoc it its)
  then have "items_last_us its \<le> items_head its" "items_head its < item_us it" by (auto simp: items_ok_snoc)
  then show ?case by (cases it) (auto simp: items_last_us_def items_head_def)
qed (simp add: items_last_us_def items_head_def)

lemma items_timestamps_sorted:
  "items_ok its \<Longrightarrow> sorted_wrt (<) (map fst (item_entries its)) \<and>
     (\<forall>t \<in> set (map fst (item_entries its)). 0 \<le> t \<and> t \<le> items_head its)"
proof (induction its rule: rev_induct)
  case (snoc it its)
  then have IH: "sorted_wrt (<) (map fst (item_entries its))"
    "\<forall>t \<in> set (map fst (item_entries its)). 0 \<le> t \<and> t \<le> items_head its"
    and it: "items_head its < item_us it" "0 \<le> item_us it"
    by (auto simp: items_ok_snoc)
  have "items_head (its @ [it]) = item_us it" by (simp add: items_head_def)
  then show ?case using IH it by (cases it) (fastforce simp: sorted_wrt_append)+
qed simp

subsection \<open>Publishing appends an item\<close>

lemma fp_PublishImpl_of:
  "fp_PublishImpl cd e u (fp_of cd sig its) =
     (if u \<le> items_head its then Inl (InconsistentTimestampException (items_head its + 1) u)
      else Inr (\<lparr>idx_index = item_count its, idx_us = u\<rparr>, fp_of cd sig (its @ [ItemEntry u e])))"
  by (simp add: fp_PublishImpl_def fp_of_def items_file_def items_head_def items_last_us_def items_head_offset_def
      log_line_def render_append item_offsets_append Let_def not_less ac_simps)

lemma fp_UpdateHeadImpl_append:
  assumes "items_head its < u" "0 \<le> u" "u \<le> int64_max" "its = [] \<or> \<not> is_head (last its)"
  shows "fp_UpdateHeadImpl u (fp_of cd sig its) = Inr (fp_of cd sig (its @ [ItemHead u]))"
  using assms printf_020lld_facts(1) [of u]
  by (auto simp: fp_UpdateHeadImpl_def fp_of_def items_file_def items_head_def items_last_us_def items_head_offset_def
      render_append item_offsets_append Let_def)

lemma overwrite_at_tail: "length b = length t \<Longrightarrow> overwrite_at (int (length a)) t (a @ b) = a @ t"
  by (simp add: overwrite_at_def)

lemma fp_UpdateHeadImpl_rewrite:
  assumes "u0 < u" "0 \<le> u0" "u \<le> int64_max"
  shows "fp_UpdateHeadImpl u (fp_of cd sig (its @ [ItemHead u0])) = Inr (fp_of cd sig (its @ [ItemHead u]))"
proof -
  have len: "length (printf_020lld u) = 20" "length (printf_020lld u0) = 20"
    using assms by (auto intro!: printf_020lld_facts(1))
  let ?f = "items_file cd sig its @ kHeadDirective @ '' ''"
  have fl: "items_file cd sig (its @ [ItemHead v]) = ?f @ printf_020lld v @ [newline]" for v
    by (simp add: items_file_def render_append)
  have off: "items_head_offset cd sig (its @ [ItemHead v]) = int (length ?f)" if "length (printf_020lld v) = 20" for v
    unfolding items_head_offset_def fl using that by simp
  have "overwrite_at (int (length ?f)) (printf_020lld u @ [newline]) (?f @ printf_020lld u0 @ [newline]) =
      ?f @ printf_020lld u @ [newline]"
    by (rule overwrite_at_tail) (simp add: len)
  then have "overwrite_at (items_head_offset cd sig (its @ [ItemHead u0])) (printf_020lld u @ [newline])
      (items_file cd sig (its @ [ItemHead u0])) = items_file cd sig (its @ [ItemHead u])"
    by (simp only: off [OF len(2)] fl)
  moreover have "items_head_offset cd sig (its @ [ItemHead u0]) \<noteq> 0"
    by (simp only: off [OF len(2)]) simp
  moreover have "items_head_offset cd sig (its @ [ItemHead u0]) = items_head_offset cd sig (its @ [ItemHead u])"
    by (simp only: off [OF len(1)] off [OF len(2)])
  ultimately show ?thesis
    using assms(1) by (simp add: fp_UpdateHeadImpl_def fp_of_def items_head_def items_last_us_def item_offsets_append)
qed

subsection \<open>Opening a written file restores the state\<close>

lemma isdigit_plain: "isdigit c \<Longrightarrow> c \<noteq> newline \<and> c \<noteq> CHR 0x00 \<and> c \<noteq> CHR '' ''"
  by (auto simp: isdigit_def)

lemma digits_plain:
  assumes "\<forall>c \<in> set ds. isdigit c" "ds \<noteq> []"
  shows "newline \<notin> set ds" "c_str ds = ds" "takeWhile isspace ds = []"
proof -
  show "newline \<notin> set ds" using assms isdigit_plain by blast
  show "c_str ds = ds" using assms(1) isdigit_plain by (auto simp: c_str_def)
  show "takeWhile isspace ds = []" using assms isdigit_notspace by (cases ds) auto
qed

lemma ProcessNextEntry_entry:
  assumes "codec_ok cd" "fi_rest it = log_line cd i e @ newline # rest" "fi_next_index it = idx_index i"
    "fi_next_us it \<le> idx_us i"
  shows "ProcessNextEntry cd it = ProcessedEntry i (JSON_entry cd e)
    \<lparr>fi_rest = rest, fi_next_index = idx_index i + 1, fi_next_us = idx_us i + 1\<rparr> False"
proof -
  note cd = codec_okD [OF assms(1)]
  have "takeWhile (\<lambda>c. c \<noteq> CHR 0x00) (JSON_entry cd e) = JSON_entry cd e"
    using cd(4) [of e] by (auto simp: takeWhile_eq_all_conv)
  then show ?thesis
    using assms(2-4) cd(6) [of i e] by (simp add: ProcessNextEntry_def c_str_def cd getline_line)
qed

lemma ProcessNextEntry_directive:
  assumes "fi_rest it = (CHR ''#'' # value) @ newline # rest" "newline \<notin> set value"
  shows "ProcessNextEntry cd it = ProcessedDirective (CHR ''#'' # value) (it\<lparr>fi_rest := rest\<rparr>) False"
proof -
  have "getline (fi_rest it) = Some (CHR ''#'' # value, rest, False)"
    unfolding assms(1) using assms(2) by (intro getline_line) simp
  then show ?thesis by (simp add: ProcessNextEntry_def)
qed

lemma ProcessNextEntry_head:
  assumes "fi_rest it = item_line cd n (ItemHead u) @ newline # rest" "0 \<le> u" "u \<le> int64_max"
  shows "ProcessNextEntry cd it = ProcessedDirective (item_line cd n (ItemHead u)) (it\<lparr>fi_rest := rest\<rparr>) False"
proof -
  have "item_line cd n (ItemHead u) = CHR ''#'' # ''head '' @ printf_020lld u"
    by (simp add: kHeadDirective_def)
  moreover have "newline \<notin> set (printf_020lld u)"
    using printf_020lld_facts [OF assms(2,3)] by (intro digits_plain) auto
  ultimately show ?thesis
    using assms(1) ProcessNextEntry_directive [of it "''head '' @ printf_020lld u" rest]
    by (simp add: kHeadDirective_def)
qed

lemma scan_head:
  assumes "0 \<le> u" "u \<le> int64_max" "sc_head s < u"
  shows "scan_directive sig fl (item_line cd n (ItemHead u)) it' False s =
    Inr (s\<lparr>sc_it := it', sc_head := u, sc_head_offset := sc_current_offset s + 6,
           sc_current_offset := int (length fl) - int (length (fi_rest it'))\<rparr>)"
proof -
  note facts = printf_020lld_facts [OF assms(1,2)]
  have "printf_020lld u \<noteq> []" using facts(1) by auto
  note plain = digits_plain [OF facts(2) this]
  have "isspace (CHR '' '')" by (simp add: isspace_def)
  then have "skip_spaces (length kHeadDirective) (item_line cd n (ItemHead u)) = 6"
    by (simp add: skip_spaces_def kHeadDirective_def plain(3))
  then show ?thesis
    using assms(3) by (simp add: scan_directive_def Let_def tellg_def kHeadDirective_def plain(2) facts(3))
qed

definition scan_of :: "'e codec \<Rightarrow> string \<Rightarrow> 'e item list \<Rightarrow> string \<Rightarrow> file_scan" where
  "scan_of cd sig its rest =
     \<lparr>sc_it = \<lparr>fi_rest = rest, fi_next_index = item_count its, fi_next_us = items_last_us its + 1\<rparr>,
      sc_current_offset = int (length (items_file cd sig its)), sc_head = items_head its,
      sc_head_offset = items_head_offset cd sig its,
      sc_record_offset = item_offsets cd (length (signature_line sig) + 1) 0 its,
      sc_record_timestamp = map fst (item_entries its)\<rparr>"

lemma scan_loop_item:
  assumes cd: "codec_ok cd" and ok: "items_ok (its @ [it])"
    and fl: "fl = items_file cd sig (its @ [it]) @ rest"
  shows "scan_loop cd sig fl (scan_of cd sig its (item_line cd (item_count its) it @ newline # rest)) =
    scan_loop cd sig fl (scan_of cd sig (its @ [it]) rest)"
proof (cases it)
  case (ItemEntry u e)
  have us: "items_head its < u" "items_last_us its + 1 \<le> u"
    using ok items_last_le_head [of its] by (auto simp: items_ok_snoc ItemEntry)
  let ?i = "\<lparr>idx_index = item_count its, idx_us = u\<rparr>"
  have "ProcessNextEntry cd (sc_it (scan_of cd sig its (item_line cd (item_count its) it @ newline # rest))) =
      ProcessedEntry ?i (JSON_entry cd e) \<lparr>fi_rest = rest, fi_next_index = item_count its + 1, fi_next_us = u + 1\<rparr> False"
    using us ProcessNextEntry_entry [OF cd, of _ ?i e rest] by (simp add: scan_of_def ItemEntry)
  then show ?thesis
    using us by (subst scan_loop.simps) (simp add: scan_entry_def scan_of_def fl ItemEntry tellg_def items_head_def
        items_last_us_def items_head_offset_def items_file_def render_append item_offsets_append ac_simps)
next
  case (ItemHead u)
  have u: "items_head its < u" "0 \<le> u" "u \<le> int64_max" using ok by (auto simp: items_ok_snoc ItemHead)
  note len = printf_020lld_facts(1) [OF u(2,3)]
  let ?s = "scan_of cd sig its (item_line cd (item_count its) it @ newline # rest)"
  have "ProcessNextEntry cd (sc_it ?s) =
      ProcessedDirective (item_line cd (item_count its) it) ((sc_it ?s)\<lparr>fi_rest := rest\<rparr>) False"
    unfolding ItemHead by (rule ProcessNextEntry_head [OF _ u(2,3)]) (simp add: scan_of_def)
  moreover have "scan_directive sig fl (item_line cd (item_count its) it) ((sc_it ?s)\<lparr>fi_rest := rest\<rparr>) False ?s =
      Inr (scan_of cd sig (its @ [it]) rest)"
    using u unfolding ItemHead
    by (subst scan_head) (simp_all add: scan_of_def fl ItemHead items_head_def items_last_us_def
        items_head_offset_def items_file_def render_append item_offsets_append kHeadDirective_def len)
  ultimately show ?thesis by (subst scan_loop.simps) simp
qed

lemma scan_loop_items:
  assumes "codec_ok cd" "items_ok its" "fl = items_file cd sig its @ rest"
  shows "scan_loop cd sig fl (scan_of cd sig [] (render cd 0 its @ rest)) =
    scan_loop cd sig fl (scan_of cd sig its rest)"
  using assms(2,3)
proof (induction its arbitrary: rest rule: rev_induct)
  case (snoc it its)
  let ?rest = "item_line cd (item_count its) it @ newline # rest"
  have "scan_loop cd sig fl (scan_of cd sig [] (render cd 0 its @ ?rest)) =
      scan_loop cd sig fl (scan_of cd sig its ?rest)"
    using snoc by (intro snoc.IH) (auto simp: items_ok_snoc items_file_def render_append)
  then show ?case
    using scan_loop_item [OF assms(1) snoc.prems] by (simp add: render_append)
qed simp

lemma scan_loop_signature:
  assumes "signature_ok sig" "fl = signature_line sig @ newline # rest"
  shows "scan_loop cd sig fl
      \<lparr>sc_it = \<lparr>fi_rest = fl, fi_next_index = 0, fi_next_us = 0\<rparr>, sc_current_offset = 0, sc_head = -1,
       sc_head_offset = 0, sc_record_offset = [], sc_record_timestamp = []\<rparr> =
    scan_loop cd sig fl (scan_of cd sig ([] :: 'e item list) rest)"
    (is "scan_loop _ _ _ ?s = _")
proof -
  have line: "signature_line sig = CHR ''#'' # ''signature '' @ sig"
    by (simp add: signature_line_def kSignatureDirective_def)
  have "ProcessNextEntry cd (sc_it ?s) =
      ProcessedDirective (signature_line sig) ((sc_it ?s)\<lparr>fi_rest := rest\<rparr>) False"
    using ProcessNextEntry_directive [of "sc_it ?s" "''signature '' @ sig" rest cd] assms
    by (simp add: line signature_ok_def)
  moreover have "takeWhile isspace sig = []" "isspace (CHR '' '')"
    using assms(1) by (cases sig; simp add: signature_ok_def isspace_def)+
  then have "skip_spaces (length kSignatureDirective) (signature_line sig) = 11"
    by (simp add: skip_spaces_def line kSignatureDirective_def)
  then have "scan_directive sig fl (signature_line sig) ((sc_it ?s)\<lparr>fi_rest := rest\<rparr>) False ?s =
      Inr (scan_of cd sig ([] :: 'e item list) rest)"
    by (simp add: scan_directive_def line kHeadDirective_def kSignatureDirective_def scan_of_def tellg_def
        items_head_def items_last_us_def items_head_offset_def items_file_def assms(2))
  ultimately show ?thesis by (subst scan_loop.simps) simp
qed

lemma fp_reopen:
  assumes "codec_ok cd" "signature_ok sig" "items_ok its"
  shows "ValidateFileAndInitializeHead cd sig (items_file cd sig its) = Inr (fp_of cd sig its)"
proof -
  let ?f = "items_file cd sig its"
  have "scan_loop cd sig ?f (scan_of cd sig its []) = Inr (scan_of cd sig its [])"
    by (subst scan_loop.simps) (simp add: scan_of_def ProcessNextEntry_def getline_def)
  then have "scan_loop cd sig ?f (scan_of cd sig ([] :: 'a item list) (render cd 0 its)) = Inr (scan_of cd sig its [])"
    using scan_loop_items [OF assms(1,3), of ?f sig "[]"] by simp
  moreover have "items_file cd sig its \<noteq> []" by (simp add: items_file_def)
  ultimately show ?thesis
    using scan_loop_signature [OF assms(2), of ?f "render cd 0 its" cd]
    by (simp add: ValidateFileAndInitializeHead_def items_file_def [symmetric])
      (simp add: scan_of_def fp_of_def)
qed

lemma fp_open_empty:
  "ValidateFileAndInitializeHead cd sig [] = Inr (fp_of cd sig [])"
  unfolding ValidateFileAndInitializeHead_def
  by (subst scan_loop.simps) (simp add: ProcessNextEntry_def getline_def fp_of_def items_file_def
      items_head_def items_last_us_def items_head_offset_def signature_line_def)

subsection \<open>Iterating re-reads the entries\<close>

fun from_entry :: "nat \<Rightarrow> 'e item list \<Rightarrow> 'e item list" where
  "from_entry k [] = []"
| "from_entry k (ItemHead u # its) = from_entry k its"
| "from_entry 0 (ItemEntry u e # its) = ItemEntry u e # its"
| "from_entry (Suc k) (ItemEntry u e # its) = from_entry k its"

definition numbered :: "nat \<Rightarrow> (microseconds \<times> 'e) list \<Rightarrow> (idxts \<times> 'e) list" where
  "numbered n xs = map (\<lambda>(i, u, e). (\<lparr>idx_index = i, idx_us = u\<rparr>, e)) (enumerate n xs)"

lemma numbered_simps [simp]:
  "numbered n [] = []" "numbered n ((u, e) # xs) = (\<lparr>idx_index = n, idx_us = u\<rparr>, e) # numbered (Suc n) xs"
  by (simp_all add: numbered_def)

lemma from_entry_entries: "item_entries (from_entry k its) = drop k (item_entries its)"
  by (induction k its rule: from_entry.induct) simp_all

lemma from_entry_suffix: "suffix (from_entry k its) its"
  by (induction k its rule: from_entry.induct) (auto intro: suffix_ConsI)

lemma from_entry_ok:
  assumes "items_ok its" shows "items_ok (from_entry k its)"
  using from_entry_suffix
proof (rule suffixE)
  fix pre assume "its = pre @ from_entry k its"
  then have "items_ok (pre @ from_entry k its)" using assms by (simp only: )
  then show ?thesis by (auto simp: items_ok_def sorted_wrt_append)
qed

lemma drop_past_line:
  assumes "int (pos + length line + 1) \<le> off"
  shows "drop (nat off - pos) (line @ c # r) = drop (nat off - (pos + length line + 1)) r"
proof -
  have "nat off - pos = length line + Suc (nat off - (pos + length line + 1))" using assms by linarith
  moreover have "drop (length line + Suc d) (line @ c # r) = drop d r" for d by simp
  ultimately show ?thesis by (simp only:)
qed

lemma drop_to_entry:
  "k < item_count its \<Longrightarrow> int pos \<le> item_offsets cd pos n its ! k \<and>
     drop (nat (item_offsets cd pos n its ! k) - pos) (render cd n its) = render cd (n + k) (from_entry k its)"
proof (induction its arbitrary: k n pos)
  case (Cons it its)
  let ?pos = "pos + length (item_line cd n it) + 1" and ?n = "n + item_count [it]"
  have skip: "int pos \<le> item_offsets cd ?pos ?n its ! j \<and>
      drop (nat (item_offsets cd ?pos ?n its ! j) - pos) (item_line cd n it @ newline # render cd ?n its) =
      render cd (?n + j) (from_entry j its)"
    if "j < item_count its" for j
    using Cons.IH [OF that, of ?pos ?n] drop_past_line [of pos "item_line cd n it" "item_offsets cd ?pos ?n its ! j"]
    by simp
  show ?case
  proof (cases it)
    case (ItemHead u)
    with Cons.prems skip [of k] show ?thesis by (simp del: item_line.simps)
  next
    case (ItemEntry u e)
    show ?thesis
    proof (cases k)
      case (Suc k')
      with ItemEntry Cons.prems skip [of k'] show ?thesis by (simp del: item_line.simps)
    qed (simp add: ItemEntry)
  qed
qed simp

lemma fp_collect_render:
  assumes "codec_ok cd" "m \<le> item_count its" "items_ok its" "\<forall>it \<in> set its. u0 \<le> item_us it"
  shows "fp_collect cd n m \<lparr>fi_rest = render cd n its, fi_next_index = n, fi_next_us = u0\<rparr> =
    Inr (take m (numbered n (item_entries its)))"
  using assms(2-4)
proof (induction its arbitrary: m n u0)
  case (Cons it its)
  show ?case
  proof (cases m)
    case (Suc m')
    have ok: "items_ok its" "\<forall>x \<in> set its. item_us it < item_us x" "0 \<le> item_us it"
      "is_head it \<Longrightarrow> item_us it \<le> int64_max"
      using Cons.prems by (auto simp: items_ok_def)
    let ?it = "\<lparr>fi_rest = render cd n (it # its), fi_next_index = n, fi_next_us = u0\<rparr>"
    show ?thesis
    proof (cases it)
      case (ItemHead u)
      have "ProcessNextEntry cd ?it = ProcessedDirective (item_line cd n it) (?it\<lparr>fi_rest := render cd n its\<rparr>) False"
        using ok unfolding ItemHead by (intro ProcessNextEntry_head [where n = n]) auto
      then have "fp_iterator_get cd n ?it = fp_iterator_get cd n (?it\<lparr>fi_rest := render cd n its\<rparr>)"
        by (subst fp_iterator_get.simps) simp
      then show ?thesis
        using Cons.prems Cons.IH [OF _ ok(1), of m u0 n] Suc by (simp add: ItemHead)
    next
      case (ItemEntry u e)
      have "ProcessNextEntry cd ?it = ProcessedEntry \<lparr>idx_index = n, idx_us = u\<rparr> (JSON_entry cd e)
          \<lparr>fi_rest = render cd (Suc n) its, fi_next_index = Suc n, fi_next_us = u + 1\<rparr> False"
        using Cons.prems ProcessNextEntry_entry [OF assms(1), of ?it "\<lparr>idx_index = n, idx_us = u\<rparr>" e]
        by (simp add: ItemEntry)
      then have "fp_iterator_get cd n ?it = Inr ((\<lparr>idx_index = n, idx_us = u\<rparr>, e),
          \<lparr>fi_rest = render cd (Suc n) its, fi_next_index = Suc n, fi_next_us = u + 1\<rparr>)"
        by (subst fp_iterator_get.simps) (simp add: codec_okD [OF assms(1)])
      moreover have "\<forall>x \<in> set its. u + 1 \<le> item_us x" using ok(2) by (auto simp: ItemEntry)
      ultimately show ?thesis
        using Cons.prems Cons.IH [OF _ ok(1), of m' "u + 1" "Suc n"] Suc by (simp add: ItemEntry)
    qed
  qed simp
qed simp

lemma numbered_drop: "drop b (numbered n xs) = numbered (n + b) (drop b xs)"
proof (induction xs arbitrary: b n)
  case (Cons x xs)
  then show ?case by (cases x; cases b) simp_all
qed simp

lemma plog_records_numbered: "plog_records l = numbered 0 (plog_entries l)"
  by (simp add: plog_records_def numbered_def)

lemma fp_range_of:
  assumes "codec_ok cd" "items_ok its" "b < e" "e \<le> item_count its"
  shows "fp_range cd (fp_of cd sig its) b e (fp_record_offset (fp_of cd sig its) ! b) =
    Inr (take (e - b) (drop b (numbered 0 (item_entries its))))"
proof -
  let ?pos = "length (signature_line sig) + 1"
  let ?o = "item_offsets cd ?pos 0 its ! b"
  have pos: "int ?pos \<le> ?o" and rest: "drop (nat ?o - ?pos) (render cd 0 its) = render cd b (from_entry b its)"
    using drop_to_entry [of b its ?pos cd 0] assms(3,4) by auto
  from pos have "nat ?o - ?pos + ?pos = nat ?o" by linarith
  then have "drop (nat ?o) (items_file cd sig its) = drop (nat ?o - ?pos) (drop ?pos (items_file cd sig its))"
    by (simp only: drop_drop)
  also have "\<dots> = render cd b (from_entry b its)" using rest by (simp add: items_file_def)
  finally have fl: "drop (nat ?o) (items_file cd sig its) = render cd b (from_entry b its)" .
  have "\<forall>it \<in> set (from_entry b its). 0 \<le> item_us it"
    using from_entry_ok [OF assms(2), of b] by (simp add: items_ok_def)
  then have "fp_collect cd b (e - b) \<lparr>fi_rest = render cd b (from_entry b its), fi_next_index = b, fi_next_us = 0\<rparr> =
      Inr (take (e - b) (numbered b (drop b (item_entries its))))"
    using fp_collect_render [OF assms(1) _ from_entry_ok [OF assms(2)], of "e - b" b 0 b] assms(3,4)
    by (simp add: from_entry_entries)
  then show ?thesis
    using assms(3) fl by (simp add: fp_range_def fp_of_def numbered_drop)
qed

definition items_plog :: "'e item list \<Rightarrow> 'e plog" where
  "items_plog its = \<lparr>plog_entries = item_entries its, plog_head = items_head its\<rparr>"

lemma fp_IterateImpl_of:
  assumes "codec_ok cd" "items_ok its"
  shows "fp_IterateImpl cd b e (fp_of cd sig its) = plog_iterate b e (items_plog its)"
proof -
  have "fp_range cd (fp_of cd sig its) 0 0 0 = Inr []" by (simp add: fp_range_def)
  then show ?thesis
    using fp_range_of [OF assms, of b _ sig]
    by (auto simp: fp_IterateImpl_def plog_iterate_def Let_def items_plog_def plog_records_numbered)
      (auto simp: fp_of_def)
qed

text \<open>The abstract log of a persister: what iterating over its file gives.\<close>

definition fp_plog :: "'e codec \<Rightarrow> file_persister \<Rightarrow> 'e plog" where
  "fp_plog cd s =
     \<lparr>plog_entries = (case fp_IterateImpl cd 0 uint64_npos s of
                        Inr rs \<Rightarrow> map (\<lambda>(i, e). (idx_us i, e)) rs | Inl x \<Rightarrow> []),
      plog_head = fp_head s\<rparr>"

definition fp_inv :: "'e codec \<Rightarrow> string \<Rightarrow> file_persister \<Rightarrow> bool" where
  "fp_inv cd sig s \<longleftrightarrow> codec_ok cd \<and> signature_ok sig \<and> (\<exists>its. items_ok its \<and> s = fp_of cd sig its)"

lemma numbered_entries: "map (\<lambda>(i, e). (idx_us i, e)) (numbered n xs) = xs"
  by (induction xs arbitrary: n) auto

lemma fp_plog_of: "codec_ok cd \<Longrightarrow> items_ok its \<Longrightarrow> fp_plog cd (fp_of cd sig its) = items_plog its"
  by (simp add: fp_plog_def fp_IterateImpl_of plog_iterate_all plog_records_numbered numbered_entries)
    (simp add: items_plog_def numbered_entries fp_of_def)

lemma fp_UpdateHeadImpl_of:
  assumes "items_ok its" "items_head its < u" "u \<le> int64_max"
  shows "\<exists>its'. fp_UpdateHeadImpl u (fp_of cd sig its) = Inr (fp_of cd sig its') \<and> items_ok its' \<and>
    items_plog its' = (items_plog its)\<lparr>plog_head := u\<rparr>"
proof (cases "its = [] \<or> \<not> is_head (last its)")
  case True
  have u: "0 \<le> u" using assms items_head_ge [of its] by linarith
  then show ?thesis
    using True assms fp_UpdateHeadImpl_append [OF assms(2) u assms(3) True]
    by (intro exI [of _ "its @ [ItemHead u]"]) (auto simp: items_ok_snoc items_plog_def items_head_def)
next
  case False
  then obtain its0 u0 where its: "its = its0 @ [ItemHead u0]"
    by (metis append_butlast_last_id is_head.elims(2))
  then have u0: "items_head its0 < u0" "0 \<le> u0" "u0 < u" using assms by (auto simp: items_ok_snoc items_head_def)
  then show ?thesis
    using assms fp_UpdateHeadImpl_rewrite [OF u0(3,2) assms(3)] its
    by (intro exI [of _ "its0 @ [ItemHead u]"]) (auto simp: items_ok_snoc items_plog_def items_head_def)
qed

lemma fp_index_range_of:
  "fp_IndexRangeByTimestampRangeImpl from till (fp_of cd sig its) = plog_index_range from till (items_plog its)"
proof -
  have "lower_bound ts from \<le> length ts" "upper_bound ts till \<le> length ts" for ts
    by (simp_all add: lower_bound_def upper_bound_def length_takeWhile_le)
  from this [of "map fst (item_entries its)"] show ?thesis
    by (auto simp: fp_IndexRangeByTimestampRangeImpl_def plog_index_range_def Let_def fp_of_def items_plog_def
        plog_timestamps_def)
qed

subsection \<open>Refinement of the abstract log\<close>

lemma fp_invE:
  assumes "fp_inv cd sig s"
  obtains its where "codec_ok cd" "signature_ok sig" "items_ok its" "s = fp_of cd sig its"
    "fp_plog cd s = items_plog its"
  using assms by (auto simp: fp_inv_def fp_plog_of)

lemma items_plog_inv: "items_ok its \<Longrightarrow> plog_inv (items_plog its)"
  using items_timestamps_sorted [of its] items_head_ge [of its]
  by (simp add: plog_inv_def items_plog_def plog_timestamps_def)

lemma fp_publish_refines:
  assumes "fp_inv cd sig s"
  shows "fp_PublishImpl cd e u s = Inl x \<Longrightarrow> plog_publish e u (fp_plog cd s) = Inl x"
    "fp_PublishImpl cd e u s = Inr (i, s') \<Longrightarrow>
      fp_inv cd sig s' \<and> plog_publish e u (fp_plog cd s) = Inr (i, fp_plog cd s')"
proof -
  obtain its where its: "codec_ok cd" "signature_ok sig" "items_ok its" "s = fp_of cd sig its"
    "fp_plog cd s = items_plog its" by (rule fp_invE [OF assms])
  show "plog_publish e u (fp_plog cd s) = Inl x" if "fp_PublishImpl cd e u s = Inl x"
    using that its(4) unfolding its(5)
    by (auto simp: fp_PublishImpl_of plog_publish_def items_plog_def split: if_splits)
  show "fp_inv cd sig s' \<and> plog_publish e u (fp_plog cd s) = Inr (i, fp_plog cd s')"
    if "fp_PublishImpl cd e u s = Inr (i, s')"
  proof -
    from that its(4) have u: "items_head its < u" and i: "i = \<lparr>idx_index = item_count its, idx_us = u\<rparr>"
      and s': "s' = fp_of cd sig (its @ [ItemEntry u e])"
      by (auto simp: fp_PublishImpl_of split: if_splits)
    have ok: "items_ok (its @ [ItemEntry u e])"
      using its(3) u items_head_ge [OF its(3)] by (simp add: items_ok_snoc)
    then show ?thesis
      using its u i fp_plog_of [OF its(1) ok] unfolding s' its(5)
      by (auto simp: fp_inv_def plog_publish_def items_plog_def items_head_def)
  qed
qed

lemma fp_update_head_refines:
  assumes "fp_inv cd sig s"
  shows "fp_UpdateHeadImpl u s = Inl x \<Longrightarrow> plog_update_head u (fp_plog cd s) = Inl x"
    "u \<le> int64_max \<Longrightarrow> fp_UpdateHeadImpl u s = Inr s' \<Longrightarrow>
      fp_inv cd sig s' \<and> plog_update_head u (fp_plog cd s) = Inr (fp_plog cd s')"
proof -
  obtain its where its: "codec_ok cd" "signature_ok sig" "items_ok its" "s = fp_of cd sig its"
    "fp_plog cd s = items_plog its" by (rule fp_invE [OF assms])
  have head: "fp_head s = items_head its" by (simp add: its(4) fp_of_def)
  show "plog_update_head u (fp_plog cd s) = Inl x" if "fp_UpdateHeadImpl u s = Inl x"
    using that head unfolding its(5)
    by (auto simp: fp_UpdateHeadImpl_def plog_update_head_def items_plog_def Let_def split: if_splits)
  show "fp_inv cd sig s' \<and> plog_update_head u (fp_plog cd s) = Inr (fp_plog cd s')"
    if le: "u \<le> int64_max" and up: "fp_UpdateHeadImpl u s = Inr s'"
  proof -
    have u: "items_head its < u"
      using up head by (auto simp: fp_UpdateHeadImpl_def split: if_splits)
    obtain its' where "s' = fp_of cd sig its'" "items_ok its'" "items_plog its' = (items_plog its)\<lparr>plog_head := u\<rparr>"
      using fp_UpdateHeadImpl_of [OF its(3) u le, of cd sig] up its(4) by auto
    then show ?thesis
      using u its(1,2) fp_plog_of [OF its(1)] unfolding its(5)
      by (auto simp: fp_inv_def plog_update_head_def items_plog_def)
  qed
qed

lemma fp_getters_refine:
  assumes "fp_inv cd sig s"
  shows "plog_inv (fp_plog cd s)" "fp_SizeImpl s = length (plog_entries (fp_plog cd s))"
    "fp_CurrentHeadImpl s = plog_head (fp_plog cd s)"
    "fp_HeadAndLastPublishedIndexAndTimestampImpl s =
      \<lparr>hoi_head = plog_head (fp_plog cd s), hoi_idxts = plog_last (fp_plog cd s)\<rparr>"
    "fp_IndexRangeByTimestampRangeImpl from till s = plog_index_range from till (fp_plog cd s)"
    "fp_IterateImpl cd b e s = plog_iterate b e (fp_plog cd s)"
proof -
  obtain its where its: "codec_ok cd" "signature_ok sig" "items_ok its" "s = fp_of cd sig its"
    "fp_plog cd s = items_plog its" by (rule fp_invE [OF assms])
  show "plog_inv (fp_plog cd s)" unfolding its(5) using its(3) by (rule items_plog_inv)
  show "fp_SizeImpl s = length (plog_entries (fp_plog cd s))" "fp_CurrentHeadImpl s = plog_head (fp_plog cd s)"
    "fp_HeadAndLastPublishedIndexAndTimestampImpl s =
      \<lparr>hoi_head = plog_head (fp_plog cd s), hoi_idxts = plog_last (fp_plog cd s)\<rparr>"
    unfolding its(5) unfolding its(4)
    by (simp_all add: fp_SizeImpl_def fp_CurrentHeadImpl_def fp_HeadAndLastPublishedIndexAndTimestampImpl_def
        fp_of_def items_plog_def plog_last_def items_last_us_def)
  show "fp_IndexRangeByTimestampRangeImpl from till s = plog_index_range from till (fp_plog cd s)"
    unfolding its(5) unfolding its(4) by (rule fp_index_range_of)
  show "fp_IterateImpl cd b e s = plog_iterate b e (fp_plog cd s)"
    unfolding its(5) unfolding its(4) using its(1,3) by (rule fp_IterateImpl_of)
qed

interpretation fp: persister "file_ops cd" "fp_inv cd sig" "fp_plog cd"
  for cd :: "'e codec" and sig :: string
proof
  fix s s' :: file_persister and e :: 'e and u x i
  assume inv: "fp_inv cd sig s"
  show "plog_inv (fp_plog cd s)" by (rule fp_getters_refine(1) [OF inv])
  show "plog_publish e u (fp_plog cd s) = Inl x" if "PersisterPublish (file_ops cd) e u s = Inl x"
    using that fp_publish_refines(1) [OF inv] by (simp add: file_ops_def)
  show "fp_inv cd sig s' \<and> plog_publish e u (fp_plog cd s) = Inr (i, fp_plog cd s')"
    if "PersisterPublish (file_ops cd) e u s = Inr (i, s')"
    using that by (intro fp_publish_refines(2) [OF inv]) (simp add: file_ops_def)
  show "plog_update_head u (fp_plog cd s) = Inl x" if "PersisterUpdateHead (file_ops cd) u s = Inl x"
    using that fp_update_head_refines(1) [OF inv] by (simp add: file_ops_def)
  show "fp_inv cd sig s' \<and> plog_update_head u (fp_plog cd s) = Inr (fp_plog cd s')"
    if "u \<le> int64_max" "PersisterUpdateHead (file_ops cd) u s = Inr s'"
    using that(2) by (intro fp_update_head_refines(2) [OF inv that(1)]) (simp add: file_ops_def)
qed (simp_all add: file_ops_def fp_getters_refine)

lemma fp_inv_reopen:
  assumes "fp_inv cd sig s"
  shows "ValidateFileAndInitializeHead cd sig (fp_file s) = Inr s"
proof -
  obtain its where "codec_ok cd" "signature_ok sig" "items_ok its" "s = fp_of cd sig its"
    by (rule fp_invE [OF assms])
  then show ?thesis using fp_reopen [of cd sig its] by (simp add: fp_of_def)
qed

lemma fp_inv_open_empty:
  "codec_ok cd \<Longrightarrow> signature_ok sig \<Longrightarrow>
   \<exists>s. ValidateFileAndInitializeHead cd sig [] = Inr s \<and> fp_inv cd sig s \<and> fp_plog cd s = plog_empty"
  by (auto simp: fp_open_empty fp_inv_def fp_plog_of items_ok_empty intro!: exI [of _ "[]"])
    (simp add: items_plog_def plog_empty_def items_head_def)

end
