(* ===== verification/Storage.thy ===== *)
theory Storage
  imports StorageFields StoragePersister MemoryPersister FilePersister
begin

text \<open>
  \<^verbatim>\<open>StorageImpl\<close> of \<^verbatim>\<open>src/storage/storage.h\<close>: the fields, the persister over a stream and the transaction
  policy put together.  A transaction holds the publishing mutex of the stream throughout, so a
  transaction is one step of the storage.

  The contracts of the fields and of the stream persister are discharged here for the in-memory and
  for the file-backed stream, which gives atomicity, and durability across a restart from the file.
\<close>

type_synonym ('k, 't, 'p, 'w) storage =
  "(('k, 't, 'p) mutation, ('k, 't) fields, 'w storage_persister) policy"

type_synonym ('k, 't, 'p, 'r) storage_tx = "(('k, 't) fields, nat \<times> ('k, 't, 'p) field_op, 'r) tx_body"

type_synonym ('k, 't, 'p, 'x) storage_entry = "(('k, 't, 'p) mutation, 'x) stream_entry"

definition storage_of ::
  "clock \<Rightarrow> ('k, 't) fields \<times> 'w storage_persister \<Rightarrow> ('k, 't, 'p, 'w) storage" where
  "storage_of k st =
     \<lparr>pol_ctx = \<lparr>clock = k, journal = empty_journal, this = fst st\<rparr>, pol_persister = snd st,
      pol_destructing = False\<rparr>"

definition CreateMasterStorageAtopExistingStream ::
  "('w, ('k, 't, 'p, 'x) storage_entry) persister_ops \<Rightarrow> ('k, 't, 'p) schema \<Rightarrow> clock \<Rightarrow> 'w stream_state \<Rightarrow>
   (ss_exception + ('k, 't, 'p, 'w) storage) option" where
  "CreateMasterStorageAtopExistingStream ops schema k stream =
     map_option (map_sum id (storage_of k)) (construct_master ops (fields_apply schema) (fields_init schema) stream)"

definition CreateFollowingStorageAtopExistingStream ::
  "('k, 't, 'p) schema \<Rightarrow> clock \<Rightarrow> 'w stream_state \<Rightarrow> ('k, 't, 'p, 'w) storage" where
  "CreateFollowingStorageAtopExistingStream schema k stream =
     storage_of k (construct_following (fields_init schema) stream)"

definition IsMasterStorage :: "('k, 't, 'p, 'w) storage \<Rightarrow> bool" where
  "IsMasterStorage st \<longleftrightarrow> IsMasterStoragePersister (pol_persister st)"

definition LastAppliedTimestamp :: "('k, 't, 'p, 'w) storage \<Rightarrow> microseconds" where
  "LastAppliedTimestamp st = sp_last_applied_timestamp (pol_persister st)"

definition ReadWriteTransaction ::
  "('w, ('k, 't, 'p, 'x) storage_entry) persister_ops \<Rightarrow> ('k, 't, 'p) schema \<Rightarrow> ('k, 't, 'p, 'r) storage_tx \<Rightarrow>
   ('k, 't, 'p, 'w) storage \<Rightarrow>
   string + (('r, 'r) promise, 'r, ('k, 't, 'p, 'w) storage) completion option" where
  "ReadWriteTransaction ops schema f st =
     (if \<not> IsMasterStorage st then Inl ''ReadWriteTransactionInFollowerStorageException''
      else Inr (TransactionRW (fields_run schema) (PersistJournalFromLockedSection ops) f st))"

definition ReadWriteTransactionTwoStep ::
  "('w, ('k, 't, 'p, 'x) storage_entry) persister_ops \<Rightarrow> ('k, 't, 'p) schema \<Rightarrow> ('k, 't, 'p, 'r) storage_tx \<Rightarrow>
   ('r \<Rightarrow> 'r storage_exception option) \<Rightarrow> ('k, 't, 'p, 'w) storage \<Rightarrow>
   string + ((unit, 'r) promise \<times> 'r list, 'r, ('k, 't, 'p, 'w) storage) completion option" where
  "ReadWriteTransactionTwoStep ops schema f1 f2 st =
     (if \<not> IsMasterStorage st then Inl ''ReadWriteTransactionInFollowerStorageException''
      else Inr (TransactionRWTwoStep (fields_run schema) (PersistJournalFromLockedSection ops) f1 f2 st))"

definition ReadOnlyTransaction ::
  "('k, 't, 'p) schema \<Rightarrow> ('k, 't, 'p, 'r) storage_tx \<Rightarrow> ('k, 't, 'p, 'w) storage \<Rightarrow>
   (('r, 'r) promise, 'r, ('k, 't, 'p, 'w) storage) completion option" where
  "ReadOnlyTransaction schema f st = TransactionRO (fields_run schema) f st"

definition ReadOnlyTransactionTwoStep ::
  "('k, 't, 'p) schema \<Rightarrow> ('k, 't, 'p, 'r) storage_tx \<Rightarrow> ('r \<Rightarrow> 'r storage_exception option) \<Rightarrow>
   ('k, 't, 'p, 'w) storage \<Rightarrow>
   ((unit, 'r) promise \<times> 'r list, 'r, ('k, 't, 'p, 'w) storage) completion option" where
  "ReadOnlyTransactionTwoStep schema f1 f2 st = TransactionROTwoStep (fields_run schema) f1 f2 st"

definition FlipToMaster ::
  "('w, ('k, 't, 'p, 'x) storage_entry) persister_ops \<Rightarrow> ('k, 't, 'p) schema \<Rightarrow> ('k, 't, 'p, 'w) storage \<Rightarrow>
   (string + ss_exception + ('k, 't, 'p, 'w) storage) option" where
  "FlipToMaster ops schema st =
     map_option (map_sum id (map_sum id (\<lambda>(fs, sp).
         st\<lparr>pol_ctx := (pol_ctx st)\<lparr>this := fs\<rparr>, pol_persister := sp\<rparr>)))
       (BecomeMasterStorage ops (fields_apply schema) (this (pol_ctx st), pol_persister st))"

definition GracefulShutdownStorage :: "('k, 't, 'p, 'w) storage \<Rightarrow> ('k, 't, 'p, 'w) storage" where
  "GracefulShutdownStorage st = GracefulShutdown st"

text \<open>A history: read-write transactions one after another; \<^const>\<open>None\<close> if one of them does not complete.\<close>

primrec run_transactions ::
  "('w, ('k, 't, 'p, 'x) storage_entry) persister_ops \<Rightarrow> ('k, 't, 'p) schema \<Rightarrow> ('k, 't, 'p, 'r) storage_tx list \<Rightarrow>
   ('k, 't, 'p, 'w) storage \<Rightarrow> ('k, 't, 'p, 'w) storage option" where
  "run_transactions ops schema [] st = Some st"
| "run_transactions ops schema (f # fs) st =
     (case ReadWriteTransaction ops schema f st of
        Inr (Some (Completed p st')) \<Rightarrow> run_transactions ops schema fs st'
      | _ \<Rightarrow> None)"

subsection \<open>The contracts, put together\<close>

abbreviation storage_fields :: "('k, 't, 'p, 'w) storage \<Rightarrow> ('k, 't) fields" where
  "storage_fields st \<equiv> this (pol_ctx st)"

abbreviation storage_log :: "('k, 't, 'p, 'w) storage \<Rightarrow> 'w" where
  "storage_log st \<equiv> str_persister (sp_stream (pol_persister st))"

definition storage_consistent ::
  "('w \<Rightarrow> bool) \<Rightarrow> ('w \<Rightarrow> ('k, 't, 'p, 'x) storage_entry plog) \<Rightarrow> ('k, 't, 'p) schema \<Rightarrow>
   ('k, 't, 'p, 'w) storage \<Rightarrow> bool" where
  "storage_consistent invar absl schema =
     tx_consistent (fields_inv schema) fields_view (fields_apply schema) (master_inv invar) (master_txs absl)
       (master_head absl) (fields_init schema)"

locale storage_system = storage_stream ops invar absl
  for ops :: "('w, ('k, 't, 'p, 'x) storage_entry) persister_ops"
    and invar :: "'w \<Rightarrow> bool" and absl :: "'w \<Rightarrow> ('k, 't, 'p, 'x) storage_entry plog" +
  fixes schema :: "('k, 't, 'p) schema"

sublocale storage_system \<subseteq> tx: transactional "fields_inv schema" fields_view "fields_apply schema" mutation_us
  "fields_run schema" "fields_valid schema" "PersistJournalFromLockedSection ops"
  "master_inv invar" "master_txs absl" "master_head absl"
  by unfold_locales

context storage_system
begin

lemma consistent_master: "storage_consistent invar absl schema st \<Longrightarrow> IsMasterStorage st"
  by (simp add: storage_consistent_def tx_consistent_def master_inv_def IsMasterStorage_def IsMasterStoragePersister_def)

lemma create_master:
  assumes "invar (str_persister stream)" "str_borrowed stream = 0"
  obtains fs sp where
    "CreateMasterStorageAtopExistingStream ops schema k stream = Some (Inr (storage_of k (fs, sp)))"
    "master_inv invar sp" "absl (str_persister (sp_stream sp)) = absl (str_persister stream)"
    "fs = replay (fields_apply schema) (log_transactions (absl (str_persister stream))) (fields_init schema)"
  using construct_master_ok [OF assms, of "fields_apply schema" "fields_init schema"]
  by (auto simp: CreateMasterStorageAtopExistingStream_def)

lemma create_on_empty:
  assumes "invar (str_persister stream)" "str_borrowed stream = 0"
    "absl (str_persister stream) = plog_empty" "-1 \<le> monotonic_now_us k"
  shows "\<exists>st. CreateMasterStorageAtopExistingStream ops schema k stream = Some (Inr st) \<and>
    storage_consistent invar absl schema st"
proof -
  obtain fs sp where st:
    "CreateMasterStorageAtopExistingStream ops schema k stream = Some (Inr (storage_of k (fs, sp)))"
    "master_inv invar sp" "absl (str_persister (sp_stream sp)) = plog_empty"
    "fs = replay (fields_apply schema) (log_transactions (plog_empty :: ('k, 't, 'p, 'x) storage_entry plog)) (fields_init schema)"
    using create_master [OF assms(1,2), of k] assms(3) by metis
  have none: "log_transactions (plog_empty :: ('k, 't, 'p, 'x) storage_entry plog) = []"
    by (simp add: log_transactions_def plog_empty_def)
  have head: "plog_head (plog_empty :: ('k, 't, 'p, 'x) storage_entry plog) = -1" by (simp add: plog_empty_def)
  have fs: "fs = fields_init schema" using st(4) by (simp add: none replay_def)
  have "storage_consistent invar absl schema (storage_of k (fs, sp))"
    unfolding storage_consistent_def tx_consistent_def
    using st(2) assms(4) fields_inv_init [of schema]
    by (simp add: storage_of_def master_txs_def master_head_def st(3) none head fs replay_def)
  with st(1) show ?thesis by blast
qed

lemma read_write_atomic:
  assumes "storage_consistent invar absl schema st" "tx_valid (fields_valid schema) f"
  shows "\<exists>p st'. ReadWriteTransaction ops schema f st = Inr (Some (Completed p st')) \<and>
    storage_consistent invar absl schema st' \<and>
    ((\<exists>r. p = PromiseValue (Committed r)) \<and>
       (\<exists>ts. length ts \<le> 1 \<and> master_txs absl (pol_persister st') = master_txs absl (pol_persister st) @ ts) \<or>
     fields_view (storage_fields st') = fields_view (storage_fields st) \<and> pol_persister st' = pol_persister st)"
  using tx.atomic_RW [OF assms(1) [unfolded storage_consistent_def] assms(2)] consistent_master [OF assms(1)]
  by (simp add: ReadWriteTransaction_def storage_consistent_def tx_unchanged_def) blast

lemma run_transactions_ok:
  assumes "storage_consistent invar absl schema st" "\<forall>f \<in> set fs. tx_valid (fields_valid schema) f"
  shows "\<exists>st'. run_transactions ops schema fs st = Some st' \<and> storage_consistent invar absl schema st'"
  using assms
proof (induction fs arbitrary: st)
  case (Cons f fs)
  then obtain p st1 where "ReadWriteTransaction ops schema f st = Inr (Some (Completed p st1))"
    "storage_consistent invar absl schema st1"
    using read_write_atomic [OF Cons.prems(1), of f] by auto
  with Cons show ?case by simp
qed simp

text \<open>A consistent storage and a new one atop the same log hold the same.\<close>

lemma recreate_same:
  assumes "storage_consistent invar absl schema st" "invar (str_persister stream)" "str_borrowed stream = 0"
    "absl (str_persister stream) = absl (storage_log st)"
  shows "\<exists>st'. CreateMasterStorageAtopExistingStream ops schema k stream = Some (Inr st') \<and>
    fields_view (storage_fields st') = fields_view (storage_fields st)"
proof -
  obtain fs sp where
    "CreateMasterStorageAtopExistingStream ops schema k stream = Some (Inr (storage_of k (fs, sp)))"
    "fs = replay (fields_apply schema) (log_transactions (absl (str_persister stream))) (fields_init schema)"
    by (rule create_master [OF assms(2,3)])
  moreover have "fields_view (replay (fields_apply schema) (master_txs absl (pol_persister st)) (fields_init schema)) =
      fields_view (storage_fields st)"
    using assms(1) fields_inv_init [of schema] by (simp add: storage_consistent_def tx_consistent_def)
  ultimately show ?thesis by (simp add: storage_of_def master_txs_def assms(4))
qed

end

interpretation mem_stream: subscribable memory_ops mem_inv mem_plog
  by unfold_locales

interpretation file_stream: subscribable "file_ops cd" "fp_inv cd sig" "fp_plog cd"
  for cd :: "'e codec" and sig :: string
  by unfold_locales

interpretation mem_storage: storage_system memory_ops mem_inv mem_plog schema
  for schema :: "('k, 't, 'p) schema"
  by unfold_locales

interpretation file_storage: storage_system "file_ops cd" "fp_inv cd sig" "fp_plog cd" schema
  for cd :: "('k, 't, 'p, 'x) storage_entry codec" and sig :: string and schema :: "('k, 't, 'p) schema"
  by unfold_locales

subsection \<open>Durability\<close>

text \<open>A storage started on a new file, and started again from the file that is left.\<close>

definition start_from_file ::
  "('k, 't, 'p, 'x) storage_entry codec \<Rightarrow> string \<Rightarrow> ('k, 't, 'p) schema \<Rightarrow> clock \<Rightarrow> string \<Rightarrow>
   ('k, 't, 'p, file_persister) storage option" where
  "start_from_file cd sig schema k contents =
     (case ValidateFileAndInitializeHead cd sig contents of
        Inl x \<Rightarrow> None
      | Inr fp \<Rightarrow>
          (case CreateMasterStorageAtopExistingStream (file_ops cd) schema k (CreateStream fp) of
             Some (Inr st) \<Rightarrow> Some st
           | _ \<Rightarrow> None))"

definition storage_file :: "('k, 't, 'p, file_persister) storage \<Rightarrow> string" where
  "storage_file st = fp_file (storage_log st)"

lemma start_from_new_file:
  assumes "codec_ok cd" "signature_ok sig" "-1 \<le> monotonic_now_us k"
  shows "\<exists>st. start_from_file cd sig schema k [] = Some st \<and>
    storage_consistent (fp_inv cd sig) (fp_plog cd) schema st"
proof -
  obtain fp where fp: "ValidateFileAndInitializeHead cd sig [] = Inr fp" "fp_inv cd sig fp" "fp_plog cd fp = plog_empty"
    using fp_inv_open_empty [OF assms(1,2)] by blast
  then show ?thesis
    using file_storage.create_on_empty [of cd sig "CreateStream fp" k schema] assms(3)
    by (auto simp: start_from_file_def CreateStream_def)
qed

lemma restart_same:
  assumes "storage_consistent (fp_inv cd sig) (fp_plog cd) schema st"
  shows "\<exists>st'. start_from_file cd sig schema k (storage_file st) = Some st' \<and>
    fields_view (storage_fields st') = fields_view (storage_fields st)"
proof -
  have inv: "fp_inv cd sig (storage_log st)"
    using assms by (simp add: storage_consistent_def tx_consistent_def master_inv_def)
  note reopen = fp_inv_reopen [OF inv]
  from file_storage.recreate_same [OF assms, of "CreateStream (storage_log st)" k] inv
  show ?thesis by (auto simp: start_from_file_def storage_file_def reopen CreateStream_def)
qed

subsection \<open>A follower\<close>

text \<open>A following storage whose subscription has passed it the first \<open>n\<close> records of its stream.\<close>

definition follow :: "('k, 't, 'p) schema \<Rightarrow> clock \<Rightarrow> ('k, 't, 'p, 'x) storage_entry memory stream_state \<Rightarrow> nat \<Rightarrow>
  ('k, 't, 'p, ('k, 't, 'p, 'x) storage_entry memory) storage" where
  "follow schema k stream n =
     storage_of k (fold (subscriber_record (fields_apply schema)) (take n (plog_records (mem_plog (str_persister stream))))
       (construct_following (fields_init schema) stream))"

lemma fields_run_meta: "fields_run schema op c = Some c' \<Longrightarrow> meta (journal c') = meta (journal c)"
  by (cases op) (auto simp: fields_run_def run_part_def split: bind_splits)

end
