(* ===== verification/EntryCodec.thy ===== *)
theory EntryCodec
  imports Storage
begin

text \<open>
  A concrete serialization of the entries of a storage stream, with a concrete schema: what the
  file-backed storage is instantiated with.  The C++ code gets both from the user's declarations;
  here entries are printed as decimal numbers, each followed by a comma, in a prefix code.
\<close>

subsection \<open>Prefix codes\<close>

type_synonym 'a parser = "nat list \<Rightarrow> ('a \<times> nat list) option"

definition prefix_code :: "('a \<Rightarrow> nat list) \<Rightarrow> 'a parser \<Rightarrow> bool" where
  "prefix_code pr pa \<longleftrightarrow> (\<forall>a rest. pa (pr a @ rest) = Some (a, rest))"

lemma prefix_codeD: "prefix_code pr pa \<Longrightarrow> pa (pr a @ rest) = Some (a, rest)"
  by (simp add: prefix_code_def)

definition print_nat :: "nat \<Rightarrow> nat list" where "print_nat n = [n]"

fun parse_nat :: "nat parser" where
  "parse_nat [] = None"
| "parse_nat (n # rest) = Some (n, rest)"

definition print_int :: "int \<Rightarrow> nat list" where
  "print_int i = [if i < 0 then 1 else 0, nat \<bar>i\<bar>]"

fun parse_int :: "int parser" where
  "parse_int (s # n # rest) = Some (if s = 0 then int n else - int n, rest)"
| "parse_int _ = None"

definition print_pair :: "('a \<Rightarrow> nat list) \<Rightarrow> ('b \<Rightarrow> nat list) \<Rightarrow> 'a \<times> 'b \<Rightarrow> nat list" where
  "print_pair pr1 pr2 p = pr1 (fst p) @ pr2 (snd p)"

definition parse_pair :: "'a parser \<Rightarrow> 'b parser \<Rightarrow> ('a \<times> 'b) parser" where
  "parse_pair pa1 pa2 xs = do { (a, xs) \<leftarrow> pa1 xs; (b, xs) \<leftarrow> pa2 xs; Some ((a, b), xs) }"

definition print_list :: "('a \<Rightarrow> nat list) \<Rightarrow> 'a list \<Rightarrow> nat list" where
  "print_list pr xs = length xs # concat (map pr xs)"

fun parse_n :: "'a parser \<Rightarrow> nat \<Rightarrow> 'a list parser" where
  "parse_n pa 0 xs = Some ([], xs)"
| "parse_n pa (Suc n) xs = do { (a, xs) \<leftarrow> pa xs; (as, xs) \<leftarrow> parse_n pa n xs; Some (a # as, xs) }"

definition parse_list :: "'a parser \<Rightarrow> 'a list parser" where
  "parse_list pa xs = do { (n, xs) \<leftarrow> parse_nat xs; parse_n pa n xs }"

definition print_sum :: "('a \<Rightarrow> nat list) \<Rightarrow> ('b \<Rightarrow> nat list) \<Rightarrow> 'a + 'b \<Rightarrow> nat list" where
  "print_sum pr1 pr2 x = (case x of Inl a \<Rightarrow> 0 # pr1 a | Inr b \<Rightarrow> 1 # pr2 b)"

fun parse_sum :: "'a parser \<Rightarrow> 'b parser \<Rightarrow> ('a + 'b) parser" where
  "parse_sum pa1 pa2 [] = None"
| "parse_sum pa1 pa2 (t # xs) =
     (if t = 0 then map_option (map_prod Inl id) (pa1 xs) else map_option (map_prod Inr id) (pa2 xs))"

text \<open>A code for \<open>'b\<close> from a code for \<open>'a\<close>, through a representation.\<close>

definition parse_as :: "('a \<Rightarrow> 'b) \<Rightarrow> 'a parser \<Rightarrow> 'b parser" where
  "parse_as mk pa xs = map_option (map_prod mk id) (pa xs)"

named_theorems codes \<open>prefix codes\<close>

lemma code_nat [codes]: "prefix_code print_nat parse_nat"
  by (simp add: prefix_code_def print_nat_def)

lemma code_int [codes]: "prefix_code print_int parse_int"
  by (simp add: prefix_code_def print_int_def)

lemma code_pair [codes]:
  "prefix_code pr1 pa1 \<Longrightarrow> prefix_code pr2 pa2 \<Longrightarrow> prefix_code (print_pair pr1 pr2) (parse_pair pa1 pa2)"
  by (simp add: prefix_code_def print_pair_def parse_pair_def)

lemma parse_n_concat: "prefix_code pr pa \<Longrightarrow> parse_n pa (length as) (concat (map pr as) @ rest) = Some (as, rest)"
  by (induction "as") (simp_all add: prefix_codeD)

lemma code_list [codes]: "prefix_code pr pa \<Longrightarrow> prefix_code (print_list pr) (parse_list pa)"
  unfolding prefix_code_def [of "print_list pr"] by (simp add: print_list_def parse_list_def parse_n_concat)

lemma code_sum [codes]:
  "prefix_code pr1 pa1 \<Longrightarrow> prefix_code pr2 pa2 \<Longrightarrow> prefix_code (print_sum pr1 pr2) (parse_sum pa1 pa2)"
  by (auto simp: prefix_code_def print_sum_def split: sum.split)

lemma code_as:
  "prefix_code pr pa \<Longrightarrow> (\<And>b. mk (un b) = b) \<Longrightarrow> prefix_code (\<lambda>b. pr (un b)) (parse_as mk pa)"
  by (simp add: prefix_code_def parse_as_def)

subsection \<open>Text\<close>

definition text_of :: "nat list \<Rightarrow> string" where
  "text_of ns = concat (map (\<lambda>n. to_string_nat n @ '','') ns)"

function tokens :: "string \<Rightarrow> nat list" where
  "tokens s =
     (if CHR '','' \<in> set s
      then digits_value (takeWhile (\<lambda>c. c \<noteq> CHR '','') s) # tokens (tl (dropWhile (\<lambda>c. c \<noteq> CHR '','') s))
      else [])"
  by auto

termination
proof (relation "measure length")
  fix s :: string
  assume "CHR '','' \<in> set s"
  then have "dropWhile (\<lambda>c. c \<noteq> CHR '','') s \<noteq> []" by (auto simp: dropWhile_eq_Nil_conv)
  then have "length (tl (dropWhile (\<lambda>c. c \<noteq> CHR '','') s)) < length (dropWhile (\<lambda>c. c \<noteq> CHR '','') s)"
    by simp
  also have "\<dots> \<le> length s" by (rule length_dropWhile_le)
  finally show "(tl (dropWhile (\<lambda>c. c \<noteq> CHR '','') s), s) \<in> measure length" by simp
qed simp

declare tokens.simps [simp del]

lemma to_string_nat_plain: "c \<in> set (to_string_nat n) \<Longrightarrow> isdigit c"
  using to_string_nat_digits by blast

lemma isdigit_simps [simp]:
  "\<not> isdigit (CHR '','')" "\<not> isdigit newline" "\<not> isdigit tab" "\<not> isdigit (CHR 0x00)" "\<not> isdigit (CHR ''}'')"
  by (simp_all add: isdigit_def)

lemma tokens_step:
  assumes "CHR '','' \<notin> set a"
  shows "tokens (a @ CHR '','' # s) = digits_value a # tokens s"
proof -
  have "takeWhile (\<lambda>c. c \<noteq> CHR '','') (a @ CHR '','' # s) = a"
    "dropWhile (\<lambda>c. c \<noteq> CHR '','') (a @ CHR '','' # s) = CHR '','' # s"
    using assms by (induction a) auto
  then show ?thesis by (subst tokens.simps) simp
qed

lemma tokens_text: "tokens (text_of ns @ ''}'') = ns" "tokens (text_of ns) = ns"
proof -
  have step: "tokens (text_of (n # ns) @ r) = n # tokens (text_of ns @ r)" for n ns r
    using tokens_step [of "to_string_nat n" "text_of ns @ r"] to_string_nat_plain
    by (fastforce simp: text_of_def)
  have nil: "text_of [] = []" by (simp add: text_of_def)
  show "tokens (text_of ns @ ''}'') = ns"
    by (induction ns) (simp_all add: step nil, simp add: tokens.simps)
  show "tokens (text_of ns) = ns"
    using step [of _ _ "[]"] by (induction ns) (simp_all add: nil tokens.simps)
qed

lemma text_plain: "c \<in> set (text_of ns) \<Longrightarrow> isdigit c \<or> c = CHR '',''"
  by (induction ns) (auto simp: text_of_def dest: to_string_nat_plain)

subsection \<open>Codes for the entries of a storage\<close>

text \<open>Entries are (row or key, column, payload); a patch replaces the payload.\<close>

type_synonym entry = "int \<times> int \<times> int"

fun un_dict_event :: "('k, 't, 'p) dict_event \<Rightarrow> (int \<times> 't) + (int \<times> 'k) + (int \<times> 'k \<times> 'p)" where
  "un_dict_event (DictUpdated us data) = Inl (us, data)"
| "un_dict_event (DictDeleted us key) = Inr (Inl (us, key))"
| "un_dict_event (DictPatched us key patch) = Inr (Inr (us, key, patch))"

fun mk_dict_event :: "(int \<times> 't) + (int \<times> 'k) + (int \<times> 'k \<times> 'p) \<Rightarrow> ('k, 't, 'p) dict_event" where
  "mk_dict_event (Inl (us, data)) = DictUpdated us data"
| "mk_dict_event (Inr (Inl (us, key))) = DictDeleted us key"
| "mk_dict_event (Inr (Inr (us, key, patch))) = DictPatched us key patch"

fun un_matrix_event :: "('r, 'c, 't) matrix_event \<Rightarrow> (int \<times> 't) + (int \<times> 'r \<times> 'c)" where
  "un_matrix_event (MatrixUpdated us data) = Inl (us, data)"
| "un_matrix_event (MatrixDeleted us key) = Inr (us, key)"

fun mk_matrix_event :: "(int \<times> 't) + (int \<times> 'r \<times> 'c) \<Rightarrow> ('r, 'c, 't) matrix_event" where
  "mk_matrix_event (Inl (us, data)) = MatrixUpdated us data"
| "mk_matrix_event (Inr (us, key)) = MatrixDeleted us key"

fun un_field_event :: "('k, 't, 'p) field_event \<Rightarrow> ('k, 't, 'p) dict_event + ('k, 'k, 't) matrix_event" where
  "un_field_event (DictEvent e) = Inl e"
| "un_field_event (MatrixEvent e) = Inr e"

fun mk_field_event :: "('k, 't, 'p) dict_event + ('k, 'k, 't) matrix_event \<Rightarrow> ('k, 't, 'p) field_event" where
  "mk_field_event (Inl e) = DictEvent e"
| "mk_field_event (Inr e) = MatrixEvent e"

type_synonym 'ev transaction_tuple = "(int \<times> int \<times> (string \<times> string) list) \<times> 'ev list"

fun un_stream_entry :: "('ev, 'x) stream_entry \<Rightarrow> 'ev transaction_tuple + 'x" where
  "un_stream_entry (TransactionEntry t) =
     Inl ((begin_us (tx_meta t), end_us (tx_meta t), meta_fields (tx_meta t)), tx_mutations t)"
| "un_stream_entry (OtherEntry x) = Inr x"

fun mk_stream_entry :: "'ev transaction_tuple + 'x \<Rightarrow> ('ev, 'x) stream_entry" where
  "mk_stream_entry (Inl ((b, e, fs), ms)) =
     TransactionEntry \<lparr>tx_meta = \<lparr>begin_us = b, end_us = e, meta_fields = fs\<rparr>, tx_mutations = ms\<rparr>"
| "mk_stream_entry (Inr x) = OtherEntry x"

lemma mk_un_dict_event: "mk_dict_event (un_dict_event e) = e"
  by (cases e) simp_all

lemma mk_un_matrix_event: "mk_matrix_event (un_matrix_event e) = e"
  by (cases e) simp_all

lemma mk_un_field_event: "mk_field_event (un_field_event e) = e"
  by (cases e) simp_all

lemma mk_un_stream_entry: "mk_stream_entry (un_stream_entry e) = e"
  by (cases e) simp_all

definition print_string :: "string \<Rightarrow> nat list" where
  "print_string s = print_list print_nat (map of_char s)"

definition parse_string :: "string parser" where
  "parse_string = parse_as (map char_of) (parse_list parse_nat)"

lemma code_string [codes]: "prefix_code print_string parse_string"
  unfolding print_string_def parse_string_def
  by (rule code_as [OF code_list [OF code_nat], of "map char_of" "map of_char"]) (simp add: comp_def)

definition print_entry :: "entry \<Rightarrow> nat list" where
  "print_entry = print_pair print_int (print_pair print_int print_int)"

definition parse_entry :: "entry parser" where
  "parse_entry = parse_pair parse_int (parse_pair parse_int parse_int)"

lemma code_entry [codes]: "prefix_code print_entry parse_entry"
  unfolding print_entry_def parse_entry_def by (intro codes)

definition print_dict_event :: "(int, entry, int) dict_event \<Rightarrow> nat list" where
  "print_dict_event e =
     print_sum (print_pair print_int print_entry)
       (print_sum (print_pair print_int print_int) (print_pair print_int (print_pair print_int print_int)))
       (un_dict_event e)"

definition parse_dict_event :: "(int, entry, int) dict_event parser" where
  "parse_dict_event = parse_as mk_dict_event
     (parse_sum (parse_pair parse_int parse_entry)
       (parse_sum (parse_pair parse_int parse_int) (parse_pair parse_int (parse_pair parse_int parse_int))))"

definition print_matrix_event :: "(int, int, entry) matrix_event \<Rightarrow> nat list" where
  "print_matrix_event e =
     print_sum (print_pair print_int print_entry) (print_pair print_int (print_pair print_int print_int))
       (un_matrix_event e)"

definition parse_matrix_event :: "(int, int, entry) matrix_event parser" where
  "parse_matrix_event = parse_as mk_matrix_event
     (parse_sum (parse_pair parse_int parse_entry) (parse_pair parse_int (parse_pair parse_int parse_int)))"

definition print_field_event :: "(int, entry, int) field_event \<Rightarrow> nat list" where
  "print_field_event e = print_sum print_dict_event print_matrix_event (un_field_event e)"

definition parse_field_event :: "(int, entry, int) field_event parser" where
  "parse_field_event = parse_as mk_field_event (parse_sum parse_dict_event parse_matrix_event)"

definition print_stream_entry :: "(int, entry, int, nat) storage_entry \<Rightarrow> nat list" where
  "print_stream_entry e =
     print_sum
       (print_pair (print_pair print_int (print_pair print_int (print_list (print_pair print_string print_string))))
         (print_list (print_pair print_nat print_field_event)))
       print_nat (un_stream_entry e)"

definition parse_stream_entry :: "(int, entry, int, nat) storage_entry parser" where
  "parse_stream_entry = parse_as mk_stream_entry
     (parse_sum
       (parse_pair (parse_pair parse_int (parse_pair parse_int (parse_list (parse_pair parse_string parse_string))))
         (parse_list (parse_pair parse_nat parse_field_event)))
       parse_nat)"

lemma code_dict_event [codes]: "prefix_code print_dict_event parse_dict_event"
  unfolding print_dict_event_def parse_dict_event_def
  by (rule code_as [where un = un_dict_event, OF _ mk_un_dict_event]) (intro codes)

lemma code_matrix_event [codes]: "prefix_code print_matrix_event parse_matrix_event"
  unfolding print_matrix_event_def parse_matrix_event_def
  by (rule code_as [where un = un_matrix_event, OF _ mk_un_matrix_event]) (intro codes)

lemma code_field_event [codes]: "prefix_code print_field_event parse_field_event"
  unfolding print_field_event_def parse_field_event_def
  by (rule code_as [where un = un_field_event, OF _ mk_un_field_event]) (intro codes)

lemma code_stream_entry [codes]: "prefix_code print_stream_entry parse_stream_entry"
  unfolding print_stream_entry_def parse_stream_entry_def
  by (rule code_as [where un = un_stream_entry, OF _ mk_un_stream_entry]) (intro codes)

definition whole :: "'a parser \<Rightarrow> string \<Rightarrow> 'a option" where
  "whole pa s = (case pa (tokens s) of Some (a, []) \<Rightarrow> Some a | _ \<Rightarrow> None)"

lemma whole_text:
  assumes "prefix_code pr pa"
  shows "whole pa (text_of (pr a)) = Some a" "whole pa (text_of (pr a) @ ''}'') = Some a"
  using prefix_codeD [OF assms, of a "[]"] by (simp_all add: whole_def tokens_text)

definition code_codec :: "('e \<Rightarrow> nat list) \<Rightarrow> 'e parser \<Rightarrow> 'e codec" where
  "code_codec pr pa =
     \<lparr>JSON_idxts = \<lambda>i. ''{'' @ text_of (print_pair print_nat print_int (idx_index i, idx_us i)) @ ''}'',
      ParseJSON_idxts = \<lambda>s. map_option (\<lambda>(n, u). \<lparr>idx_index = n, idx_us = u\<rparr>)
        (whole (parse_pair parse_nat parse_int) (tl s)),
      JSON_entry = \<lambda>e. text_of (pr e),
      ParseJSON_entry = whole pa\<rparr>"

lemma text_free:
  "newline \<notin> set (text_of ns)" "tab \<notin> set (text_of ns)" "CHR 0x00 \<notin> set (text_of ns)"
  using text_plain [of newline ns] text_plain [of tab ns] text_plain [of "CHR 0x00" ns] by auto

lemma code_codec_ok: "prefix_code pr pa \<Longrightarrow> codec_ok (code_codec pr pa)"
  by (simp add: codec_ok_def code_codec_def whole_text code_pair code_nat code_int text_free)

definition storage_codec :: "(int, entry, int, nat) storage_entry codec" where
  "storage_codec = code_codec print_stream_entry parse_stream_entry"

lemma storage_codec_ok: "codec_ok storage_codec"
  by (simp add: storage_codec_def code_codec_ok code_stream_entry)

subsection \<open>A schema with a field of each kind\<close>

definition entry_of_kind :: "container_kind \<Rightarrow> (int, entry, int) entry_type" where
  "entry_of_kind kind =
     \<lparr>et_kind = kind, et_GetKey = fst, et_GetRow = fst, et_GetCol = \<lambda>(r, c, v). c,
      et_PatchWith = \<lambda>p (r, c, v). (r, c, p)\<rparr>"

definition four_fields :: "(int, entry, int) schema" where
  "four_fields = map entry_of_kind [KDictionary, KOneToOne, KOneToMany, KManyToMany]"

definition clock_at_zero :: clock where
  "clock_at_zero = \<lparr>monotonic_now_us = 0, readings = int, ticks = 0\<rparr>"

text \<open>Two transactions over it: one commits, one changes two fields and throws.\<close>

definition tx_commits :: "(int, entry, int, int) storage_tx" where
  "tx_commits =
     TxRun (0, DictOp (DictAdd (1, 0, 10))) (TxRun (1, O2OOp (O2OAdd (1, 2, 20)))
       (TxRun (0, DictOp (DictPatch 1 11)) (TxReturn 7)))"

definition tx_throws :: "(int, entry, int, int) storage_tx" where
  "tx_throws =
     TxRun (2, O2MOp (O2MAdd (1, 2, 30))) (TxRun (0, DictOp (DictErase 1))
       (TxThrow StorageRollbackExceptionWithNoValue))"

lemma four_fields_valid:
  "tx_valid (fields_valid four_fields) tx_commits" "tx_valid (fields_valid four_fields) tx_throws"
  by (auto simp: tx_commits_def tx_throws_def fields_valid_def four_fields_def entry_of_kind_def)

text \<open>A master storage over an empty stream in memory, and a transaction with one mutation.\<close>

definition example_master :: "(int, entry, int, (int, entry, int, nat) storage_entry memory) storage" where
  "example_master = storage_of clock_at_zero (fields_init four_fields,
     \<lparr>sp_stream = (CreateStream mem_empty)\<lparr>str_generation := 1, str_borrowable := False, str_borrowed := 1\<rparr>,
      sp_publisher_used = Some 1, sp_last_applied_timestamp = -1, sp_subscribed = False, sp_next_replay_index = 0\<rparr>)"

definition tx_one :: "(int, entry, int, int) storage_tx" where
  "tx_one = TxRun (0, DictOp (DictAdd (1, 0, 10))) (TxReturn 7)"

lemma example_master_consistent: "storage_consistent mem_inv mem_plog four_fields example_master"
  by (simp add: storage_consistent_def tx_consistent_def example_master_def storage_of_def fields_inv_init
      master_inv_def master_head_def master_txs_def log_transactions_def CreateStream_def mem_inv_empty
      clock_at_zero_def mem_plog_def replay_def) (simp add: mem_empty_def)

lemma example_master_exec:
  "\<exists>c. tx_exec (fields_run four_fields) tx_one (BeforeTransaction (pol_ctx example_master)) = Some (Inr 7, c) \<and>
     commit_log (journal c) = [(0, DictEvent (DictUpdated 2 (1, 0, 10)))]"
  by (simp add: tx_one_def example_master_def storage_of_def BeforeTransaction_def CtxNow_def Now_def clock_at_zero_def
      Let_def fields_run_def run_part_def get_field_def fields_init_def four_fields_def entry_of_kind_def field_init_def
      dict_Add_def dict_empty_def empty_journal_def LogMutation_def)

text \<open>A codec for entries that are numbers.\<close>

definition nat_codec :: "nat codec" where
  "nat_codec = code_codec print_nat parse_nat"

lemma nat_codec_ok: "codec_ok nat_codec"
  by (simp add: nat_codec_def code_codec_ok code_nat)

end
