(* ===== verification/PubSub.thy ===== *)
theory PubSub
  imports Url EntryCodec
begin

text \<open>
  Streams over HTTP: the parameters of a request, the endpoint that writes the entries of a stream into a
  chunked response (\<^verbatim>\<open>src/stream/pubsub.h\<close>), and the choice of what to serve (\<^verbatim>\<open>ServeDataViaHTTP\<close> of
  \<^verbatim>\<open>src/stream/stream.h\<close>).  The endpoint is a subscriber of the stream: its overload for parsed entries, the one for
  raw lines, and the one for the head share the state of the response.  An exception that leaves the
  endpoint leaves the thread of the subscriber, which ends the process; \<open>ep_escaped\<close> records it.
\<close>

subsection \<open>JSON on the wire\<close>

text \<open>
  Besides the entries with their index and timestamp, lines with only a timestamp are sent.
  \<^verbatim>\<open>ParseJSON<ts_only_t>\<close> ignores a field that the type does not have; \<^verbatim>\<open>ParseJSON<ts_optidx_t>\<close> reads both forms.
\<close>

record 'e wire =
  wire_codec :: "'e codec"
  JSON_ts_only :: "microseconds \<Rightarrow> string"
  ParseJSON_ts_only :: "string \<Rightarrow> microseconds option"
  ParseJSON_ts_optidx :: "string \<Rightarrow> (nat option \<times> microseconds) option"

definition no_control :: "string \<Rightarrow> bool" where
  "no_control s \<longleftrightarrow> tab \<notin> set s \<and> newline \<notin> set s \<and> CHR 0x0D \<notin> set s"

definition wire_ok :: "'e wire \<Rightarrow> bool" where
  "wire_ok w \<longleftrightarrow> codec_ok (wire_codec w) \<and>
     (\<forall>i. no_control (JSON_idxts (wire_codec w) i) \<and>
          ParseJSON_ts_only w (JSON_idxts (wire_codec w) i) = Some (idx_us i) \<and>
          ParseJSON_ts_optidx w (JSON_idxts (wire_codec w) i) = Some (Some (idx_index i), idx_us i)) \<and>
     (\<forall>e. no_control (JSON_entry (wire_codec w) e) \<and> JSON_entry (wire_codec w) e \<noteq> []) \<and>
     (\<forall>u. no_control (JSON_ts_only w u) \<and> JSON_ts_only w u \<noteq> [] \<and> ParseJSON_ts_only w (JSON_ts_only w u) = Some u \<and>
          ParseJSON_ts_optidx w (JSON_ts_only w u) = Some (None, u))"

subsection \<open>The parameters of a request\<close>

record http_request =
  rq_method :: string
  rq_url :: url
  rq_url_path_args :: url_path_args
  rq_timestamp :: microseconds

record pubsub_params =
  pp_size_only :: bool
  pp_terminate_requested :: bool
  pp_terminate_id :: string
  pp_schema_requested :: bool
  pp_schema_format :: string
  pp_recent :: microseconds
  pp_since :: microseconds
  pp_i :: nat
  pp_tail :: nat
  pp_n :: nat
  pp_period :: microseconds
  pp_no_wait :: bool
  pp_stop_after_bytes :: nat
  pp_entries_only :: bool
  pp_array :: bool
  pp_checked :: bool

text \<open>\<^verbatim>\<open>FromString<uint64_t>\<close>: a sign is accepted and negates modulo \<open>2 ^ 64\<close>; zero when the input is not a number.\<close>

definition FromString_uint64 :: "string \<Rightarrow> nat" where
  "FromString_uint64 s =
     (let s = dropWhile isspace s;
          negative = (s \<noteq> [] \<and> hd s = CHR ''-'');
          s = (if s \<noteq> [] \<and> (hd s = CHR ''-'' \<or> hd s = CHR ''+'') then tl s else s);
          digits = takeWhile isdigit s;
          value = digits_value digits
      in if digits = [] \<or> 2 ^ 64 \<le> value then 0 else if negative then (2 ^ 64 - value) mod 2 ^ 64 else value)"

text \<open>\<^verbatim>\<open>std::chrono::microseconds\<close> of an unsigned number.\<close>

definition us_of_uint64 :: "nat \<Rightarrow> microseconds" where
  "us_of_uint64 n = (int n + 2 ^ 63) mod 2 ^ 64 - 2 ^ 63"

definition ParsePubSubHTTPRequest :: "http_request \<Rightarrow> pubsub_params" where
  "ParsePubSubHTTPRequest r =
     (let u = rq_url r;
          schema_prefix = ''schema.'';
          (schema_requested, schema_format) =
            (if query_has u ''schema'' then (True, query_get u ''schema'')
             else if length (upa_args (rq_url_path_args r)) = 1 then
               let a = the (upa_get (rq_url_path_args r) 0) in
               (True, if take (length schema_prefix) a = schema_prefix then drop (length schema_prefix) a else a)
             else (False, []))
      in \<lparr>pp_size_only = (query_has u ''sizeonly'' \<or> rq_method r = ''HEAD''),
          pp_terminate_requested = query_has u ''terminate'',
          pp_terminate_id = (if query_has u ''terminate'' then query_get u ''terminate'' else []),
          pp_schema_requested = schema_requested,
          pp_schema_format = schema_format,
          pp_recent = (if query_has u ''recent'' then us_of_uint64 (FromString_uint64 (query_get u ''recent'')) else 0),
          pp_since = (if query_has u ''since'' then us_of_uint64 (FromString_uint64 (query_get u ''since'')) else 0),
          pp_i = (if query_has u ''i'' then FromString_uint64 (query_get u ''i'') else 0),
          pp_tail = (if query_has u ''tail''
                     then let t = FromString_uint64 (query_get u ''tail'') in if t = 0 then uint64_npos else t
                     else 0),
          pp_n = (if query_has u ''n'' then FromString_uint64 (query_get u ''n'') else 0),
          pp_period = (if query_has u ''period'' then us_of_uint64 (FromString_uint64 (query_get u ''period'')) else 0),
          pp_no_wait = query_has u ''nowait'',
          pp_stop_after_bytes =
            (if query_has u ''stop_after_bytes'' then FromString_uint64 (query_get u ''stop_after_bytes'') else 0),
          pp_entries_only = (query_has u ''entries_only'' \<or> query_has u ''array''),
          pp_array = query_has u ''array'',
          pp_checked = query_has u ''checked''\<rparr>)"

subsection \<open>The endpoint\<close>

record endpoint =
  ep_params :: pubsub_params
  ep_time_to_terminate :: bool
  ep_output_started :: bool
  ep_response :: chunk_sender
  ep_current_response_size :: nat
  ep_serving :: bool
  ep_from_timestamp :: microseconds
  ep_to_timestamp :: microseconds
  ep_n :: nat
  ep_escaped :: bool

definition kChunkCacheSize :: nat where "kChunkCacheSize = 1024 * 1024"

definition requested_from :: "pubsub_params \<Rightarrow> microseconds \<Rightarrow> microseconds" where
  "requested_from p timestamp =
     (if pp_recent p > 0 then timestamp - pp_recent p else if pp_since p > 0 then pp_since p else 0)"

definition PubSubHTTPEndpointImpl :: "pubsub_params \<Rightarrow> microseconds \<Rightarrow> chunk_sender \<Rightarrow> endpoint" where
  "PubSubHTTPEndpointImpl p timestamp s =
     \<lparr>ep_params = p, ep_time_to_terminate = False, ep_output_started = False, ep_response = s,
      ep_current_response_size = 0, ep_serving = (\<not> (pp_recent p > 0 \<or> pp_since p > 0)),
      ep_from_timestamp = requested_from p timestamp, ep_to_timestamp = 0, ep_n = pp_n p, ep_escaped = False\<rparr>"

text \<open>\<^verbatim>\<open>http_response_(data, flush)\<close>: whether it returned; otherwise it threw a \<^verbatim>\<open>NetworkException\<close>.\<close>

definition http_response :: "string \<Rightarrow> bool \<Rightarrow> endpoint \<Rightarrow> bool \<times> endpoint" where
  "http_response data flush ep =
     (case SendImpl kChunkCacheSize data flush (ep_response ep) of (ok, s) \<Rightarrow> (ok, ep\<lparr>ep_response := s\<rparr>))"

text \<open>A write whose exception nobody catches, the last thing a call does.\<close>

definition unguarded_response :: "string \<Rightarrow> entry_response \<Rightarrow> endpoint \<Rightarrow> entry_response \<times> endpoint" where
  "unguarded_response data r ep =
     (case http_response data True ep of
        (True, ep) \<Rightarrow> (r, ep) | (False, ep) \<Rightarrow> (ResponseDone, ep\<lparr>ep_escaped := True\<rparr>))"

definition array_separator :: "bool \<Rightarrow> endpoint \<Rightarrow> bool \<times> endpoint" where
  "array_separator flush ep =
     (if pp_array (ep_params ep) then
        if \<not> ep_output_started ep
        then case http_response (''['' @ [newline]) flush ep of
               (True, ep) \<Rightarrow> (True, ep\<lparr>ep_output_started := True\<rparr>) | (False, ep) \<Rightarrow> (False, ep)
        else http_response ('','' @ [newline]) flush ep
      else (True, ep))"

definition array_end :: "endpoint \<Rightarrow> string" where
  "array_end ep = (if \<not> ep_output_started ep then ''[]'' @ [newline] else '']'' @ [newline])"

text \<open>After an entry was sent: \<^verbatim>\<open>stop_after_bytes\<close>, \<^verbatim>\<open>n\<close> and \<^verbatim>\<open>no_wait\<close>.\<close>

definition after_entry :: "nat \<Rightarrow> nat \<Rightarrow> endpoint \<Rightarrow> entry_response \<times> endpoint" where
  "after_entry current_index last_index ep =
     (let p = ep_params ep in
      if pp_stop_after_bytes p \<noteq> 0 \<and> ep_current_response_size ep \<ge> pp_stop_after_bytes p then (ResponseDone, ep)
      else let last_one = (ep_n ep = 1); ep = ep\<lparr>ep_n := ep_n ep - 1\<rparr> in
           if last_one then (ResponseDone, ep)
           else if current_index = last_index \<and> pp_no_wait p then (ResponseDone, ep)
           else (ResponseMore, ep))"

text \<open>The part that both overloads for an entry have in common: sending it.\<close>

definition send_entry :: "string \<Rightarrow> bool \<Rightarrow> bool \<Rightarrow> nat \<Rightarrow> nat \<Rightarrow> endpoint \<Rightarrow> entry_response \<times> endpoint" where
  "send_entry data separator_flush flush current_index last_index ep =
     (let ep = ep\<lparr>ep_current_response_size := ep_current_response_size ep + length data\<rparr> in
      case array_separator separator_flush ep of
        (False, ep) \<Rightarrow> (ResponseDone, ep)
      | (True, ep) \<Rightarrow>
          (case http_response data flush ep of
             (False, ep) \<Rightarrow> (ResponseDone, ep)
           | (True, ep) \<Rightarrow> after_entry current_index last_index ep))"

text \<open>\<^verbatim>\<open>i\<close> and \<^verbatim>\<open>tail\<close>; the difference of the indexes is an unsigned one.\<close>

definition index_in_range :: "pubsub_params \<Rightarrow> nat \<Rightarrow> nat \<Rightarrow> bool" where
  "index_in_range p current_index last_index \<longleftrightarrow> current_index \<ge> pp_i p \<and>
     (pp_tail p = 0 \<or> (last_index + 2 ^ 64 - current_index) mod 2 ^ 64 < pp_tail p)"

definition not_serving_response :: "pubsub_params \<Rightarrow> nat \<Rightarrow> nat \<Rightarrow> entry_response" where
  "not_serving_response p current_index last_index =
     (if current_index = last_index \<and> pp_no_wait p then ResponseDone else ResponseMore)"

definition set_to_timestamp :: "microseconds \<Rightarrow> endpoint \<Rightarrow> endpoint" where
  "set_to_timestamp us ep =
     (if pp_period (ep_params ep) \<noteq> 0 \<and> ep_to_timestamp ep = 0
      then ep\<lparr>ep_to_timestamp := us + pp_period (ep_params ep)\<rparr> else ep)"

definition entry_checked_body ::
  "'e wire \<Rightarrow> 'e \<Rightarrow> idxts \<Rightarrow> idxts \<Rightarrow> endpoint \<Rightarrow> entry_response \<times> endpoint" where
  "entry_checked_body w entry current last_idx ep =
     (let p = ep_params ep in
      if ep_time_to_terminate ep then (ResponseDone, ep)
      else
        let ep = (if \<not> ep_serving ep \<and> index_in_range p (idx_index current) (idx_index last_idx) \<and>
                     (ep_from_timestamp ep = 0 \<or> idx_us current \<ge> ep_from_timestamp ep)
                  then ep\<lparr>ep_serving := True\<rparr> else ep) in
        if \<not> ep_serving ep then (not_serving_response p (idx_index current) (idx_index last_idx), ep)
        else
          let ep = set_to_timestamp (idx_us current) ep in
          if ep_to_timestamp ep \<noteq> 0 \<and> idx_us current > ep_to_timestamp ep then (ResponseDone, ep)
          else
            let entry_json = (if pp_entries_only p then JSON_entry (wire_codec w) entry @ [newline]
                              else log_line (wire_codec w) current entry @ [newline])
            in send_entry entry_json True True (idx_index current) (idx_index last_idx) ep)"

definition entry_checked ::
  "'e wire \<Rightarrow> 'e \<Rightarrow> idxts \<Rightarrow> idxts \<Rightarrow> endpoint \<Rightarrow> entry_response \<times> endpoint" where
  "entry_checked w entry current last_idx ep =
     (case entry_checked_body w entry current last_idx ep of
        (result, ep) \<Rightarrow>
          if result = ResponseDone \<and> pp_array (ep_params ep) then unguarded_response (array_end ep) ResponseDone ep
          else (result, ep))"

text \<open>
  The overload for raw lines parses the timestamp only when it is needed; then a malformed line throws
  (\<^const>\<open>None\<close>).
\<close>

definition raw_us :: "'e wire \<Rightarrow> string \<Rightarrow> microseconds option" where
  "raw_us w raw_log_line = ParseJSON_ts_only w (takeWhile (\<lambda>c. c \<noteq> tab) raw_log_line)"

definition raw_starts_serving :: "'e wire \<Rightarrow> string \<Rightarrow> nat \<Rightarrow> nat \<Rightarrow> endpoint \<Rightarrow> bool option" where
  "raw_starts_serving w raw_log_line current_index last_index ep =
     (if \<not> index_in_range (ep_params ep) current_index last_index then Some False
      else if ep_from_timestamp ep = 0 then Some True
      else map_option (\<lambda>us. us \<ge> ep_from_timestamp ep) (raw_us w raw_log_line))"

definition raw_response_data :: "pubsub_params \<Rightarrow> string \<Rightarrow> string" where
  "raw_response_data p raw_log_line =
     (if \<not> pp_entries_only p then raw_log_line
      else case split_tab raw_log_line of Some (before, after) \<Rightarrow> after | None \<Rightarrow> raw_log_line) @ [newline]"

definition entry_raw_serve ::
  "'e wire \<Rightarrow> string \<Rightarrow> nat \<Rightarrow> idxts \<Rightarrow> endpoint \<Rightarrow> entry_response option \<times> endpoint" where
  "entry_raw_serve w raw_log_line current_index last_idx ep =
     (let p = ep_params ep; us = raw_us w raw_log_line in
      if (pp_period p \<noteq> 0 \<and> ep_to_timestamp ep = 0 \<or> ep_to_timestamp ep \<noteq> 0) \<and> us = None then (None, ep)
      else
        let ep = (if pp_period p \<noteq> 0 \<and> ep_to_timestamp ep = 0 then set_to_timestamp (the us) ep else ep) in
        if ep_to_timestamp ep \<noteq> 0 \<and> the us > ep_to_timestamp ep then (Some ResponseDone, ep)
        else
          map_prod Some id (send_entry (raw_response_data p raw_log_line) False (current_index = idx_index last_idx)
            current_index (idx_index last_idx) ep))"

definition entry_raw_body ::
  "'e wire \<Rightarrow> string \<Rightarrow> nat \<Rightarrow> idxts \<Rightarrow> endpoint \<Rightarrow> entry_response option \<times> endpoint" where
  "entry_raw_body w raw_log_line current_index last_idx ep =
     (let p = ep_params ep in
      if ep_time_to_terminate ep then (Some ResponseDone, ep)
      else if ep_serving ep then entry_raw_serve w raw_log_line current_index last_idx ep
      else case raw_starts_serving w raw_log_line current_index (idx_index last_idx) ep of
             None \<Rightarrow> (None, ep)
           | Some True \<Rightarrow> entry_raw_serve w raw_log_line current_index last_idx (ep\<lparr>ep_serving := True\<rparr>)
           | Some False \<Rightarrow> (Some (not_serving_response p current_index (idx_index last_idx)), ep))"

definition entry_raw :: "'e wire \<Rightarrow> string \<Rightarrow> nat \<Rightarrow> idxts \<Rightarrow> endpoint \<Rightarrow> entry_response \<times> endpoint" where
  "entry_raw w raw_log_line current_index last_idx ep =
     (case entry_raw_body w raw_log_line current_index last_idx ep of
        (None, ep) \<Rightarrow> (ResponseDone, ep\<lparr>ep_escaped := True\<rparr>)
      | (Some result, ep) \<Rightarrow>
          if result = ResponseDone
          then unguarded_response (if pp_array (ep_params ep) then array_end ep else []) ResponseDone ep
          else (result, ep))"

definition head_update :: "'e wire \<Rightarrow> microseconds \<Rightarrow> endpoint \<Rightarrow> entry_response \<times> endpoint" where
  "head_update w us ep =
     (let p = ep_params ep in
      if ep_time_to_terminate ep then (ResponseDone, ep)
      else
        let ep = (if \<not> ep_serving ep \<and> ep_from_timestamp ep > 0 \<and> us \<ge> ep_from_timestamp ep
                  then ep\<lparr>ep_serving := True\<rparr> else ep) in
        if ep_serving ep then
          let ep = set_to_timestamp us ep in
          if ep_to_timestamp ep \<noteq> 0 \<and> us > ep_to_timestamp ep then (ResponseDone, ep)
          else if \<not> pp_array p \<and> \<not> pp_entries_only p
          then unguarded_response (JSON_ts_only w us @ [newline]) ResponseMore ep
          else (ResponseMore, ep)
        else (ResponseMore, ep))"

definition EntryResponseIfNoMorePassTypeFilter :: "endpoint \<Rightarrow> entry_response \<times> endpoint" where
  "EntryResponseIfNoMorePassTypeFilter ep =
     (if ep_time_to_terminate ep \<or> pp_no_wait (ep_params ep) then ResponseDone else ResponseMore, ep)"

definition terminated_message :: string where
  "terminated_message = ''{'' @ [CHR 0x22] @ ''error'' @ [CHR 0x22] @ '':'' @ [CHR 0x22] @
     ''The subscriber has terminated.'' @ [CHR 0x22] @ ''}'' @ [newline]"

definition endpoint_terminate :: "endpoint \<Rightarrow> termination_response \<times> endpoint" where
  "endpoint_terminate ep =
     (TerminationTerminate,
      snd (unguarded_response
        (if pp_array (ep_params ep) \<and> ep_output_started ep
         then '','' @ [newline] @ terminated_message @ '']'' @ [newline] else terminated_message) ResponseDone ep))"

text \<open>The endpoint as a subscriber, of parsed entries and of raw lines (\<^verbatim>\<open>IterateUnsafe\<close> gives the line of each entry).\<close>

definition endpoint_subscriber :: "'e wire \<Rightarrow> bool \<Rightarrow> (endpoint, 'e) subscriber" where
  "endpoint_subscriber w checked =
     \<lparr>sub_matches = \<lambda>e. True,
      sub_entry = \<lambda>e current last_idx ep.
        if checked then entry_checked w e current last_idx ep
        else entry_raw w (log_line (wire_codec w) current e) (idx_index current) last_idx ep,
      sub_no_more = EntryResponseIfNoMorePassTypeFilter,
      sub_head = head_update w,
      sub_terminate = endpoint_terminate\<rparr>"

subsection \<open>Serving a request\<close>

datatype serve_outcome =
    ServeText string int "http_header list" string
  | ServeTerminate string
  | ServeSubscription pubsub_params nat microseconds

text \<open>Where the subscription begins; \<^verbatim>\<open>tail\<close> of the parameters may change.\<close>

definition subscription_begin ::
  "('s, 'e) persister_ops \<Rightarrow> 's \<Rightarrow> microseconds \<Rightarrow> pubsub_params \<Rightarrow> pubsub_params \<times> nat \<times> microseconds" where
  "subscription_begin ops s timestamp p =
     (let stream_size = PersisterSize ops s;
          (p, begin_idx, from_timestamp) =
            (if pp_tail p \<noteq> 0 then
               if pp_tail p = uint64_npos then (p\<lparr>pp_tail := stream_size\<rparr>, stream_size, 0)
               else let idx_by_tail = (if pp_tail p < stream_size then stream_size - pp_tail p else 0)
                    in (p, max (pp_i p) idx_by_tail, 0)
             else if pp_recent p > 0 then (p, 0, timestamp - pp_recent p)
             else if pp_since p > 0 then (p, 0, pp_since p)
             else (p, pp_i p, 0))
      in if from_timestamp > 0 then
           let idx_by_timestamp = min (fst (PersisterIndexRange ops from_timestamp 0 s)) stream_size
           in (p, max begin_idx idx_by_timestamp, from_timestamp)
         else (p, begin_idx, from_timestamp))"

record stream_schemas =
  schema_as_http_response :: string
  schema_simple :: string
  schema_language :: "(string \<times> string) list"
  schema_format_not_found :: "string \<Rightarrow> string"

definition schema_outcome :: "stream_schemas \<Rightarrow> string \<Rightarrow> serve_outcome" where
  "schema_outcome sch fmt =
     (if fmt = [] then ServeText (schema_as_http_response sch) 200 [] kDefaultJSONContentType
      else if fmt = ''simple'' then ServeText (schema_simple sch) 200 [] kDefaultJSONContentType
      else case map_of (schema_language sch) fmt of
             Some body \<Rightarrow> ServeText body 200 [] kDefaultContentType
           | None \<Rightarrow> ServeText (schema_format_not_found sch fmt) 404 [] kDefaultJSONContentType)"

definition DefaultMethodNotAllowedMessage :: string where
  "DefaultMethodNotAllowedMessage = ''<h1>METHOD NOT ALLOWED</h1>'' @ [newline]"

definition ServeDataViaHTTP ::
  "('s, 'e) persister_ops \<Rightarrow> stream_schemas \<Rightarrow> (string \<Rightarrow> bool) \<Rightarrow> bool \<Rightarrow> 's \<Rightarrow> http_request \<Rightarrow> serve_outcome" where
  "ServeDataViaHTTP ops sch subscription_exists destructing s r =
     (if rq_method r \<noteq> ''GET'' \<and> rq_method r \<noteq> ''HEAD''
      then ServeText DefaultMethodNotAllowedMessage 405 [] kDefaultContentType
      else if destructing then ServeText [] 503 [] kDefaultContentType
      else
        let p = ParsePubSubHTTPRequest r; stream_size = PersisterSize ops s in
        if pp_terminate_requested p then
          (if subscription_exists (pp_terminate_id p) then ServeTerminate (pp_terminate_id p)
           else ServeText [] 404 [] kDefaultContentType)
        else if pp_size_only p then
          ServeText (if rq_method r = ''GET'' then to_string_nat stream_size @ [newline] else []) 200
            [\<lparr>hdr_header = ''X-Current-Stream-Size'', hdr_value = to_string_nat stream_size\<rparr>] kDefaultContentType
        else if pp_schema_requested p then schema_outcome sch (pp_schema_format p)
        else
          (case subscription_begin ops s (rq_timestamp r) p of
             (p, begin_idx, from_timestamp) \<Rightarrow>
               if pp_no_wait p \<and> begin_idx \<ge> stream_size then ServeText [] 204 [] kDefaultContentType
               else ServeSubscription p begin_idx from_timestamp))"

text \<open>\<^verbatim>\<open>PassEntriesToSubscriber\<close> while no termination is signalled and nothing is published.\<close>

fun pass_entries ::
  "('u, 'e) subscriber \<Rightarrow> idxts \<Rightarrow> (idxts \<times> 'e) list \<Rightarrow> 'u \<Rightarrow> entry_response \<times> 'u" where
  "pass_entries sub last_idx [] u = (ResponseMore, u)"
| "pass_entries sub last_idx (r # rs) u =
     (case PassEntryToSubscriberIfTypeMatches sub (snd r) (fst r) last_idx u of
        (ResponseDone, u) \<Rightarrow> (ResponseDone, u)
      | (ResponseMore, u) \<Rightarrow> pass_entries sub last_idx rs u)"

subsection \<open>The endpoint on a connection that stays up\<close>

text \<open>The part of the state that decides what is sent, and what a call does to it.\<close>

record serve_view =
  sv_serving :: bool
  sv_started :: bool
  sv_size :: nat
  sv_to :: microseconds
  sv_n :: nat

definition view_of :: "endpoint \<Rightarrow> serve_view" where
  "view_of ep = \<lparr>sv_serving = ep_serving ep, sv_started = ep_output_started ep, sv_size = ep_current_response_size ep,
     sv_to = ep_to_timestamp ep, sv_n = ep_n ep\<rparr>"

definition entry_text :: "'e wire \<Rightarrow> pubsub_params \<Rightarrow> idxts \<times> 'e \<Rightarrow> string" where
  "entry_text w p r =
     (if pp_entries_only p then JSON_entry (wire_codec w) (snd r) else log_line (wire_codec w) (fst r) (snd r)) @ [newline]"

definition closing_text :: "pubsub_params \<Rightarrow> bool \<Rightarrow> string" where
  "closing_text p started = (if pp_array p then (if started then '']'' else ''[]'') @ [newline] else [])"

definition separator_text :: "pubsub_params \<Rightarrow> bool \<Rightarrow> string" where
  "separator_text p started = (if pp_array p then (if started then '','' else ''['') @ [newline] else [])"

definition view_send :: "pubsub_params \<Rightarrow> string \<Rightarrow> nat \<Rightarrow> nat \<Rightarrow> serve_view \<Rightarrow> entry_response \<times> string \<times> serve_view" where
  "view_send p data i l v =
     (let t = separator_text p (sv_started v) @ data;
          v = v\<lparr>sv_started := sv_started v \<or> pp_array p, sv_size := sv_size v + length data\<rparr> in
      if pp_stop_after_bytes p \<noteq> 0 \<and> sv_size v \<ge> pp_stop_after_bytes p then (ResponseDone, t, v)
      else if sv_n v = 1 then (ResponseDone, t, v\<lparr>sv_n := 0\<rparr>)
      else (not_serving_response p i l, t, v\<lparr>sv_n := sv_n v - 1\<rparr>))"

definition view_serve ::
  "'e wire \<Rightarrow> pubsub_params \<Rightarrow> nat \<Rightarrow> idxts \<times> 'e \<Rightarrow> serve_view \<Rightarrow> entry_response \<times> string \<times> serve_view" where
  "view_serve w p l r v =
     (let us = idx_us (fst r);
          v = (if pp_period p \<noteq> 0 \<and> sv_to v = 0 then v\<lparr>sv_to := us + pp_period p\<rparr> else v) in
      if sv_to v \<noteq> 0 \<and> us > sv_to v then (ResponseDone, [], v)
      else view_send p (entry_text w p r) (idx_index (fst r)) l v)"

definition starts_serving :: "pubsub_params \<Rightarrow> microseconds \<Rightarrow> nat \<Rightarrow> idxts \<Rightarrow> bool" where
  "starts_serving p from l i \<longleftrightarrow> index_in_range p (idx_index i) l \<and> (from = 0 \<or> idx_us i \<ge> from)"

definition view_entry ::
  "'e wire \<Rightarrow> pubsub_params \<Rightarrow> microseconds \<Rightarrow> nat \<Rightarrow> idxts \<times> 'e \<Rightarrow> serve_view \<Rightarrow> entry_response \<times> string \<times> serve_view" where
  "view_entry w p from l r v =
     (if sv_serving v \<or> starts_serving p from l (fst r) then view_serve w p l r (v\<lparr>sv_serving := True\<rparr>)
      else (not_serving_response p (idx_index (fst r)) l, [], v))"

definition healthy :: "string \<Rightarrow> endpoint \<Rightarrow> string list \<Rightarrow> bool" where
  "healthy t0 ep ps \<longleftrightarrow> sender_inv kChunkCacheSize (t0 @ chunk_encoding ps) (ep_response ep) \<and>
     co_left (cs_connection (ep_response ep)) = None \<and> \<not> ep_escaped ep \<and> \<not> ep_time_to_terminate ep"

lemma chunk_encoding_append: "chunk_encoding (xs @ ys) = chunk_encoding xs @ chunk_encoding ys"
  by (simp add: chunk_encoding_def)

lemma http_response_healthy:
  assumes "healthy t0 ep ps"
  obtains s where "http_response data flush ep = (True, ep\<lparr>ep_response := s\<rparr>)"
    "healthy t0 (ep\<lparr>ep_response := s\<rparr>) (ps @ [data])"
proof -
  obtain ok s where s: "SendImpl kChunkCacheSize data flush (ep_response ep) = (ok, s)" by fastforce
  have inv: "sender_inv kChunkCacheSize (t0 @ chunk_encoding ps) (ep_response ep)"
    and left: "co_left (cs_connection (ep_response ep)) = None" using assms by (simp_all add: healthy_def)
  note c = SendImpl_cases [OF inv s]
  have ok: ok using c(2,3) left by (auto simp: sender_broken_def)
  show ?thesis
    by (rule that) (use c(1,3) ok left assms s in
      \<open>simp_all add: http_response_def healthy_def chunk_encoding_append del: chunk_encoding_simps\<close>)
qed

lemma unguarded_healthy:
  assumes "healthy t0 ep ps"
  obtains s where "unguarded_response data r ep = (r, ep\<lparr>ep_response := s\<rparr>)"
    "healthy t0 (ep\<lparr>ep_response := s\<rparr>) (ps @ [data])"
  by (rule http_response_healthy [OF assms, of data True]) (auto simp: unguarded_response_def intro: that)

lemma healthy_other_fields [simp]:
  "healthy t0 (ep\<lparr>ep_serving := b\<rparr>) ps = healthy t0 ep ps"
  "healthy t0 (ep\<lparr>ep_output_started := b\<rparr>) ps = healthy t0 ep ps"
  "healthy t0 (ep\<lparr>ep_current_response_size := n\<rparr>) ps = healthy t0 ep ps"
  "healthy t0 (ep\<lparr>ep_to_timestamp := t\<rparr>) ps = healthy t0 ep ps"
  "healthy t0 (ep\<lparr>ep_n := n\<rparr>) ps = healthy t0 ep ps"
  by (simp_all add: healthy_def)

lemma view_of_simps [simp]:
  "view_of (ep\<lparr>ep_response := s\<rparr>) = view_of ep"
  "view_of (ep\<lparr>ep_serving := b\<rparr>) = (view_of ep)\<lparr>sv_serving := b\<rparr>"
  "view_of (ep\<lparr>ep_output_started := b\<rparr>) = (view_of ep)\<lparr>sv_started := b\<rparr>"
  "view_of (ep\<lparr>ep_current_response_size := n\<rparr>) = (view_of ep)\<lparr>sv_size := n\<rparr>"
  "view_of (ep\<lparr>ep_to_timestamp := t\<rparr>) = (view_of ep)\<lparr>sv_to := t\<rparr>"
  "view_of (ep\<lparr>ep_n := n\<rparr>) = (view_of ep)\<lparr>sv_n := n\<rparr>"
  "sv_serving (view_of ep) = ep_serving ep" "sv_started (view_of ep) = ep_output_started ep"
  "sv_size (view_of ep) = ep_current_response_size ep" "sv_to (view_of ep) = ep_to_timestamp ep"
  "sv_n (view_of ep) = ep_n ep"
  by (simp_all add: view_of_def)

text \<open>What a call does to an endpoint on a healthy connection: the response, the new view, the text added.\<close>

definition behaves ::
  "string \<Rightarrow> endpoint \<Rightarrow> string list \<Rightarrow> entry_response \<times> endpoint \<Rightarrow> entry_response \<times> string \<times> serve_view \<Rightarrow> bool" where
  "behaves t0 ep ps res spec \<longleftrightarrow>
     (case (res, spec) of
        ((r, ep'), (r', t, v)) \<Rightarrow> r = r' \<and> view_of ep' = v \<and> ep_params ep' = ep_params ep \<and>
          ep_from_timestamp ep' = ep_from_timestamp ep \<and> (\<exists>qs. healthy t0 ep' (ps @ qs) \<and> concat qs = t))"

lemma behavesI:
  "view_of ep' = v \<Longrightarrow> ep_params ep' = ep_params ep \<Longrightarrow> ep_from_timestamp ep' = ep_from_timestamp ep \<Longrightarrow>
   healthy t0 ep' (ps @ qs) \<Longrightarrow> concat qs = t \<Longrightarrow> behaves t0 ep ps (r, ep') (r, t, v)"
  by (auto simp: behaves_def)

lemma array_separator_healthy:
  assumes "healthy t0 ep ps"
  obtains s qs where "array_separator flush ep =
      (True, ep\<lparr>ep_response := s, ep_output_started := ep_output_started ep \<or> pp_array (ep_params ep)\<rparr>)"
    "healthy t0 (ep\<lparr>ep_response := s\<rparr>) (ps @ qs)" "concat qs = separator_text (ep_params ep) (ep_output_started ep)"
proof (cases "pp_array (ep_params ep)")
  case False
  show ?thesis by (rule that [of "ep_response ep" "[]"]) (use False assms in \<open>simp_all add: array_separator_def separator_text_def\<close>)
next
  case True
  let ?t = "separator_text (ep_params ep) (ep_output_started ep)"
  obtain s where s: "http_response ?t flush ep = (True, ep\<lparr>ep_response := s\<rparr>)" "healthy t0 (ep\<lparr>ep_response := s\<rparr>) (ps @ [?t])"
    by (rule http_response_healthy [OF assms])
  show ?thesis
    by (rule that [of s "[?t]"]) (use s True in \<open>auto simp: array_separator_def separator_text_def split: if_splits\<close>)
qed

lemma send_entry_healthy:
  assumes "healthy t0 ep ps"
  shows "behaves t0 ep ps (send_entry data sf f i l ep) (view_send (ep_params ep) data i l (view_of ep))"
proof -
  let ?ep = "ep\<lparr>ep_current_response_size := ep_current_response_size ep + length data\<rparr>"
  have "healthy t0 ?ep ps" using assms by simp
  then obtain s qs where sep: "array_separator sf ?ep =
      (True, ?ep\<lparr>ep_response := s, ep_output_started := ep_output_started ep \<or> pp_array (ep_params ep)\<rparr>)"
    "healthy t0 (?ep\<lparr>ep_response := s\<rparr>) (ps @ qs)" "concat qs = separator_text (ep_params ep) (ep_output_started ep)"
    by (rule array_separator_healthy [where flush = sf]) simp_all
  let ?ep1 = "?ep\<lparr>ep_response := s, ep_output_started := ep_output_started ep \<or> pp_array (ep_params ep)\<rparr>"
  have "healthy t0 ?ep1 (ps @ qs)" using sep(2) by (simp add: healthy_def)
  then obtain s' where out: "http_response data f ?ep1 = (True, ?ep1\<lparr>ep_response := s'\<rparr>)"
    "healthy t0 (?ep1\<lparr>ep_response := s'\<rparr>) ((ps @ qs) @ [data])"
    by (rule http_response_healthy)
  have body: "concat (qs @ [data]) = separator_text (ep_params ep) (ep_output_started ep) @ data" using sep(3) by simp
  have send: "send_entry data sf f i l ep = after_entry i l (?ep1\<lparr>ep_response := s'\<rparr>)"
    unfolding send_entry_def Let_def sep(1) by (simp add: out(1))
  show ?thesis
    unfolding send view_send_def after_entry_def Let_def not_serving_response_def
    using out(2) body by (auto intro!: behavesI [where qs = "qs @ [data]"] simp: healthy_def)
qed

definition with_closing ::
  "pubsub_params \<Rightarrow> entry_response \<times> string \<times> serve_view \<Rightarrow> entry_response \<times> string \<times> serve_view" where
  "with_closing p res =
     (case res of (r, t, v) \<Rightarrow> (r, t @ (if r = ResponseDone then closing_text p (sv_started v) else []), v))"

lemma behaves_close:
  assumes "behaves t0 ep ps (ResponseDone, ep1) (ResponseDone, t, v)"
  shows "behaves t0 ep ps
    (unguarded_response (if pp_array (ep_params ep) then array_end ep1 else []) ResponseDone ep1)
    (with_closing (ep_params ep) (ResponseDone, t, v))"
proof -
  from assms obtain qs where ep1: "view_of ep1 = v" "ep_params ep1 = ep_params ep" "ep_from_timestamp ep1 = ep_from_timestamp ep"
    "healthy t0 ep1 (ps @ qs)" "concat qs = t" by (auto simp: behaves_def)
  let ?d = "if pp_array (ep_params ep) then array_end ep1 else []"
  obtain s where s: "unguarded_response ?d ResponseDone ep1 = (ResponseDone, ep1\<lparr>ep_response := s\<rparr>)"
    "healthy t0 (ep1\<lparr>ep_response := s\<rparr>) ((ps @ qs) @ [?d])" by (rule unguarded_healthy [OF ep1(4)])
  have "?d = closing_text (ep_params ep) (sv_started v)"
    using ep1(1) by (auto simp: closing_text_def array_end_def)
  then show ?thesis
    unfolding s(1) with_closing_def prod.case
    by (intro behavesI [where qs = "qs @ [?d]"]) (use ep1 s(2) in simp_all)
qed

lemma behaves_no_array:
  "behaves t0 ep ps (r, ep1) (r, t, v) \<Longrightarrow> r = ResponseMore \<or> \<not> pp_array (ep_params ep) \<Longrightarrow>
   behaves t0 ep ps (r, ep1) (with_closing (ep_params ep) (r, t, v))"
  by (auto simp: with_closing_def closing_text_def)

lemma behaves_cases:
  assumes "behaves t0 ep ps res spec"
  obtains r ep1 t v where "res = (r, ep1)" "spec = (r, t, v)" "behaves t0 ep ps (r, ep1) (r, t, v)"
  using assms by (cases res; cases spec) (auto simp: behaves_def)

lemma behaves_trans_view:
  "behaves t0 ep' ps res spec \<Longrightarrow> ep_params ep' = ep_params ep \<Longrightarrow> ep_from_timestamp ep' = ep_from_timestamp ep \<Longrightarrow>
   behaves t0 ep ps res spec"
  by (auto simp: behaves_def)

text \<open>The serving part of both overloads.\<close>

lemma serve_behaves:
  fixes r :: "idxts \<times> 'e"
  assumes "healthy t0 ep ps" "ep_serving ep"
  defines "ep1 \<equiv> set_to_timestamp (idx_us (fst r)) ep"
  shows "behaves t0 ep ps
    (if ep_to_timestamp ep1 \<noteq> 0 \<and> idx_us (fst r) > ep_to_timestamp ep1 then (ResponseDone, ep1)
     else send_entry (entry_text w (ep_params ep) r) sf f (idx_index (fst r)) l ep1)
    (view_serve w (ep_params ep) l r (view_of ep))"
proof -
  have ep1: "healthy t0 ep1 ps" "ep_params ep1 = ep_params ep" "ep_from_timestamp ep1 = ep_from_timestamp ep"
    "view_of ep1 = (if pp_period (ep_params ep) \<noteq> 0 \<and> sv_to (view_of ep) = 0
       then (view_of ep)\<lparr>sv_to := idx_us (fst r) + pp_period (ep_params ep)\<rparr> else view_of ep)"
    using assms(1) by (auto simp: ep1_def set_to_timestamp_def)
  note send = send_entry_healthy [OF ep1(1), of "entry_text w (ep_params ep) r" sf f "idx_index (fst r)" l]
  show ?thesis
  proof (cases "ep_to_timestamp ep1 \<noteq> 0 \<and> idx_us (fst r) > ep_to_timestamp ep1")
    case True
    have "behaves t0 ep ps (ResponseDone, ep1) (ResponseDone, [], view_of ep1)"
      by (rule behavesI [where qs = "[]"]) (use ep1 in simp_all)
    moreover have "view_serve w (ep_params ep) l r (view_of ep) = (ResponseDone, [], view_of ep1)"
      unfolding view_serve_def Let_def ep1(4) [symmetric] using True by simp
    ultimately show ?thesis using True by simp
  next
    case False
    have "view_serve w (ep_params ep) l r (view_of ep) =
        view_send (ep_params ep) (entry_text w (ep_params ep) r) (idx_index (fst r)) l (view_of ep1)"
      unfolding view_serve_def Let_def ep1(4) [symmetric] using False by auto
    then show ?thesis
      unfolding if_not_P [OF False] using send behaves_trans_view [OF _ ep1(2,3)] by (simp only: ep1(2))
  qed
qed

lemma idle_behaves:
  "healthy t0 ep ps \<Longrightarrow> behaves t0 ep ps (r, ep) (r, [], view_of ep)"
  by (rule behavesI [where qs = "[]"]) simp_all

lemma entry_checked_body_behaves:
  assumes "healthy t0 ep ps"
  shows "behaves t0 ep ps (entry_checked_body w e i l ep)
    (view_entry w (ep_params ep) (ep_from_timestamp ep) (idx_index l) (i, e) (view_of ep))"
proof -
  let ?starts = "starts_serving (ep_params ep) (ep_from_timestamp ep) (idx_index l) i"
  have run: "\<not> ep_time_to_terminate ep" using assms by (simp add: healthy_def)
  show ?thesis
  proof (cases "ep_serving ep \<or> ?starts")
    case False
    then show ?thesis
      using run idle_behaves [OF assms] by (auto simp: entry_checked_body_def view_entry_def starts_serving_def)
  next
    case True
    let ?ep = "ep\<lparr>ep_serving := True\<rparr>"
    have same: "(if \<not> ep_serving ep \<and> index_in_range (ep_params ep) (idx_index i) (idx_index l) \<and>
        (ep_from_timestamp ep = 0 \<or> idx_us i \<ge> ep_from_timestamp ep) then ?ep else ep) = ?ep"
      using True by (auto simp: starts_serving_def)
    have data: "(if pp_entries_only (ep_params ep) then JSON_entry (wire_codec w) e @ [newline]
        else log_line (wire_codec w) i e @ [newline]) = entry_text w (ep_params ep) (i, e)"
      by (simp add: entry_text_def)
    have "behaves t0 ?ep ps (entry_checked_body w e i l ep) (view_serve w (ep_params ep) (idx_index l) (i, e) (view_of ?ep))"
      using serve_behaves [of t0 ?ep ps "(i, e)" w True True "idx_index l"] assms run
      unfolding entry_checked_body_def Let_def same data by (simp cong: if_cong split del: if_split)
    then show ?thesis using True by (auto simp: view_entry_def behaves_def)
  qed
qed

lemma entry_checked_behaves:
  assumes "healthy t0 ep ps"
  shows "behaves t0 ep ps (entry_checked w e i l ep)
    (with_closing (ep_params ep) (view_entry w (ep_params ep) (ep_from_timestamp ep) (idx_index l) (i, e) (view_of ep)))"
proof -
  obtain r ep1 t v where b: "entry_checked_body w e i l ep = (r, ep1)"
    "view_entry w (ep_params ep) (ep_from_timestamp ep) (idx_index l) (i, e) (view_of ep) = (r, t, v)"
    "behaves t0 ep ps (r, ep1) (r, t, v)"
    by (rule behaves_cases [OF entry_checked_body_behaves [OF assms]])
  have same: "ep_params ep1 = ep_params ep" using b(3) by (auto simp: behaves_def)
  show ?thesis
  proof (cases "r = ResponseDone \<and> pp_array (ep_params ep)")
    case True
    then show ?thesis using behaves_close [of t0 ep ps ep1 t v] b same by (simp add: entry_checked_def)
  next
    case False
    then show ?thesis
      using behaves_no_array [OF b(3)] b same by (cases r) (auto simp: entry_checked_def)
  qed
qed

lemma raw_line_facts:
  assumes "wire_ok w"
  shows "raw_us w (log_line (wire_codec w) i e) = Some (idx_us i)"
    "raw_response_data p (log_line (wire_codec w) i e) = entry_text w p (i, e)"
proof -
  have cd: "codec_ok (wire_codec w)" and us: "ParseJSON_ts_only w (JSON_idxts (wire_codec w) i) = Some (idx_us i)"
    and t: "tab \<notin> set (JSON_idxts (wire_codec w) i)"
    using assms by (auto simp: wire_ok_def no_control_def)
  have "takeWhile (\<lambda>c. c \<noteq> tab) (log_line (wire_codec w) i e) = JSON_idxts (wire_codec w) i"
    using t by (auto simp: log_line_def takeWhile_append)
  then show "raw_us w (log_line (wire_codec w) i e) = Some (idx_us i)" using us by (simp add: raw_us_def)
  show "raw_response_data p (log_line (wire_codec w) i e) = entry_text w p (i, e)"
    using codec_okD(3) [OF cd] by (simp add: raw_response_data_def entry_text_def)
qed

lemma entry_raw_body_behaves:
  assumes "wire_ok w" "healthy t0 ep ps"
  obtains r ep1 t v where
    "entry_raw_body w (log_line (wire_codec w) i e) (idx_index i) l ep = (Some r, ep1)"
    "view_entry w (ep_params ep) (ep_from_timestamp ep) (idx_index l) (i, e) (view_of ep) = (r, t, v)"
    "behaves t0 ep ps (r, ep1) (r, t, v)"
proof -
  let ?starts = "starts_serving (ep_params ep) (ep_from_timestamp ep) (idx_index l) i"
  let ?line = "log_line (wire_codec w) i e"
  have run: "\<not> ep_time_to_terminate ep" using assms(2) by (simp add: healthy_def)
  note raw = raw_line_facts [OF assms(1), where i = i and e = e]
  have starts: "raw_starts_serving w ?line (idx_index i) (idx_index l) ep = Some ?starts"
    by (auto simp: raw_starts_serving_def raw(1) starts_serving_def)
  show ?thesis
  proof (cases "ep_serving ep \<or> ?starts")
    case False
    then have "entry_raw_body w ?line (idx_index i) l ep =
        (Some (not_serving_response (ep_params ep) (idx_index i) (idx_index l)), ep)"
      using run starts by (simp add: entry_raw_body_def)
    then show ?thesis using that idle_behaves [OF assms(2)] False by (simp add: view_entry_def)
  next
    case True
    let ?ep = "ep\<lparr>ep_serving := True\<rparr>"
    have ep: "ep_serving ep \<Longrightarrow> ?ep = ep" by simp
    have body: "entry_raw_body w ?line (idx_index i) l ep = entry_raw_serve w ?line (idx_index i) l ?ep"
    proof (cases "ep_serving ep")
      case True
      then show ?thesis unfolding ep [OF True] using run by (simp add: entry_raw_body_def)
    next
      case False
      then show ?thesis using \<open>ep_serving ep \<or> ?starts\<close> run starts by (simp add: entry_raw_body_def)
    qed
    let ?res = "if ep_to_timestamp (set_to_timestamp (idx_us i) ?ep) \<noteq> 0 \<and> idx_us i > ep_to_timestamp (set_to_timestamp (idx_us i) ?ep)
      then (ResponseDone, set_to_timestamp (idx_us i) ?ep)
      else send_entry (entry_text w (ep_params ep) (i, e)) False (idx_index i = idx_index l) (idx_index i) (idx_index l)
        (set_to_timestamp (idx_us i) ?ep)"
    have serve: "entry_raw_serve w ?line (idx_index i) l ?ep = map_prod Some id ?res"
      unfolding entry_raw_serve_def Let_def raw by (simp add: set_to_timestamp_def)
    have "behaves t0 ?ep ps ?res (view_serve w (ep_params ep) (idx_index l) (i, e) (view_of ?ep))"
      using serve_behaves [of t0 ?ep ps "(i, e)" w False "idx_index i = idx_index l" "idx_index l"] assms(2)
      by (simp cong: if_cong split del: if_split)
    then have "behaves t0 ep ps ?res (view_entry w (ep_params ep) (ep_from_timestamp ep) (idx_index l) (i, e) (view_of ep))"
      using True by (auto simp: view_entry_def behaves_def)
    then show ?thesis by (rule behaves_cases) (use body serve that in simp)
  qed
qed

lemma entry_raw_behaves:
  assumes "wire_ok w" "healthy t0 ep ps"
  shows "behaves t0 ep ps (entry_raw w (log_line (wire_codec w) i e) (idx_index i) l ep)
    (with_closing (ep_params ep) (view_entry w (ep_params ep) (ep_from_timestamp ep) (idx_index l) (i, e) (view_of ep)))"
proof -
  obtain r ep1 t v where b: "entry_raw_body w (log_line (wire_codec w) i e) (idx_index i) l ep = (Some r, ep1)"
    "view_entry w (ep_params ep) (ep_from_timestamp ep) (idx_index l) (i, e) (view_of ep) = (r, t, v)"
    "behaves t0 ep ps (r, ep1) (r, t, v)"
    by (rule entry_raw_body_behaves [OF assms])
  have same: "ep_params ep1 = ep_params ep" using b(3) by (auto simp: behaves_def)
  show ?thesis
  proof (cases "r = ResponseDone")
    case True
    then show ?thesis using behaves_close [of t0 ep ps ep1 t v] b same by (simp add: entry_raw_def)
  next
    case False
    then show ?thesis
      using behaves_no_array [OF b(3)] b by (cases r) (auto simp: entry_raw_def)
  qed
qed

subsection \<open>A run over the entries of a stream\<close>

fun view_pass ::
  "'e wire \<Rightarrow> pubsub_params \<Rightarrow> microseconds \<Rightarrow> nat \<Rightarrow> (idxts \<times> 'e) list \<Rightarrow> serve_view \<Rightarrow> entry_response \<times> string \<times> serve_view" where
  "view_pass w p from l [] v = (ResponseMore, [], v)"
| "view_pass w p from l (r # rs) v =
     (case with_closing p (view_entry w p from l r v) of
        (ResponseDone, t, v) \<Rightarrow> (ResponseDone, t, v)
      | (ResponseMore, t, v) \<Rightarrow> (case view_pass w p from l rs v of (x, t', v) \<Rightarrow> (x, t @ t', v)))"

text \<open>
  The contract of the two overloads for an entry: on a healthy connection a call does what the view says.
\<close>

locale entry_overload =
  fixes w :: "'e wire" and entry :: "'e \<Rightarrow> idxts \<Rightarrow> idxts \<Rightarrow> endpoint \<Rightarrow> entry_response \<times> endpoint"
  assumes entry_behaves: "wire_ok w \<Longrightarrow> healthy t0 ep ps \<Longrightarrow> behaves t0 ep ps (entry e i l ep)
    (with_closing (ep_params ep) (view_entry w (ep_params ep) (ep_from_timestamp ep) (idx_index l) (i, e) (view_of ep)))"
begin

lemma pass_behaves:
  assumes "wire_ok w" "healthy t0 ep ps" "\<And>e. sub_matches sub e" "sub_entry sub = entry"
  shows "behaves t0 ep ps (pass_entries sub l rs ep)
    (view_pass w (ep_params ep) (ep_from_timestamp ep) (idx_index l) rs (view_of ep))"
  using assms(2)
proof (induction rs arbitrary: ep ps)
  case Nil
  then show ?case using idle_behaves by simp
next
  case (Cons r rs)
  let ?p = "ep_params ep" and ?from = "ep_from_timestamp ep"
  obtain x ep1 t v where b: "entry (snd r) (fst r) l ep = (x, ep1)"
    "with_closing ?p (view_entry w ?p ?from (idx_index l) (fst r, snd r) (view_of ep)) = (x, t, v)"
    "behaves t0 ep ps (x, ep1) (x, t, v)"
    by (rule behaves_cases [OF entry_behaves [OF assms(1) Cons.prems]])
  have pass: "PassEntryToSubscriberIfTypeMatches sub (snd r) (fst r) l ep = (x, ep1)"
    using b(1) assms(3,4) by (simp add: PassEntryToSubscriberIfTypeMatches_def)
  show ?case
  proof (cases x)
    case ResponseDone
    then show ?thesis using b pass by simp
  next
    case ResponseMore
    from b(3) obtain qs where ep1: "view_of ep1 = v" "ep_params ep1 = ?p" "ep_from_timestamp ep1 = ?from"
      "healthy t0 ep1 (ps @ qs)" "concat qs = t" by (auto simp: behaves_def)
    from Cons.IH [OF ep1(4)] obtain y ep2 t' v' where c: "pass_entries sub l rs ep1 = (y, ep2)"
      "view_pass w ?p ?from (idx_index l) rs v = (y, t', v')" "behaves t0 ep1 (ps @ qs) (y, ep2) (y, t', v')"
      unfolding ep1(1-3) by (rule behaves_cases)
    from c(3) obtain qs' where "view_of ep2 = v'" "ep_params ep2 = ?p" "ep_from_timestamp ep2 = ?from"
      "healthy t0 ep2 (ps @ qs @ qs')" "concat qs' = t'" by (auto simp: behaves_def ep1)
    then have "behaves t0 ep ps (y, ep2) (y, t @ t', v')"
      by (intro behavesI [where qs = "qs @ qs'"]) (simp_all add: ep1)
    then show ?thesis using ResponseMore b(2) c pass by simp
  qed
qed

end

interpretation checked: entry_overload w "entry_checked w" for w :: "'e wire"
  by unfold_locales (rule entry_checked_behaves)

interpretation raw: entry_overload w "\<lambda>e i. entry_raw w (log_line (wire_codec w) i e) (idx_index i)" for w :: "'e wire"
  by unfold_locales (rule entry_raw_behaves)

text \<open>What an endpoint that serves sends, in terms of the limits of the request.\<close>

fun limited ::
  "'e wire \<Rightarrow> pubsub_params \<Rightarrow> nat \<Rightarrow> nat \<Rightarrow> microseconds \<Rightarrow> (idxts \<times> 'e) list \<Rightarrow> (idxts \<times> 'e) list" where
  "limited w p n sz to [] = []"
| "limited w p n sz to (r # rs) =
     (let us = idx_us (fst r); to = (if pp_period p \<noteq> 0 \<and> to = 0 then us + pp_period p else to);
          sz = sz + length (entry_text w p r) in
      if to \<noteq> 0 \<and> us > to then []
      else r # (if pp_stop_after_bytes p \<noteq> 0 \<and> sz \<ge> pp_stop_after_bytes p \<or> n = 1 then []
                else limited w p (n - 1) sz to rs))"

fun served_text :: "pubsub_params \<Rightarrow> bool \<Rightarrow> string list \<Rightarrow> string" where
  "served_text p started [] = closing_text p started"
| "served_text p started (x # xs) = separator_text p started @ x @ served_text p (started \<or> pp_array p) xs"

lemma upt_headD: "x # xs = [b..<Suc l] \<Longrightarrow> b \<le> l \<Longrightarrow> x = b \<and> xs = [Suc b..<Suc l]"
  by (simp add: upt_conv_Cons del: upt_Suc)

lemma view_pass_serving:
  assumes "map (\<lambda>r. idx_index (fst r)) rs = [b..<Suc l]" "b \<le> l" "pp_no_wait p" "sv_serving v"
  shows "\<exists>v'. view_pass w p from l rs v = (ResponseDone,
    served_text p (sv_started v) (map (entry_text w p) (limited w p (sv_n v) (sv_size v) (sv_to v) rs)), v')"
  using assms
proof (induction rs arbitrary: b v)
  case (Cons r rs)
  let ?v = "if pp_period p \<noteq> 0 \<and> sv_to v = 0 then v\<lparr>sv_to := idx_us (fst r) + pp_period p\<rparr> else v"
  let ?size = "sv_size v + length (entry_text w p r)"
  have idx: "idx_index (fst r) = b" and rest: "map (\<lambda>r. idx_index (fst r)) rs = [Suc b..<Suc l]"
    using upt_headD [OF _ Cons.prems(2), of "idx_index (fst r)"] Cons.prems(1) by (simp_all del: upt_Suc)
  have serving: "v\<lparr>sv_serving := True\<rparr> = v" using Cons.prems(4) by simp
  have entry: "view_entry w p from l r v = (if sv_to ?v \<noteq> 0 \<and> idx_us (fst r) > sv_to ?v then (ResponseDone, [], ?v)
      else view_send p (entry_text w p r) b l ?v)"
    using Cons.prems(4) by (simp add: view_entry_def view_serve_def serving Let_def idx)
  show ?case
  proof (cases "sv_to ?v \<noteq> 0 \<and> idx_us (fst r) > sv_to ?v")
    case True
    then show ?thesis unfolding view_pass.simps entry by (auto simp: with_closing_def Let_def)
  next
    case False
    let ?v1 = "?v\<lparr>sv_started := sv_started v \<or> pp_array p, sv_size := ?size\<rparr>"
    show ?thesis
    proof (cases "pp_stop_after_bytes p \<noteq> 0 \<and> ?size \<ge> pp_stop_after_bytes p \<or> sv_n v = 1")
      case True
      then show ?thesis
        using False unfolding view_pass.simps entry
        by (auto simp: with_closing_def view_send_def Let_def)
    next
      case more: False
      have send: "view_send p (entry_text w p r) b l ?v = (not_serving_response p b l,
          separator_text p (sv_started v) @ entry_text w p r, ?v1\<lparr>sv_n := sv_n v - 1\<rparr>)"
        using more by (auto simp: view_send_def Let_def)
      show ?thesis
      proof (cases "b = l")
        case True
        then have "rs = []" using rest by simp
        then show ?thesis
          using False more True Cons.prems(3) unfolding view_pass.simps entry send
          by (auto simp: with_closing_def not_serving_response_def Let_def)
      next
        case next_one: False
        then have "\<exists>v'. view_pass w p from l rs (?v1\<lparr>sv_n := sv_n v - 1\<rparr>) = (ResponseDone,
            served_text p (sv_started v \<or> pp_array p)
              (map (entry_text w p) (limited w p (sv_n v - 1) ?size (sv_to ?v) rs)), v')"
          using Cons.IH [OF rest, of "?v1\<lparr>sv_n := sv_n v - 1\<rparr>"] Cons.prems(2-4) by simp
        then show ?thesis
          using False more next_one unfolding view_pass.simps entry send
          by (auto simp: with_closing_def not_serving_response_def Let_def)
      qed
    qed
  qed
qed simp

lemma view_pass_skipping:
  assumes "map (\<lambda>r. idx_index (fst r)) rs = [b..<Suc l]" "b \<le> l" "pp_no_wait p" "\<not> sv_serving v"
  shows "\<exists>v'. view_pass w p from l rs v = (ResponseDone,
    served_text p (sv_started v) (map (entry_text w p) (limited w p (sv_n v) (sv_size v) (sv_to v)
      (dropWhile (\<lambda>r. \<not> starts_serving p from l (fst r)) rs))), v')"
  using assms
proof (induction rs arbitrary: b)
  case (Cons r rs)
  have idx: "idx_index (fst r) = b" and rest: "map (\<lambda>r. idx_index (fst r)) rs = [Suc b..<Suc l]"
    using upt_headD [OF _ Cons.prems(2), of "idx_index (fst r)"] Cons.prems(1) by (simp_all del: upt_Suc)
  show ?case
  proof (cases "starts_serving p from l (fst r)")
    case True
    have "view_pass w p from l (r # rs) v = view_pass w p from l (r # rs) (v\<lparr>sv_serving := True\<rparr>)"
      using True Cons.prems(4) by (simp add: view_entry_def)
    then show ?thesis
      using view_pass_serving [OF Cons.prems(1-3), of "v\<lparr>sv_serving := True\<rparr>" w "from"] True by simp
  next
    case False
    have entry: "view_entry w p from l r v = (not_serving_response p b l, [], v)"
      using False Cons.prems(4) by (simp add: view_entry_def idx)
    show ?thesis
    proof (cases "b = l")
      case True
      then have "rs = []" using rest by simp
      then show ?thesis using False True Cons.prems(3) entry by (simp add: with_closing_def not_serving_response_def)
    next
      case next_one: False
      then show ?thesis
        using Cons.IH [OF rest _ Cons.prems(3,4)] Cons.prems(2) False entry
        by (auto simp: with_closing_def not_serving_response_def)
    qed
  qed
qed simp

subsection \<open>The range a request asks for\<close>

text \<open>
  The rules of \<^verbatim>\<open>pubsub.h\<close> as one filter over the entries of the stream, followed by the limits on their span in time, their
  number and their total size.
\<close>

definition passes :: "pubsub_params \<Rightarrow> microseconds \<Rightarrow> nat \<Rightarrow> idxts \<times> 'e \<Rightarrow> bool" where
  "passes p from stream_size r \<longleftrightarrow>
     pp_i p \<le> idx_index (fst r) \<and>
     (pp_tail p = 0 \<or> pp_tail p \<noteq> uint64_npos \<and> stream_size \<le> idx_index (fst r) + pp_tail p) \<and>
     (from = 0 \<or> from \<le> idx_us (fst r))"

fun until_bytes :: "('a \<Rightarrow> nat) \<Rightarrow> nat \<Rightarrow> nat \<Rightarrow> 'a list \<Rightarrow> 'a list" where
  "until_bytes len stop sz [] = []"
| "until_bytes len stop sz (x # xs) =
     x # (if stop \<noteq> 0 \<and> stop \<le> sz + len x then [] else until_bytes len stop (sz + len x) xs)"

definition up_to :: "nat \<Rightarrow> 'a list \<Rightarrow> 'a list" where
  "up_to n xs = (if n = 0 then xs else take n xs)"

definition selected :: "'e wire \<Rightarrow> pubsub_params \<Rightarrow> microseconds \<Rightarrow> (idxts \<times> 'e) list \<Rightarrow> (idxts \<times> 'e) list" where
  "selected w p timestamp rs =
     (let passed = filter (passes p (requested_from p timestamp) (length rs)) rs;
          in_period = (if pp_period p = 0 then passed
                       else takeWhile (\<lambda>r. idx_us (fst r) \<le> idx_us (fst (hd passed)) + pp_period p) passed)
      in until_bytes (\<lambda>r. length (entry_text w p r)) (pp_stop_after_bytes p) 0 (up_to (pp_n p) in_period))"

lemma up_to_Cons: "up_to n (x # xs) = x # (if n = 1 then [] else up_to (n - 1) xs)"
  by (cases n) (auto simp: up_to_def)

lemma limited_fixed:
  assumes "pp_period p = 0 \<or> to \<noteq> 0"
  shows "limited w p n sz to rs = until_bytes (\<lambda>r. length (entry_text w p r)) (pp_stop_after_bytes p) sz
    (up_to n (takeWhile (\<lambda>r. to = 0 \<or> idx_us (fst r) \<le> to) rs))"
  using assms
proof (induction rs arbitrary: n sz)
  case (Cons r rs)
  have to: "(if pp_period p \<noteq> 0 \<and> to = 0 then t else to) = to" for t using Cons.prems by auto
  show ?case
  proof (cases "to \<noteq> 0 \<and> idx_us (fst r) > to")
    case True
    then show ?thesis by (auto simp: up_to_def Let_def)
  next
    case False
    then show ?thesis
      using Cons.IH [OF Cons.prems] unfolding limited.simps Let_def to by (auto simp: up_to_Cons)
  qed
qed (simp add: up_to_def)

lemma limited_start:
  assumes "0 \<le> pp_period p" "\<forall>r \<in> set rs. 0 \<le> idx_us (fst r)"
  shows "limited w p n 0 0 rs = until_bytes (\<lambda>r. length (entry_text w p r)) (pp_stop_after_bytes p) 0
    (up_to n (if pp_period p = 0 then rs
              else takeWhile (\<lambda>r. idx_us (fst r) \<le> idx_us (fst (hd rs)) + pp_period p) rs))"
proof (cases "pp_period p = 0")
  case True
  then have "limited w p n 0 0 rs = until_bytes (\<lambda>r. length (entry_text w p r)) (pp_stop_after_bytes p) 0 (up_to n (takeWhile (\<lambda>r. True) rs))"
    by (subst limited_fixed) simp_all
  moreover have "takeWhile (\<lambda>r. True) rs = rs" by (induction rs) simp_all
  ultimately show ?thesis using True by simp
next
  case False
  show ?thesis
  proof (cases rs)
    case (Cons r rs')
    let ?to = "idx_us (fst r) + pp_period p"
    have to: "0 < ?to" using Cons assms False by (auto simp: add_nonneg_pos)
    have "limited w p n 0 0 rs = limited w p n 0 ?to rs" using False to Cons by simp
    also have "\<dots> = until_bytes (\<lambda>r. length (entry_text w p r)) (pp_stop_after_bytes p) 0
        (up_to n (takeWhile (\<lambda>r. idx_us (fst r) \<le> ?to) rs))"
      using to by (subst limited_fixed) auto
    finally show ?thesis using False Cons by simp
  qed (use False in \<open>simp add: up_to_def\<close>)
qed

lemma filter_rest: "(\<forall>x \<in> set (take b xs). \<not> P x) \<Longrightarrow> filter P xs = filter P (drop b xs)"
  by (metis append_Nil append_take_drop_id filter_append filter_empty_conv)

lemma filter_upward: "sorted_wrt (\<lambda>x y. P x \<longrightarrow> P y) xs \<Longrightarrow> filter P xs = dropWhile (\<lambda>x. \<not> P x) xs"
proof (induction xs)
  case (Cons x xs)
  then show ?case by (cases "P x") (auto simp: filter_id_conv)
qed simp

lemma records_index: "r \<in> set (plog_records l) \<Longrightarrow> idx_index (fst r) < length (plog_records l)"
  by (auto simp: in_set_conv_nth plog_records_nth)

lemma records_indexes: "map (\<lambda>r. idx_index (fst r)) (drop b (plog_records l)) = [b..<length (plog_records l)]"
  by (rule nth_equalityI) (auto simp: plog_records_nth)

lemma take_index: "r \<in> set (take b (plog_records l)) \<Longrightarrow> idx_index (fst r) < b"
  by (auto simp: in_set_conv_nth plog_records_nth)

lemma drop_index: "r \<in> set (drop b (plog_records l)) \<Longrightarrow> b \<le> idx_index (fst r)"
proof -
  assume "r \<in> set (drop b (plog_records l))"
  then have "idx_index (fst r) \<in> set (map (\<lambda>r. idx_index (fst r)) (drop b (plog_records l)))" by auto
  then show ?thesis unfolding records_indexes by simp
qed

lemma records_nonneg: "plog_inv l \<Longrightarrow> r \<in> set (plog_records l) \<Longrightarrow> 0 \<le> idx_us (fst r)"
proof -
  assume inv: "plog_inv l" and "r \<in> set (plog_records l)"
  then have "idx_us (fst r) \<in> set (map (\<lambda>r. idx_us (fst r)) (plog_records l))" by auto
  then show ?thesis using inv unfolding map_idx_us_records by (simp add: plog_inv_def)
qed

lemma starts_serving_passes:
  assumes "r \<in> set (plog_records l)" "length (plog_records l) \<le> 2 ^ 64" "pp_tail p \<noteq> uint64_npos"
  shows "starts_serving p from (length (plog_records l) - 1) (fst r) = passes p from (length (plog_records l)) r"
proof -
  let ?i = "idx_index (fst r)" and ?n = "length (plog_records l)"
  have i: "?i < ?n" by (rule records_index [OF assms(1)])
  then have "?n - 1 + 2 ^ 64 - ?i = 2 ^ 64 + (?n - 1 - ?i)" by linarith
  moreover have "(2 ^ 64 + (?n - 1 - ?i)) mod 2 ^ 64 = ?n - 1 - ?i"
    unfolding mod_add_self1 by (rule mod_less) (use assms(2) i in linarith)
  ultimately have "(?n - 1 + 2 ^ 64 - ?i) mod 2 ^ 64 = ?n - 1 - ?i" by simp
  then show ?thesis using i assms(3) by (auto simp: starts_serving_def index_in_range_def passes_def)
qed

lemma lower_bound_le:
  assumes "r \<in> set (plog_records l)" "from \<le> idx_us (fst r)"
  shows "lower_bound (plog_timestamps l) from \<le> idx_index (fst r)"
proof (rule ccontr)
  assume less: "\<not> lower_bound (plog_timestamps l) from \<le> idx_index (fst r)"
  obtain k where k: "k < length (plog_entries l)" "r = plog_records l ! k" using assms(1) by (auto simp: in_set_conv_nth)
  let ?tw = "takeWhile (\<lambda>t. t < from) (plog_timestamps l)"
  have "k < length ?tw" using less k by (simp add: lower_bound_def plog_records_nth)
  then have "?tw ! k < from" using set_takeWhileD [OF nth_mem, of k "\<lambda>t. t < from" "plog_timestamps l"] by blast
  moreover have "?tw ! k = idx_us (fst r)"
    using \<open>k < length ?tw\<close> k by (simp add: takeWhile_nth plog_timestamps_def plog_records_nth)
  ultimately show False using assms(2) by simp
qed

context persister
begin

lemma begin_cases:
  assumes "invar s" "subscription_begin ops s timestamp p = (p', b, from)"
  defines "R \<equiv> plog_records (absl s)"
  shows "r \<in> set R \<Longrightarrow> passes p (requested_from p timestamp) (length R) r \<Longrightarrow> b \<le> idx_index (fst r)"
    "b < length R \<Longrightarrow> p' = p \<and> pp_tail p \<noteq> uint64_npos"
proof -
  have sz: "PersisterSize ops s = length R" by (simp add: size [OF assms(1)] R_def)
  show "b < length R \<Longrightarrow> p' = p \<and> pp_tail p \<noteq> uint64_npos"
    using assms(2) by (auto simp: subscription_begin_def sz Let_def uint64_npos_def split: if_splits)
  assume r: "r \<in> set R" and ok: "passes p (requested_from p timestamp) (length R) r"
  have lb: "min (fst (PersisterIndexRange ops f 0 s)) (length R) \<le> idx_index (fst r)" if "f \<le> idx_us (fst r)" for f
    using lower_bound_le [of r "absl s" f] r that
    by (auto simp: R_def index_range [OF assms(1)] plog_index_range_def Let_def plog_timestamps_def)
  from ok show "b \<le> idx_index (fst r)"
    using assms(2) lb
    by (auto simp: subscription_begin_def sz Let_def passes_def requested_from_def split: if_splits)
qed

lemma served_records:
  assumes inv: "invar s" and bgn: "subscription_begin ops s timestamp p = (p', b, from)"
    and b: "b < length (plog_records (absl s))" and small: "length (plog_records (absl s)) \<le> 2 ^ 64"
  defines "R \<equiv> plog_records (absl s)" and "f \<equiv> requested_from p timestamp"
  shows "(if pp_recent p > 0 \<or> pp_since p > 0 then dropWhile (\<lambda>r. \<not> starts_serving p f (length R - 1) (fst r)) (drop b R)
      else drop b R) = filter (passes p f (length R)) R"
proof -
  note tail = begin_cases(2) [OF inv bgn b]
  have rest: "filter (passes p f (length R)) R = filter (passes p f (length R)) (drop b R)"
  proof (rule filter_rest, rule ballI)
    fix r assume r: "r \<in> set (take b R)"
    then have "idx_index (fst r) < b" using take_index unfolding R_def by blast
    then show "\<not> passes p f (length R) r"
      using begin_cases(1) [OF inv bgn, of r] in_set_takeD [OF r] unfolding R_def f_def by (auto dest: leD)
  qed
  show ?thesis
  proof (cases "pp_recent p > 0 \<or> pp_since p > 0")
    case True
    have us: "sorted_wrt (<) (map (\<lambda>r. idx_us (fst r)) (drop b R))"
    proof -
      have "sorted_wrt (<) (map (\<lambda>r. idx_us (fst r)) R)"
        using invar_plog [OF inv] unfolding R_def map_idx_us_records by (simp add: plog_inv_def)
      from sorted_wrt_drop [OF this, of b] show ?thesis by (simp add: drop_map)
    qed
    have idx: "sorted_wrt (<) (map (\<lambda>r. idx_index (fst r)) (drop b R))"
      unfolding R_def records_indexes by simp
    have "sorted_wrt (\<lambda>x y. passes p f (length R) x \<longrightarrow> passes p f (length R) y) (drop b R)"
      unfolding sorted_wrt_iff_nth_less
    proof (intro allI impI)
      fix i j assume ij: "i < j" "j < length (drop b R)" and ok: "passes p f (length R) (drop b R ! i)"
      from ij sorted_wrt_nth_less [OF us ij(1)] sorted_wrt_nth_less [OF idx ij(1)]
      have "idx_us (fst (drop b R ! i)) < idx_us (fst (drop b R ! j))" "idx_index (fst (drop b R ! i)) < idx_index (fst (drop b R ! j))"
        by simp_all
      with ok show "passes p f (length R) (drop b R ! j)" unfolding passes_def by linarith
    qed
    then have "filter (passes p f (length R)) (drop b R) = dropWhile (\<lambda>r. \<not> passes p f (length R) r) (drop b R)"
      by (rule filter_upward)
    also have "\<dots> = dropWhile (\<lambda>r. \<not> starts_serving p f (length R - 1) (fst r)) (drop b R)"
      using starts_serving_passes [of _ "absl s" p f] small tail
      by (intro dropWhile_cong refl) (auto simp: R_def dest: in_set_dropD)
    finally show ?thesis using True rest by simp
  next
    case False
    have sz: "PersisterSize ops s = length R" by (simp add: size [OF inv] R_def)
    have "passes p f (length R) r" if r: "r \<in> set (drop b R)" for r
      using drop_index [of r b "absl s"] r bgn False tail
      by (auto simp: R_def [symmetric] subscription_begin_def sz Let_def passes_def f_def requested_from_def split: if_splits)
    then have "filter (passes p f (length R)) (drop b R) = drop b R" by (auto simp: filter_id_conv)
    then show ?thesis using False rest by simp
  qed
qed

lemma request_served:
  assumes inv: "invar s" and bgn: "subscription_begin ops s timestamp p = (p', b, from)"
    and b: "b < length (plog_records (absl s))" and small: "length (plog_records (absl s)) \<le> 2 ^ 64"
    and wire: "wire_ok w" and nw: "pp_no_wait p" and per: "0 \<le> pp_period p" and up: "co_left c = None"
    and last: "plog_last (absl s) = Some l"
  defines "R \<equiv> plog_records (absl s)"
  shows "\<exists>ep ps. pass_entries (endpoint_subscriber w checked) l (drop b R)
      (PubSubHTTPEndpointImpl p' timestamp (sender_of c)) = (ResponseDone, ep) \<and> healthy (co_sent c) ep ps \<and>
    concat ps = served_text p False (map (entry_text w p) (selected w p timestamp R))"
proof -
  note tail = begin_cases(2) [OF inv bgn b]
  let ?ep = "PubSubHTTPEndpointImpl p timestamp (sender_of c)" and ?sub = "endpoint_subscriber w checked"
  let ?f = "requested_from p timestamp"
  let ?v = "view_of ?ep"
  have h: "healthy (co_sent c) ?ep []"
    using up sender_of_inv [of kChunkCacheSize c] by (simp add: healthy_def PubSubHTTPEndpointImpl_def sender_of_def)
  have behaves: "behaves (co_sent c) ?ep [] (pass_entries ?sub l (drop b R) ?ep)
      (view_pass w p ?f (idx_index l) (drop b R) ?v)"
  proof (cases checked)
    case True
    then show ?thesis
      using checked.pass_behaves [OF wire h, of ?sub l "drop b R"]
      by (simp add: endpoint_subscriber_def PubSubHTTPEndpointImpl_def)
  next
    case False
    then show ?thesis
      using raw.pass_behaves [OF wire h, of ?sub l "drop b R"]
      by (simp add: endpoint_subscriber_def PubSubHTTPEndpointImpl_def)
  qed
  have l: "idx_index l = length R - 1" "0 < length R"
    using last b by (auto simp: plog_last_def R_def split: if_splits)
  have idx: "map (\<lambda>r. idx_index (fst r)) (drop b R) = [b..<Suc (idx_index l)]" "b \<le> idx_index l"
    using records_indexes [of b "absl s"] b l by (simp_all add: R_def)
  have v: "sv_started ?v = False" "sv_n ?v = pp_n p" "sv_size ?v = 0" "sv_to ?v = 0"
    "sv_serving ?v = (\<not> (pp_recent p > 0 \<or> pp_since p > 0))"
    by (simp_all add: PubSubHTTPEndpointImpl_def)
  have "\<exists>v'. view_pass w p ?f (idx_index l) (drop b R) ?v = (ResponseDone,
      served_text p False (map (entry_text w p) (limited w p (pp_n p) 0 0 (filter (passes p ?f (length R)) R))), v')"
    using view_pass_skipping [OF idx nw, of ?v w ?f] view_pass_serving [OF idx nw, of ?v w ?f]
      served_records [OF inv bgn b small] unfolding v R_def [symmetric] l(1) by (auto split: if_splits)
  moreover have "limited w p (pp_n p) 0 0 (filter (passes p ?f (length R)) R) = selected w p timestamp R"
    using records_nonneg [OF invar_plog [OF inv]]
    by (subst limited_start [OF per]) (simp_all add: selected_def Let_def R_def)
  ultimately show ?thesis using behaves tail by (auto simp: behaves_def)
qed

end

lemma healthy_destroy:
  assumes "healthy t0 ep ps"
  shows "co_sent (sender_destroy (ep_response ep)) = t0 @ chunk_encoding ps @ ''0'' @ kCRLF @ kCRLF"
proof -
  let ?s = "ep_response ep"
  have s: "\<not> cs_can_no_longer_write ?s" "co_left (cs_connection ?s) = None"
    "co_sent (cs_connection ?s) @ cs_cache ?s = t0 @ chunk_encoding ps"
    using assms by (simp_all add: healthy_def sender_inv_def)
  have "co_sent (sender_destroy ?s) = co_sent (cs_connection ?s) @ cs_cache ?s @ ''0'' @ kCRLF @ kCRLF"
    using s(1) by (simp add: sender_destroy_def writes_alive [OF s(2)] del: writes.simps)
  then show ?thesis using s(3) by (metis append.assoc)
qed

subsection \<open>An instance\<close>

definition nat_ts_optidx :: "string \<Rightarrow> (nat option \<times> microseconds) option" where
  "nat_ts_optidx s =
     (case tokens (tl s) of
        [a, b] \<Rightarrow> Some (None, if a = 0 then int b else - int b)
      | [i, a, b] \<Rightarrow> Some (Some i, if a = 0 then int b else - int b)
      | _ \<Rightarrow> None)"

definition nat_wire :: "nat wire" where
  "nat_wire = \<lparr>wire_codec = nat_codec, JSON_ts_only = \<lambda>u. ''{'' @ text_of (print_int u) @ ''}'',
     ParseJSON_ts_only = \<lambda>s. map_option snd (nat_ts_optidx s), ParseJSON_ts_optidx = nat_ts_optidx\<rparr>"

lemma nat_wire_ok: "wire_ok nat_wire"
proof -
  have cr: "CHR 0x0D \<notin> set (text_of ns)" for ns using text_plain [of "CHR 0x0D" ns] by (auto simp: isdigit_def)
  have entry: "text_of [e] \<noteq> []" for e by (simp add: text_of_def)
  show ?thesis
    using nat_codec_ok tokens_text entry cr text_free
    by (simp add: wire_ok_def nat_wire_def nat_codec_def code_codec_def no_control_def nat_ts_optidx_def print_pair_def
        print_nat_def print_int_def)
qed

definition example_schemas :: stream_schemas where
  "example_schemas = \<lparr>schema_as_http_response = ''{}'', schema_simple = ''{}'', schema_language = [],
     schema_format_not_found = \<lambda>f. f\<rparr>"

definition example_request :: http_request where
  "example_request = \<lparr>rq_method = ''GET'', rq_url = url_default\<lparr>url_parameters := [(''i'', ''1''), (''nowait'', [])]\<rparr>,
     rq_url_path_args = \<lparr>upa_base_path = ''/'', upa_args = []\<rparr>, rq_timestamp = 100\<rparr>"

definition example_memory :: "nat memory" where
  "example_memory = \<lparr>mem_entries = [(5, 10), (7, 20), (9, 30)], mem_head = 9\<rparr>"

lemmas example_defs = example_request_def example_memory_def ParsePubSubHTTPRequest_def query_has_def query_get_def
  url_default_def FromString_uint64_def isspace_def isdigit_def digits_value_def digit_value_def us_of_uint64_def
  uint64_npos_def Let_def

subsection \<open>Properties\<close>




definition example_endpoint :: endpoint where
  "example_endpoint =
     (PubSubHTTPEndpointImpl (ParsePubSubHTTPRequest example_request) 100
       \<lparr>cs_connection = \<lparr>co_sent = [], co_left = Some 0\<rparr>, cs_can_no_longer_write = False, cs_cache = ''x''\<rparr>)"


end
