(* ===== verification/Replicator.thy ===== *)
theory Replicator
  imports PubSub
begin

text \<open>
  Following a remote stream: \<^verbatim>\<open>src/stream/replicator.h\<close> up to \<^verbatim>\<open>StreamReplicator\<close>.  The body of the chunked response of
  the remote stream arrives in arbitrary pieces, is cut into lines, and every line is passed to the
  subscriber, which for a replicator publishes it into the local stream.  A call returns \<^const>\<open>None\<close> for undefined
  behaviour, otherwise the new state with the exception it ended with, if any.
\<close>

subsection \<open>Calls that may throw\<close>

datatype remote_exception =
    RemoteStreamMalformedChunkException
  | StreamTerminatedBySubscriber
  | SubscriberException ss_exception

type_synonym 's outcome = "('s \<times> remote_exception option) option"

definition and_then :: "'s outcome \<Rightarrow> ('s \<Rightarrow> 's outcome) \<Rightarrow> 's outcome" where
  "and_then res f = (case res of Some (s, None) \<Rightarrow> f s | _ \<Rightarrow> res)"

definition finish :: "'s \<Rightarrow> 's outcome" where "finish s = Some (s, None)"
definition throw :: "remote_exception \<Rightarrow> 's \<Rightarrow> 's outcome" where "throw x s = Some (s, Some x)"

lemma and_then_simps [simp]:
  "and_then None f = None" "and_then (Some (s, None)) f = f s" "and_then (Some (s, Some x)) f = Some (s, Some x)"
  "and_then (finish s) f = f s" "and_then (throw x s) f = throw x s"
  by (simp_all add: and_then_def finish_def throw_def)

lemma and_then_assoc: "and_then (and_then r f) g = and_then r (\<lambda>s. and_then (f s) g)"
  by (auto simp: and_then_def split: option.splits)

lemma and_then_finish [simp]: "and_then r finish = r"
  by (auto simp: and_then_def finish_def split: option.splits)

subsection \<open>The subscriber of a remote stream\<close>

text \<open>What the user of the subscription provides: the three overloads, and the answer to a termination request.\<close>

record ('u, 'e) remote_user =
  ru_entry :: "'e \<Rightarrow> idxts \<Rightarrow> 'u \<Rightarrow> ('u \<times> (ss_exception + entry_response)) option"
  ru_raw :: "string \<Rightarrow> nat \<Rightarrow> 'u \<Rightarrow> ('u \<times> (ss_exception + entry_response)) option"
  ru_head :: "microseconds \<Rightarrow> 'u \<Rightarrow> ('u \<times> (ss_exception + entry_response)) option"
  ru_terminate :: "'u \<Rightarrow> termination_response"

record 'u remote_subscriber =
  rs_subscriber :: 'u
  rs_next_expected_index :: nat
  rs_from_us :: microseconds
  rs_carried_over_data :: string

definition RemoteStreamSubscriber :: "'u \<Rightarrow> nat \<Rightarrow> microseconds \<Rightarrow> 'u remote_subscriber" where
  "RemoteStreamSubscriber u start_idx from_us =
     \<lparr>rs_subscriber = u, rs_next_expected_index = start_idx, rs_from_us = from_us, rs_carried_over_data = []\<rparr>"

fun is_parse_exception :: "ss_exception \<Rightarrow> bool" where
  "is_parse_exception (InvalidJSONException s) \<longleftrightarrow> True"
| "is_parse_exception _ \<longleftrightarrow> False"

text \<open>A call of the user's overload; \<open>guarded\<close> inside the \<^verbatim>\<open>try\<close> that turns JSON errors into malformed chunks.\<close>

definition call_subscriber ::
  "bool \<Rightarrow> ('u \<times> (ss_exception + entry_response)) option \<Rightarrow> ('u remote_subscriber \<Rightarrow> 'u remote_subscriber) \<Rightarrow>
   'u remote_subscriber \<Rightarrow> 'u remote_subscriber outcome" where
  "call_subscriber guarded res update s =
     (case res of
        None \<Rightarrow> None
      | Some (u, Inl x) \<Rightarrow>
          throw (if guarded \<and> is_parse_exception x then RemoteStreamMalformedChunkException else SubscriberException x)
            (s\<lparr>rs_subscriber := u\<rparr>)
      | Some (u, Inr ResponseDone) \<Rightarrow> throw StreamTerminatedBySubscriber (s\<lparr>rs_subscriber := u\<rparr>)
      | Some (u, Inr ResponseMore) \<Rightarrow> finish (update (s\<lparr>rs_subscriber := u\<rparr>)))"

definition PassEntryToSubscriber_Checked ::
  "'e wire \<Rightarrow> ('u, 'e) remote_user \<Rightarrow> string \<Rightarrow> 'u remote_subscriber \<Rightarrow> 'u remote_subscriber outcome" where
  "PassEntryToSubscriber_Checked w user raw_log_line s =
     (let fields = Split raw_log_line (match_char tab) EmptyFields_Skip in
      if fields = [] then throw RemoteStreamMalformedChunkException s
      else case ParseJSON_ts_optidx w (fields ! 0) of
        None \<Rightarrow> throw RemoteStreamMalformedChunkException s
      | Some (index, us) \<Rightarrow>
          if rs_from_us s > 0 \<and> us < rs_from_us s then throw RemoteStreamMalformedChunkException s
          else case index of
            Some idx \<Rightarrow>
              if length fields \<noteq> 2 \<or> idx \<noteq> rs_next_expected_index s then throw RemoteStreamMalformedChunkException s
              else (case ParseJSON_entry (wire_codec w) (fields ! 1) of
                      None \<Rightarrow> throw RemoteStreamMalformedChunkException s
                    | Some entry \<Rightarrow>
                        call_subscriber True (ru_entry user entry \<lparr>idx_index = idx, idx_us = us\<rparr> (rs_subscriber s))
                          (\<lambda>s. s\<lparr>rs_next_expected_index := rs_next_expected_index s + 1, rs_from_us := 0\<rparr>) s)
          | None \<Rightarrow>
              if length fields \<noteq> 1 then throw RemoteStreamMalformedChunkException s
              else call_subscriber True (ru_head user us (rs_subscriber s)) (\<lambda>s. s\<lparr>rs_from_us := us + 1\<rparr>) s)"

definition PassEntryToSubscriber_Unchecked ::
  "'e wire \<Rightarrow> ('u, 'e) remote_user \<Rightarrow> string \<Rightarrow> 'u remote_subscriber \<Rightarrow> 'u remote_subscriber outcome" where
  "PassEntryToSubscriber_Unchecked w user raw_log_line s =
     (if tab \<in> set raw_log_line
      then call_subscriber False (ru_raw user raw_log_line (rs_next_expected_index s) (rs_subscriber s))
             (\<lambda>s. s\<lparr>rs_next_expected_index := rs_next_expected_index s + 1, rs_from_us := 0\<rparr>) s
      else case ParseJSON_ts_only w raw_log_line of
             None \<Rightarrow> throw RemoteStreamMalformedChunkException s
           | Some us \<Rightarrow> call_subscriber True (ru_head user us (rs_subscriber s)) (\<lambda>s. s\<lparr>rs_from_us := us + 1\<rparr>) s)"

datatype replication_mode = ReplicationMode_Checked | ReplicationMode_Unchecked

definition PassEntryToSubscriber ::
  "'e wire \<Rightarrow> replication_mode \<Rightarrow> ('u, 'e) remote_user \<Rightarrow> string \<Rightarrow> 'u remote_subscriber \<Rightarrow> 'u remote_subscriber outcome" where
  "PassEntryToSubscriber w rm user raw_log_line s =
     (case rm of
        ReplicationMode_Checked \<Rightarrow> PassEntryToSubscriber_Checked w user raw_log_line s
      | ReplicationMode_Unchecked \<Rightarrow> PassEntryToSubscriber_Unchecked w user raw_log_line s)"

text \<open>The loop over the complete lines of a chunk, from \<^verbatim>\<open>begin_pos\<close> on.\<close>

definition is_eol :: "char \<Rightarrow> bool" where
  "is_eol c \<longleftrightarrow> c = newline \<or> c = CHR 0x0D"

function pass_lines ::
  "'e wire \<Rightarrow> replication_mode \<Rightarrow> ('u, 'e) remote_user \<Rightarrow> string \<Rightarrow> 'u remote_subscriber \<Rightarrow> 'u remote_subscriber outcome" where
  "pass_lines w rm user chunk s =
     (let chunk = dropWhile is_eol chunk in
      if chunk = [] then finish s
      else let line = takeWhile (\<lambda>c. \<not> is_eol c) chunk; after = dropWhile (\<lambda>c. \<not> is_eol c) chunk in
           if after = [] then finish (s\<lparr>rs_carried_over_data := chunk\<rparr>)
           else and_then (PassEntryToSubscriber w rm user line s) (\<lambda>s. pass_lines w rm user (tl after) s))"
  by auto

lemma line_shorter:
  "dropWhile (\<lambda>c. \<not> is_eol c) (dropWhile is_eol chunk) \<noteq> [] \<Longrightarrow>
   length (tl (dropWhile (\<lambda>c. \<not> is_eol c) (dropWhile is_eol chunk))) < length chunk"
  using length_dropWhile_le [of "\<lambda>c. \<not> is_eol c" "dropWhile is_eol chunk"] length_dropWhile_le [of is_eol chunk]
  by (cases "dropWhile (\<lambda>c. \<not> is_eol c) (dropWhile is_eol chunk)") auto

lemma and_then_cong [fundef_cong]:
  "r = r' \<Longrightarrow> (\<And>s. r' = Some (s, None) \<Longrightarrow> f s = g s) \<Longrightarrow> and_then r f = and_then r' g"
  by (auto simp: and_then_def split: option.splits)

termination pass_lines
proof (relation "measure (\<lambda>(w, rm, user, chunk, s). length chunk)", goal_cases)
  case (2 w rm user chunk s chunk' line after s')
  then show ?case using line_shorter [of chunk] by (simp only: in_measure prod.case) blast
qed simp

declare pass_lines.simps [simp del]

definition PassChunkToSubscriber ::
  "'e wire \<Rightarrow> replication_mode \<Rightarrow> ('u, 'e) remote_user \<Rightarrow> string \<Rightarrow> 'u remote_subscriber \<Rightarrow> 'u remote_subscriber outcome" where
  "PassChunkToSubscriber w rm user chunk s =
     (if rs_carried_over_data s \<noteq> [] then
        let rest = dropWhile (\<lambda>c. \<not> is_eol c) chunk in
        if rest = [] then finish (s\<lparr>rs_carried_over_data := rs_carried_over_data s @ chunk\<rparr>)
        else and_then (PassEntryToSubscriber w rm user (rs_carried_over_data s @ takeWhile (\<lambda>c. \<not> is_eol c) chunk) s)
               (\<lambda>s. pass_lines w rm user rest (s\<lparr>rs_carried_over_data := []\<rparr>))
      else pass_lines w rm user chunk s)"

fun pass_chunks ::
  "'e wire \<Rightarrow> replication_mode \<Rightarrow> ('u, 'e) remote_user \<Rightarrow> string list \<Rightarrow> 'u remote_subscriber \<Rightarrow> 'u remote_subscriber outcome" where
  "pass_chunks w rm user [] s = finish s"
| "pass_chunks w rm user (c # cs) s = and_then (PassChunkToSubscriber w rm user c s) (pass_chunks w rm user cs)"

subsection \<open>Chunks may be cut anywhere\<close>

text \<open>The same work one character at a time.\<close>

definition feed_char ::
  "'e wire \<Rightarrow> replication_mode \<Rightarrow> ('u, 'e) remote_user \<Rightarrow> char \<Rightarrow> 'u remote_subscriber \<Rightarrow> 'u remote_subscriber outcome" where
  "feed_char w rm user c s =
     (if \<not> is_eol c then finish (s\<lparr>rs_carried_over_data := rs_carried_over_data s @ [c]\<rparr>)
      else if rs_carried_over_data s = [] then finish s
      else and_then (PassEntryToSubscriber w rm user (rs_carried_over_data s) s) (\<lambda>s. finish (s\<lparr>rs_carried_over_data := []\<rparr>)))"

fun feed ::
  "'e wire \<Rightarrow> replication_mode \<Rightarrow> ('u, 'e) remote_user \<Rightarrow> string \<Rightarrow> 'u remote_subscriber \<Rightarrow> 'u remote_subscriber outcome" where
  "feed w rm user [] s = finish s"
| "feed w rm user (c # cs) s = and_then (feed_char w rm user c s) (feed w rm user cs)"

text \<open>After an exception the thread forgets the line it was reading (\<^verbatim>\<open>carried_over_data_.clear()\<close>).\<close>

definition settle :: "'u remote_subscriber outcome \<Rightarrow> 'u remote_subscriber outcome" where
  "settle res =
     (case res of Some (s, Some x) \<Rightarrow> Some (s\<lparr>rs_carried_over_data := []\<rparr>, Some x) | _ \<Rightarrow> res)"

lemma settle_simps [simp]:
  "settle None = None" "settle (Some (s, None)) = Some (s, None)" "settle (finish s) = finish s"
  "settle (throw x s) = throw x (s\<lparr>rs_carried_over_data := []\<rparr>)"
  by (simp_all add: settle_def finish_def throw_def)

lemma settle_and_then:
  assumes "settle a = settle b" "\<And>s. settle (f s) = settle (g s)"
  shows "settle (and_then a f) = settle (and_then b g)"
proof (cases "\<exists>s. a = Some (s, None)")
  case True
  then obtain s where "a = Some (s, None)" "b = Some (s, None)"
    using assms(1) by (auto simp: settle_def split: option.splits)
  then show ?thesis by (simp add: assms(2))
next
  case False
  then have "and_then a f = a" "and_then b g = b"
    using assms(1) by (auto simp: settle_def and_then_def split: option.splits)
  then show ?thesis by (simp add: assms(1))
qed

text \<open>Passing a line neither reads nor writes the carried data.\<close>

definition carry :: "string \<Rightarrow> 'u remote_subscriber outcome \<Rightarrow> 'u remote_subscriber outcome" where
  "carry d res = map_option (\<lambda>(s, x). (s\<lparr>rs_carried_over_data := d\<rparr>, x)) res"

lemma call_subscriber_carry:
  "(\<And>s. update (s\<lparr>rs_carried_over_data := d\<rparr>) = (update s)\<lparr>rs_carried_over_data := d\<rparr>) \<Longrightarrow>
   call_subscriber guarded res update (s\<lparr>rs_carried_over_data := d\<rparr>) = carry d (call_subscriber guarded res update s)"
proof -
  assume update: "\<And>s. update (s\<lparr>rs_carried_over_data := d\<rparr>) = (update s)\<lparr>rs_carried_over_data := d\<rparr>"
  have swap: "s\<lparr>rs_carried_over_data := d, rs_subscriber := u\<rparr> = s\<lparr>rs_subscriber := u, rs_carried_over_data := d\<rparr>" for u by simp
  have "update (s\<lparr>rs_carried_over_data := d, rs_subscriber := u\<rparr>) = (update (s\<lparr>rs_subscriber := u\<rparr>))\<lparr>rs_carried_over_data := d\<rparr>" for u
    by (simp only: swap update)
  then show ?thesis
    by (auto simp: call_subscriber_def carry_def throw_def finish_def split: option.split sum.split entry_response.split)
qed

lemma PassEntry_carry:
  "PassEntryToSubscriber w rm user line (s\<lparr>rs_carried_over_data := d\<rparr>) = carry d (PassEntryToSubscriber w rm user line s)"
  by (cases rm)
    (auto simp: PassEntryToSubscriber_def PassEntryToSubscriber_Checked_def PassEntryToSubscriber_Unchecked_def Let_def
      call_subscriber_carry throw_def carry_def split: option.split)

lemma settle_and_then_carry:
  "settle (and_then (carry d r) (\<lambda>s. f (s\<lparr>rs_carried_over_data := d'\<rparr>))) =
   settle (and_then r (\<lambda>s. f (s\<lparr>rs_carried_over_data := d'\<rparr>)))"
  "settle (and_then (carry d r) f) = settle (and_then r (\<lambda>s. f (s\<lparr>rs_carried_over_data := d\<rparr>)))"
  by (auto simp: and_then_def carry_def settle_def split: option.split)

lemma feed_append: "feed w rm user (xs @ ys) s = and_then (feed w rm user xs s) (feed w rm user ys)"
proof (induction xs arbitrary: s)
  case (Cons c xs)
  have "feed w rm user (xs @ ys) = (\<lambda>s. and_then (feed w rm user xs s) (feed w rm user ys))" by (rule ext) (rule Cons)
  then show ?case by (simp add: and_then_assoc)
qed simp

lemma feed_line_part:
  "\<forall>c \<in> set xs. \<not> is_eol c \<Longrightarrow>
   feed w rm user xs s = finish (s\<lparr>rs_carried_over_data := rs_carried_over_data s @ xs\<rparr>)"
  by (induction xs arbitrary: s) (simp_all add: feed_char_def)

lemma feed_eols: "\<forall>c \<in> set xs. is_eol c \<Longrightarrow> rs_carried_over_data s = [] \<Longrightarrow> feed w rm user xs s = finish s"
  by (induction xs arbitrary: s) (simp_all add: feed_char_def)

text \<open>Completing a line: what is read before it is all that matters of the carried data.\<close>

lemma feed_complete:
  assumes "\<forall>c \<in> set xs. \<not> is_eol c" "is_eol c" "rs_carried_over_data s @ xs \<noteq> []"
  shows "settle (feed w rm user (xs @ c # ys) s) =
    settle (and_then (PassEntryToSubscriber w rm user (rs_carried_over_data s @ xs) s)
      (\<lambda>s. feed w rm user ys (s\<lparr>rs_carried_over_data := []\<rparr>)))"
proof -
  let ?d = "rs_carried_over_data s @ xs"
  have "feed w rm user (xs @ c # ys) s = and_then (feed_char w rm user c (s\<lparr>rs_carried_over_data := ?d\<rparr>)) (feed w rm user ys)"
    using assms(1) by (simp add: feed_append feed_line_part)
  also have "\<dots> = and_then (carry ?d (PassEntryToSubscriber w rm user ?d s)) (\<lambda>s. feed w rm user ys (s\<lparr>rs_carried_over_data := []\<rparr>))"
    using assms(2,3) by (auto simp: feed_char_def PassEntry_carry and_then_assoc)
  finally show ?thesis by (simp add: settle_and_then_carry)
qed

lemma pass_lines_feed:
  "rs_carried_over_data s = [] \<Longrightarrow> settle (pass_lines w rm user chunk s) = settle (feed w rm user chunk s)"
proof (induction "length chunk" arbitrary: chunk s rule: less_induct)
  case less
  define rest where "rest = dropWhile is_eol chunk"
  define line where "line = takeWhile (\<lambda>c. \<not> is_eol c) rest"
  define after where "after = dropWhile (\<lambda>c. \<not> is_eol c) rest"
  have chunk: "chunk = takeWhile is_eol chunk @ rest" by (simp add: rest_def)
  have rest: "rest = line @ after" by (simp add: line_def after_def)
  have line: "\<forall>c \<in> set line. \<not> is_eol c" by (auto simp: line_def dest: set_takeWhileD)
  have skip: "feed w rm user chunk s = feed w rm user rest s"
    using less.prems by (subst chunk, subst feed_append, subst feed_eols) (auto dest: set_takeWhileD)
  have unfold: "pass_lines w rm user chunk s =
      (if rest = [] then finish s
       else if after = [] then finish (s\<lparr>rs_carried_over_data := rest\<rparr>)
       else and_then (PassEntryToSubscriber w rm user line s) (\<lambda>s. pass_lines w rm user (tl after) s))"
    by (subst pass_lines.simps) (simp add: rest_def line_def after_def Let_def)
  show ?case
  proof (cases "after = []")
    case True
    then have "feed w rm user rest s = finish (s\<lparr>rs_carried_over_data := rest\<rparr>)"
      using line rest less.prems by (simp add: feed_line_part)
    moreover have "rest = [] \<Longrightarrow> s\<lparr>rs_carried_over_data := rest\<rparr> = s" using less.prems by simp
    ultimately show ?thesis using True unfolding unfold skip by simp
  next
    case False
    then obtain c ys where after: "after = c # ys" by (cases after) auto
    have c: "is_eol c"
      using after dropWhile_eq_Cons_conv [of "\<lambda>c. \<not> is_eol c" rest c ys] by (simp add: after_def)
    have ne: "rest \<noteq> []" using False rest by auto
    then have "\<not> is_eol (hd rest)" using hd_dropWhile [of is_eol chunk] by (simp add: rest_def)
    then have line_ne: "line \<noteq> []" using ne by (cases rest) (auto simp: line_def)
    have "length chunk = length (takeWhile is_eol chunk) + length rest" by (subst chunk) simp
    then have short: "length ys < length chunk" using rest after by simp
    have "settle (feed w rm user rest s) =
        settle (and_then (PassEntryToSubscriber w rm user line s) (\<lambda>s. feed w rm user ys (s\<lparr>rs_carried_over_data := []\<rparr>)))"
      using feed_complete [OF line c, of s w rm user ys] line_ne less.prems rest after by simp
    also have "\<dots> = settle (and_then (PassEntryToSubscriber w rm user line s) (\<lambda>s. pass_lines w rm user ys (s\<lparr>rs_carried_over_data := []\<rparr>)))"
      by (rule settle_and_then) (simp_all add: less.hyps [OF short])
    also have "\<dots> = settle (and_then (PassEntryToSubscriber w rm user line s) (pass_lines w rm user ys))"
    proof -
      have "s\<lparr>rs_carried_over_data := []\<rparr> = s" using less.prems by simp
      then have "PassEntryToSubscriber w rm user line s = carry [] (PassEntryToSubscriber w rm user line s)"
        using PassEntry_carry [where s = s and d = "[]"] by metis
      then show ?thesis using settle_and_then_carry(2) [of "[]" "PassEntryToSubscriber w rm user line s" "pass_lines w rm user ys"] by simp
    qed
    finally show ?thesis using False ne after unfolding unfold skip by simp
  qed
qed

lemma PassChunk_feed: "settle (PassChunkToSubscriber w rm user chunk s) = settle (feed w rm user chunk s)"
proof (cases "rs_carried_over_data s = []")
  case True
  then show ?thesis by (simp add: PassChunkToSubscriber_def pass_lines_feed)
next
  case False
  define line where "line = takeWhile (\<lambda>c. \<not> is_eol c) chunk"
  define after where "after = dropWhile (\<lambda>c. \<not> is_eol c) chunk"
  have chunk: "chunk = line @ after" by (simp add: line_def after_def)
  have line: "\<forall>c \<in> set line. \<not> is_eol c" by (auto simp: line_def dest: set_takeWhileD)
  show ?thesis
  proof (cases after)
    case Nil
    then show ?thesis
      using False line chunk by (simp add: PassChunkToSubscriber_def feed_line_part after_def [symmetric])
  next
    case (Cons c ys)
    have c: "is_eol c"
      using Cons dropWhile_eq_Cons_conv [of "\<lambda>c. \<not> is_eol c" chunk c ys] by (simp add: after_def)
    have eol: "feed w rm user (c # ys) (s\<lparr>rs_carried_over_data := []\<rparr>) = feed w rm user ys (s\<lparr>rs_carried_over_data := []\<rparr>)" for s
      using c by (simp add: feed_char_def)
    have "settle (feed w rm user chunk s) = settle (and_then (PassEntryToSubscriber w rm user (rs_carried_over_data s @ line) s)
        (\<lambda>s. feed w rm user (c # ys) (s\<lparr>rs_carried_over_data := []\<rparr>)))"
      unfolding eol using feed_complete [OF line c, of s w rm user ys] False by (simp add: chunk Cons)
    also have "\<dots> = settle (and_then (PassEntryToSubscriber w rm user (rs_carried_over_data s @ line) s)
        (\<lambda>s. pass_lines w rm user (c # ys) (s\<lparr>rs_carried_over_data := []\<rparr>)))"
      by (rule settle_and_then) (simp_all add: pass_lines_feed del: feed.simps)
    finally show ?thesis
      using False Cons by (simp add: PassChunkToSubscriber_def Let_def after_def [symmetric] line_def [symmetric])
  qed
qed

lemma pass_chunks_feed: "settle (pass_chunks w rm user cs s) = settle (feed w rm user (concat cs) s)"
proof (induction cs arbitrary: s)
  case (Cons c cs)
  have "settle (pass_chunks w rm user (c # cs) s) = settle (and_then (feed w rm user c s) (feed w rm user (concat cs)))"
    unfolding pass_chunks.simps by (rule settle_and_then) (rule PassChunk_feed, rule Cons)
  then show ?case by (simp add: feed_append)
qed simp

subsection \<open>The remote stream\<close>

definition GetURLToSubscribe :: "string \<Rightarrow> nat \<Rightarrow> microseconds \<Rightarrow> bool \<Rightarrow> string" where
  "GetURLToSubscribe url index from_us checked =
     url @ ''?i='' @ to_string_nat index @ (if checked then ''&checked'' else []) @
     (if from_us > 0 then ''&since='' @ to_string from_us else [])"

definition GetURLToTerminate :: "string \<Rightarrow> string \<Rightarrow> string" where
  "GetURLToTerminate url subscription_id = url @ ''?terminate='' @ subscription_id"

definition GetFlipToMasterURL :: "string \<Rightarrow> head_optidxts \<Rightarrow> nat \<Rightarrow> microseconds \<Rightarrow> bool \<Rightarrow> string" where
  "GetFlipToMasterURL url head_idxts key now checked =
     url @ ''/control/flip_to_master?'' @
     (case hoi_idxts head_idxts of Some i \<Rightarrow> ''i='' @ to_string_nat (idx_index i) | None \<Rightarrow> []) @
     ''&head='' @ to_string (hoi_head head_idxts) @ ''&key='' @ to_string_nat key @ ''&clock='' @ to_string now @
     (if checked then ''&checked'' else [])"

text \<open>The reply of the HTTP client to a \<^verbatim>\<open>GET\<close>: an exception, or the code and the body.\<close>

type_synonym http_reply = "(int \<times> string) option"

datatype schema_check = SchemaOK | SchemaInvalid | SchemaNoResponse

definition CheckSchema :: "(string \<Rightarrow> bool) \<Rightarrow> http_reply \<Rightarrow> schema_check" where
  "CheckSchema same_schema reply =
     (case reply of
        Some (code, body) \<Rightarrow> if code = 200 then if same_schema body then SchemaOK else SchemaInvalid else SchemaNoResponse
      | None \<Rightarrow> SchemaNoResponse)"

subsection \<open>The thread\<close>

text \<open>
  One iteration of the loop of \<^verbatim>\<open>ThreadImpl\<close> meets a schema reply, a header with the id of the subscription, and chunks; the
  termination of the subscription may be requested before it or while chunks arrive.
  \<^verbatim>\<open>consecutive_malformed_chunks_count_\<close> is a 32-bit number that the constructor leaves uninitialized.
\<close>

record attempt =
  at_terminate_requested :: bool
  at_schema_reply :: http_reply
  at_headers :: "(string \<times> string) list"
  at_chunks :: "string list"
  at_chunks_after_termination :: "string list"

record 'u remote_thread =
  rt_subscriber :: "'u remote_subscriber"
  rt_terminate_sent :: bool
  rt_subscription_id :: string
  rt_malformed_count :: nat

definition OnHeader :: "string \<times> string \<Rightarrow> 'u remote_thread \<Rightarrow> 'u remote_thread" where
  "OnHeader h t =
     (if fst h = ''X-Current-Stream-Subscription-Id'' then t\<lparr>rt_subscription_id := snd h\<rparr> else t)"

definition OnChunk ::
  "'e wire \<Rightarrow> replication_mode \<Rightarrow> ('u, 'e) remote_user \<Rightarrow> bool \<Rightarrow> string \<Rightarrow> 'u remote_thread \<Rightarrow> 'u remote_thread outcome" where
  "OnChunk w rm user terminate_requested chunk t =
     (if terminate_requested then finish t
      else case PassChunkToSubscriber w rm user chunk (rt_subscriber t) of
             None \<Rightarrow> None
           | Some (s, Some x) \<Rightarrow> throw x (t\<lparr>rt_subscriber := s\<rparr>)
           | Some (s, None) \<Rightarrow> finish (t\<lparr>rt_subscriber := s, rt_malformed_count := 0\<rparr>))"

fun on_chunks ::
  "'e wire \<Rightarrow> replication_mode \<Rightarrow> ('u, 'e) remote_user \<Rightarrow> bool \<Rightarrow> string list \<Rightarrow> 'u remote_thread \<Rightarrow> 'u remote_thread outcome" where
  "on_chunks w rm user requested [] t = finish t"
| "on_chunks w rm user requested (c # cs) t = and_then (OnChunk w rm user requested c t) (on_chunks w rm user requested cs)"

text \<open>The state after the iteration, and whether the thread is done.\<close>

definition clear_connection :: "'u remote_thread \<Rightarrow> 'u remote_thread" where
  "clear_connection t =
     t\<lparr>rt_subscriber := (rt_subscriber t)\<lparr>rs_carried_over_data := []\<rparr>, rt_subscription_id := []\<rparr>"

definition thread_iteration ::
  "'e wire \<Rightarrow> replication_mode \<Rightarrow> ('u, 'e) remote_user \<Rightarrow> (string \<Rightarrow> bool) \<Rightarrow> attempt \<Rightarrow> 'u remote_thread \<Rightarrow>
   ('u remote_thread \<times> bool) option" where
  "thread_iteration w rm user same_schema a t =
     (let asked = (\<not> rt_terminate_sent t \<and> at_terminate_requested a);
          t = (if asked then t\<lparr>rt_terminate_sent := True\<rparr> else t) in
      if asked \<and> ru_terminate user (rs_subscriber (rt_subscriber t)) \<noteq> TerminationWait then Some (t, True)
      else if CheckSchema same_schema (at_schema_reply a) \<noteq> SchemaOK then Some (clear_connection t, False)
      else
        case and_then (on_chunks w rm user (at_terminate_requested a) (at_chunks a) (fold OnHeader (at_headers a) t))
               (on_chunks w rm user True (at_chunks_after_termination a)) of
          None \<Rightarrow> None
        | Some (t, None) \<Rightarrow> Some (clear_connection t, False)
        | Some (t, Some StreamTerminatedBySubscriber) \<Rightarrow> Some (t, True)
        | Some (t, Some RemoteStreamMalformedChunkException) \<Rightarrow>
            Some (clear_connection (t\<lparr>rt_malformed_count := (rt_malformed_count t + 1) mod 2 ^ 32\<rparr>), False)
        | Some (t, Some (SubscriberException x)) \<Rightarrow> Some (clear_connection t, False))"

subsection \<open>The replicator\<close>

text \<open>
  \<^verbatim>\<open>StreamReplicatorImpl\<close> publishes into the stream it follows, through the publisher it has borrowed.  Publishing a raw
  line is an operation of the persister, \<open>unsafe\<close> below.
\<close>

definition PublisherPublishUnsafeImpl ::
  "(string \<Rightarrow> 's \<Rightarrow> ss_exception + idxts \<times> 's) \<Rightarrow> nat \<Rightarrow> string \<Rightarrow> 's stream_state \<Rightarrow>
   (ss_exception + idxts \<times> 's stream_state) option" where
  "PublisherPublishUnsafeImpl unsafe g raw_log_line st =
     (if g \<noteq> str_generation st then None
      else Some (map_sum id (map_prod id (\<lambda>s. st\<lparr>str_persister := s\<rparr>)) (unsafe raw_log_line (str_persister st))))"

definition replicated ::
  "'s stream_state \<Rightarrow> (ss_exception + 's stream_state) option \<Rightarrow> ('s stream_state \<times> (ss_exception + entry_response)) option" where
  "replicated st res =
     map_option (\<lambda>r. case r of Inl x \<Rightarrow> (st, Inl x) | Inr st' \<Rightarrow> (st', Inr ResponseMore)) res"

definition StreamReplicatorImpl ::
  "('s, 'e) persister_ops \<Rightarrow> (string \<Rightarrow> 's \<Rightarrow> ss_exception + idxts \<times> 's) \<Rightarrow> nat \<Rightarrow> ('s stream_state, 'e) remote_user" where
  "StreamReplicatorImpl ops unsafe publisher =
     \<lparr>ru_entry = \<lambda>e current st. replicated st (map_option (map_sum id snd) (PublisherPublishImpl ops publisher e (idx_us current) st)),
      ru_raw = \<lambda>line index st. replicated st (map_option (map_sum id snd) (PublisherPublishUnsafeImpl unsafe publisher line st)),
      ru_head = \<lambda>us st. replicated st (PublisherUpdateHeadImpl ops publisher us st),
      ru_terminate = \<lambda>st. TerminationTerminate\<rparr>"

subsection \<open>Reading a master's text\<close>

fun event_body :: "'e wire \<Rightarrow> 'e trace_event \<Rightarrow> string" where
  "event_body w (TraceEntry i e) = log_line (wire_codec w) i e"
| "event_body w (TraceHead u) = JSON_ts_only w u"

definition events_text :: "'e wire \<Rightarrow> 'e trace_event list \<Rightarrow> string" where
  "events_text w evs = concat (map (\<lambda>ev. event_body w ev @ [newline]) evs)"

text \<open>What reading the events does to the log of the follower: it stops at the first event it cannot accept.\<close>

fun replay_events :: "'e trace_event list \<Rightarrow> 'e plog \<Rightarrow> 'e plog \<times> bool" where
  "replay_events [] l = (l, True)"
| "replay_events (TraceEntry i e # evs) l =
     (if idx_index i = length (plog_entries l) \<and> plog_head l < idx_us i
      then replay_events evs \<lparr>plog_entries = plog_entries l @ [(idx_us i, e)], plog_head = idx_us i\<rparr>
      else (l, False))"
| "replay_events (TraceHead u # evs) l =
     (if plog_head l < u then replay_events evs (l\<lparr>plog_head := u\<rparr>) else (l, False))"

lemma event_body_plain:
  assumes "wire_ok w"
  shows "\<forall>c \<in> set (event_body w ev). \<not> is_eol c" "event_body w ev \<noteq> []"
  using assms by (cases ev; auto simp: wire_ok_def no_control_def is_eol_def log_line_def)+

lemma wire_split:
  assumes "wire_ok w"
  shows "Split (log_line (wire_codec w) i e) (match_char tab) EmptyFields_Skip = [JSON_idxts (wire_codec w) i, JSON_entry (wire_codec w) e]"
    "Split (JSON_ts_only w u) (match_char tab) EmptyFields_Skip = [JSON_ts_only w u]"
    "tab \<in> set (log_line (wire_codec w) i e)" "tab \<notin> set (JSON_ts_only w u)"
proof -
  have j: "tab \<notin> set (JSON_idxts (wire_codec w) i)" "JSON_idxts (wire_codec w) i \<noteq> []" "tab \<notin> set (JSON_entry (wire_codec w) e)"
    "JSON_entry (wire_codec w) e \<noteq> []" "tab \<notin> set (JSON_ts_only w u)" "JSON_ts_only w u \<noteq> []"
    using assms by (auto simp: wire_ok_def codec_ok_def no_control_def)
  have e: "split_loop EmptyFields_Skip (match_char tab) [] (JSON_entry (wire_codec w) e) = [JSON_entry (wire_codec w) e]"
    using j by (subst split_loop_plain) (auto simp: match_char_def)
  show "Split (log_line (wire_codec w) i e) (match_char tab) EmptyFields_Skip = [JSON_idxts (wire_codec w) i, JSON_entry (wire_codec w) e]"
    unfolding Split_def log_line_def using j e by (subst split_loop_field) (auto simp: match_char_def)
  show "Split (JSON_ts_only w u) (match_char tab) EmptyFields_Skip = [JSON_ts_only w u]"
    unfolding Split_def using j by (subst split_loop_plain) (auto simp: match_char_def)
  show "tab \<in> set (log_line (wire_codec w) i e)" "tab \<notin> set (JSON_ts_only w u)" using j by (simp_all add: log_line_def)
qed

text \<open>The state of a follower: the log it has, and the position it asks the master to continue from.\<close>

definition log_of :: "('s \<Rightarrow> 'e plog) \<Rightarrow> 's stream_state remote_subscriber \<Rightarrow> 'e plog" where
  "log_of absl s = absl (str_persister (rs_subscriber s))"

definition following :: "('s \<Rightarrow> bool) \<Rightarrow> ('s \<Rightarrow> 'e plog) \<Rightarrow> nat \<Rightarrow> 's stream_state remote_subscriber \<Rightarrow> bool" where
  "following invar absl g s \<longleftrightarrow> str_generation (rs_subscriber s) = g \<and> invar (str_persister (rs_subscriber s)) \<and>
     rs_next_expected_index s = length (plog_entries (log_of absl s)) \<and>
     (rs_from_us s \<le> 0 \<or> rs_from_us s = plog_head (log_of absl s) + 1)"

text \<open>The outcome of reading: the log of the follower, and an exception exactly when the reading stopped early.\<close>

definition reads ::
  "('s \<Rightarrow> bool) \<Rightarrow> ('s \<Rightarrow> 'e plog) \<Rightarrow> nat \<Rightarrow> 's stream_state remote_subscriber outcome \<Rightarrow> string \<Rightarrow> 'e plog \<times> bool \<Rightarrow> bool" where
  "reads invar absl g res carried spec \<longleftrightarrow>
     (\<exists>s x. res = Some (s, x) \<and> (x = None \<longleftrightarrow> snd spec) \<and> following invar absl g s \<and> log_of absl s = fst spec \<and>
        (x = None \<longrightarrow> rs_carried_over_data s = carried) \<and> x \<noteq> Some StreamTerminatedBySubscriber)"

text \<open>
  A persister that a replicator can publish into: the raw line of the next entry is published as the entry itself.
\<close>

locale replica = persister ops invar absl
  for ops :: "('s, 'e) persister_ops" and invar :: "'s \<Rightarrow> bool" and absl :: "'s \<Rightarrow> 'e plog" +
  fixes w :: "'e wire" and unsafe :: "string \<Rightarrow> 's \<Rightarrow> ss_exception + idxts \<times> 's"
  assumes unsafe_line: "codec_ok (wire_codec w) \<Longrightarrow> invar s \<Longrightarrow> idx_index i = PersisterSize ops s \<Longrightarrow>
      unsafe (log_line (wire_codec w) i e) s = PersisterPublish ops e (idx_us i) s"
    and unsafe_index: "codec_ok (wire_codec w) \<Longrightarrow> invar s \<Longrightarrow> idx_index i \<noteq> PersisterSize ops s \<Longrightarrow>
      \<exists>x. unsafe (log_line (wire_codec w) i e) s = Inl x"
begin

lemma publish_call:
  assumes "str_generation st = g" "invar (str_persister st)"
  shows "plog_head (absl (str_persister st)) < u \<Longrightarrow>
    \<exists>s. ru_entry (StreamReplicatorImpl ops unsafe g) e \<lparr>idx_index = n, idx_us = u\<rparr> st = Some (st\<lparr>str_persister := s\<rparr>, Inr ResponseMore) \<and>
      invar s \<and> absl s = \<lparr>plog_entries = plog_entries (absl (str_persister st)) @ [(u, e)], plog_head = u\<rparr>"
    "\<not> plog_head (absl (str_persister st)) < u \<Longrightarrow>
     \<exists>x. ru_entry (StreamReplicatorImpl ops unsafe g) e \<lparr>idx_index = n, idx_us = u\<rparr> st = Some (st, Inl x) \<and> \<not> is_parse_exception x"
proof -
  assume less: "plog_head (absl (str_persister st)) < u"
  obtain s' where "PersisterPublish ops e u (str_persister st) =
      Inr (\<lparr>idx_index = length (plog_entries (absl (str_persister st))), idx_us = u\<rparr>, s')" "invar s'"
    "absl s' = \<lparr>plog_entries = plog_entries (absl (str_persister st)) @ [(u, e)], plog_head = u\<rparr>"
    by (rule publish_succeeds [OF assms(2) less])
  then show "\<exists>s. ru_entry (StreamReplicatorImpl ops unsafe g) e \<lparr>idx_index = n, idx_us = u\<rparr> st = Some (st\<lparr>str_persister := s\<rparr>, Inr ResponseMore) \<and>
      invar s \<and> absl s = \<lparr>plog_entries = plog_entries (absl (str_persister st)) @ [(u, e)], plog_head = u\<rparr>"
    using assms(1) by (auto simp: StreamReplicatorImpl_def PublisherPublishImpl_def replicated_def)
next
  assume "\<not> plog_head (absl (str_persister st)) < u"
  then have "PersisterPublish ops e u (str_persister st) = Inl (InconsistentTimestampException (plog_head (absl (str_persister st)) + 1) u)"
    by (intro publish_fails assms(2)) simp
  then show "\<exists>x. ru_entry (StreamReplicatorImpl ops unsafe g) e \<lparr>idx_index = n, idx_us = u\<rparr> st = Some (st, Inl x) \<and> \<not> is_parse_exception x"
    using assms(1) by (simp add: StreamReplicatorImpl_def PublisherPublishImpl_def replicated_def)
qed

lemma raw_call:
  assumes "codec_ok (wire_codec w)" "str_generation st = g" "invar (str_persister st)"
  shows "idx_index i = length (plog_entries (absl (str_persister st))) \<Longrightarrow>
      ru_raw (StreamReplicatorImpl ops unsafe g) (log_line (wire_codec w) i e) n st =
      ru_entry (StreamReplicatorImpl ops unsafe g) e i st"
    "idx_index i \<noteq> length (plog_entries (absl (str_persister st))) \<Longrightarrow>
      \<exists>x. ru_raw (StreamReplicatorImpl ops unsafe g) (log_line (wire_codec w) i e) n st = Some (st, Inl x)"
  using unsafe_line [OF assms(1,3), of i e] unsafe_index [OF assms(1,3), of i e] assms(2) size [OF assms(3)]
  by (auto simp: StreamReplicatorImpl_def PublisherPublishImpl_def PublisherPublishUnsafeImpl_def replicated_def)

lemma head_call:
  assumes "str_generation st = g" "invar (str_persister st)" "u \<le> int64_max"
  shows "plog_head (absl (str_persister st)) < u \<Longrightarrow>
    \<exists>s. ru_head (StreamReplicatorImpl ops unsafe g) u st = Some (st\<lparr>str_persister := s\<rparr>, Inr ResponseMore) \<and>
      invar s \<and> absl s = (absl (str_persister st))\<lparr>plog_head := u\<rparr>"
    "\<not> plog_head (absl (str_persister st)) < u \<Longrightarrow>
     \<exists>x. ru_head (StreamReplicatorImpl ops unsafe g) u st = Some (st, Inl x)"
proof -
  consider x where "PersisterUpdateHead ops u (str_persister st) = Inl x"
      "plog_update_head u (absl (str_persister st)) = Inl x"
    | s where "PersisterUpdateHead ops u (str_persister st) = Inr s" "invar s"
      "plog_update_head u (absl (str_persister st)) = Inr (absl s)"
    using update_head_err [OF assms(2), of u] update_head_ok [OF assms(2,3)] by (cases "PersisterUpdateHead ops u (str_persister st)") auto
  note c = this
  show "plog_head (absl (str_persister st)) < u \<Longrightarrow>
    \<exists>s. ru_head (StreamReplicatorImpl ops unsafe g) u st = Some (st\<lparr>str_persister := s\<rparr>, Inr ResponseMore) \<and>
      invar s \<and> absl s = (absl (str_persister st))\<lparr>plog_head := u\<rparr>"
    by (cases rule: c)
      (use assms(1) in \<open>auto simp: StreamReplicatorImpl_def PublisherUpdateHeadImpl_def replicated_def plog_update_head_def\<close>)
  show "\<not> plog_head (absl (str_persister st)) < u \<Longrightarrow>
     \<exists>x. ru_head (StreamReplicatorImpl ops unsafe g) u st = Some (st, Inl x)"
    by (cases rule: c)
      (use assms(1) in \<open>auto simp: StreamReplicatorImpl_def PublisherUpdateHeadImpl_def replicated_def plog_update_head_def\<close>)
qed

text \<open>One line.\<close>

lemma reads_throw:
  "following invar absl g s \<Longrightarrow> log_of absl s = l \<Longrightarrow> x \<noteq> StreamTerminatedBySubscriber \<Longrightarrow> reads invar absl g (throw x s) d (l, False)"
  by (auto simp: reads_def throw_def)

lemma pass_event:
  assumes wire: "wire_ok w" and f: "following invar absl g s" and big: "trace_us ev \<le> int64_max"
  shows "reads invar absl g (PassEntryToSubscriber w rm (StreamReplicatorImpl ops unsafe g) (event_body w ev) s)
    (rs_carried_over_data s) (replay_events [ev] (log_of absl s))"
proof -
  let ?st = "rs_subscriber s" and ?l = "log_of absl s" and ?user = "StreamReplicatorImpl ops unsafe g"
  have st: "str_generation ?st = g" "invar (str_persister ?st)" "rs_next_expected_index s = length (plog_entries ?l)"
    "rs_from_us s \<le> plog_head ?l + 1"
    using f invar_plog [of "str_persister ?st"] by (auto simp: following_def plog_inv_def log_of_def)
  have cd: "codec_ok (wire_codec w)" using wire by (simp add: wire_ok_def)
  show ?thesis
  proof (cases ev)
    case (TraceEntry i e)
    have opt: "ParseJSON_ts_optidx w (JSON_idxts (wire_codec w) i) = Some (Some (idx_index i), idx_us i)"
      using wire by (simp add: wire_ok_def)
    have i: "\<lparr>idx_index = idx_index i, idx_us = idx_us i\<rparr> = i" by simp
    let ?call = "\<lambda>guarded. call_subscriber guarded (ru_entry ?user e i ?st)
      (\<lambda>s. s\<lparr>rs_next_expected_index := rs_next_expected_index s + 1, rs_from_us := 0\<rparr>) s"
    have call: "reads invar absl g (?call guarded) (rs_carried_over_data s) (replay_events [ev] ?l)" if "idx_index i = length (plog_entries ?l)" for guarded
    proof (cases "plog_head ?l < idx_us i")
      case True
      from publish_call(1) [OF st(1,2), of "idx_us i" e "idx_index i"] True obtain p where
        p: "ru_entry ?user e i ?st = Some (?st\<lparr>str_persister := p\<rparr>, Inr ResponseMore)" "invar p"
        "absl p = \<lparr>plog_entries = plog_entries ?l @ [(idx_us i, e)], plog_head = idx_us i\<rparr>"
        by (auto simp: log_of_def i)
      then show ?thesis
        using True that p st(1,3) by (auto simp: TraceEntry reads_def call_subscriber_def finish_def following_def log_of_def)
    next
      case False
      from publish_call(2) [OF st(1,2), of "idx_us i" e "idx_index i"] False obtain x where
        "ru_entry ?user e i ?st = Some (?st, Inl x)" by (auto simp: log_of_def i)
      then show ?thesis
        using False reads_throw [OF f refl] by (simp add: TraceEntry call_subscriber_def)
    qed
    show ?thesis
    proof (cases rm)
      case ReplicationMode_Checked
      have pass: "PassEntryToSubscriber w rm ?user (event_body w ev) s =
        (if rs_from_us s > 0 \<and> idx_us i < rs_from_us s \<or> idx_index i \<noteq> rs_next_expected_index s
         then throw RemoteStreamMalformedChunkException s else ?call True)"
        using ReplicationMode_Checked opt codec_okD(2) [OF cd, of e]
        by (cases i) (simp add: TraceEntry PassEntryToSubscriber_def PassEntryToSubscriber_Checked_def wire_split [OF wire] Let_def)
      show ?thesis
        unfolding pass using reads_throw [OF f refl] call [of True] st(3,4)
        by (auto simp: TraceEntry)
    next
      case ReplicationMode_Unchecked
      have pass: "PassEntryToSubscriber w rm ?user (event_body w ev) s =
        call_subscriber False (ru_raw ?user (log_line (wire_codec w) i e) (rs_next_expected_index s) ?st)
          (\<lambda>s. s\<lparr>rs_next_expected_index := rs_next_expected_index s + 1, rs_from_us := 0\<rparr>) s"
        using ReplicationMode_Unchecked
        by (simp add: TraceEntry PassEntryToSubscriber_def PassEntryToSubscriber_Unchecked_def wire_split [OF wire])
      show ?thesis
      proof (cases "idx_index i = length (plog_entries ?l)")
        case True
        then show ?thesis
          unfolding pass using call [of False] raw_call(1) [OF cd st(1,2)] by (simp add: log_of_def)
      next
        case False
        then obtain x where "ru_raw ?user (log_line (wire_codec w) i e) (rs_next_expected_index s) ?st = Some (?st, Inl x)"
          using raw_call(2) [OF cd st(1,2), of i e "rs_next_expected_index s"] by (auto simp: log_of_def)
        then show ?thesis
          unfolding pass using False reads_throw [OF f refl] by (simp add: TraceEntry call_subscriber_def)
      qed
    qed
  next
    case (TraceHead u)
    have opt: "ParseJSON_ts_optidx w (JSON_ts_only w u) = Some (None, u)" "ParseJSON_ts_only w (JSON_ts_only w u) = Some u"
      using wire by (simp_all add: wire_ok_def)
    let ?call = "call_subscriber True (ru_head ?user u ?st) (\<lambda>s. s\<lparr>rs_from_us := u + 1\<rparr>) s"
    have call: "reads invar absl g ?call (rs_carried_over_data s) (replay_events [ev] ?l)"
    proof (cases "plog_head ?l < u")
      case True
      with head_call(1) [OF st(1,2), of u] big obtain p where
        "ru_head ?user u ?st = Some (?st\<lparr>str_persister := p\<rparr>, Inr ResponseMore)" "invar p" "absl p = ?l\<lparr>plog_head := u\<rparr>"
        by (auto simp: TraceHead log_of_def)
      then show ?thesis
        using True st(1,3) by (auto simp: TraceHead reads_def call_subscriber_def finish_def following_def log_of_def)
    next
      case False
      with head_call(2) [OF st(1,2), of u] big obtain x where "ru_head ?user u ?st = Some (?st, Inl x)"
        by (auto simp: TraceHead log_of_def)
      then show ?thesis
        using False reads_throw [OF f refl] by (simp add: TraceHead call_subscriber_def)
    qed
    have "PassEntryToSubscriber w rm ?user (event_body w ev) s =
        (if rm = ReplicationMode_Checked \<and> rs_from_us s > 0 \<and> u < rs_from_us s
         then throw RemoteStreamMalformedChunkException s else ?call)"
      using opt by (cases rm)
        (simp_all add: TraceHead PassEntryToSubscriber_def PassEntryToSubscriber_Checked_def
          PassEntryToSubscriber_Unchecked_def wire_split [OF wire] Let_def)
    then show ?thesis
      using reads_throw [OF f refl] call st(4) by (auto simp: TraceHead)
  qed
qed

text \<open>All lines, and a last one that is incomplete.\<close>

lemma feed_events:
  assumes "wire_ok w" "following invar absl g s" "\<forall>ev \<in> set evs. trace_us ev \<le> int64_max" "rs_carried_over_data s = []"
    "\<forall>c \<in> set tail. \<not> is_eol c"
  shows "reads invar absl g (settle (feed w rm (StreamReplicatorImpl ops unsafe g) (events_text w evs @ tail) s)) tail
    (replay_events evs (log_of absl s))"
  using assms(2-4)
proof (induction evs arbitrary: s)
  case Nil
  then show ?case
    using assms(5) by (auto simp: events_text_def feed_line_part reads_def finish_def following_def log_of_def)
next
  case (Cons ev evs)
  let ?user = "StreamReplicatorImpl ops unsafe g"
  note plain = event_body_plain [OF assms(1)]
  have "settle (feed w rm ?user (events_text w (ev # evs) @ tail) s) =
      settle (and_then (PassEntryToSubscriber w rm ?user (event_body w ev) s)
        (\<lambda>s. feed w rm ?user (events_text w evs @ tail) (s\<lparr>rs_carried_over_data := []\<rparr>)))"
    using feed_complete [OF plain(1), of newline s ev w rm ?user "events_text w evs @ tail"] plain(2) Cons.prems(3)
    by (simp add: events_text_def is_eol_def)
  moreover from pass_event [OF assms(1) Cons.prems(1), of ev rm] Cons.prems(2)
  obtain s' x where p: "PassEntryToSubscriber w rm ?user (event_body w ev) s = Some (s', x)"
    "(x = None) = snd (replay_events [ev] (log_of absl s))" "following invar absl g s'"
    "log_of absl s' = fst (replay_events [ev] (log_of absl s))" "x \<noteq> Some StreamTerminatedBySubscriber"
    by (auto simp: reads_def)
  have step: "replay_events (ev # evs) l = (case replay_events [ev] l of (l', ok) \<Rightarrow> if ok then replay_events evs l' else (l', False))" for l
    by (cases ev) auto
  let ?s = "s'\<lparr>rs_carried_over_data := []\<rparr>"
  have f: "following invar absl g ?s" "log_of absl ?s = log_of absl s'" using p(3) by (simp_all add: following_def log_of_def)
  show ?case
  proof (cases x)
    case None
    then have ok: "snd (replay_events [ev] (log_of absl s))" using p(2) by simp
    have "reads invar absl g (settle (feed w rm ?user (events_text w evs @ tail) ?s)) tail (replay_events evs (log_of absl s'))"
      using Cons.IH [OF f(1)] Cons.prems(2) f(2) by simp
    then show ?thesis
      using calculation p(1,4) None ok unfolding step by (simp add: split_beta)
  next
    case (Some y)
    then have "\<not> snd (replay_events [ev] (log_of absl s))" using p(2) by simp
    then show ?thesis
      using calculation p(1,4,5) Some f unfolding step by (simp add: split_beta settle_def reads_def)
  qed
qed

end

text \<open>Any initial part of a text consists of complete lines and the beginning of the next one.\<close>

lemma text_prefix:
  assumes "wire_ok w"
  shows "\<exists>k tail. take n (events_text w evs) = events_text w (take k evs) @ tail \<and> (\<forall>c \<in> set tail. \<not> is_eol c) \<and>
    (length (events_text w evs) \<le> n \<longrightarrow> k = length evs)"
proof (induction evs arbitrary: n)
  case (Cons ev evs)
  define line where "line = event_body w ev @ [newline]"
  have cons: "events_text w (ev # xs) = line @ events_text w xs" for xs by (simp add: events_text_def line_def)
  show ?case
  proof (cases "length line \<le> n")
    case True
    obtain k tail where k: "take (n - length line) (events_text w evs) = events_text w (take k evs) @ tail" "\<forall>c \<in> set tail. \<not> is_eol c"
      "length (events_text w evs) \<le> n - length line \<longrightarrow> k = length evs"
      using Cons [of "n - length line"] by blast
    have "take n (events_text w (ev # evs)) = events_text w (take (Suc k) (ev # evs)) @ tail"
      using True k(1) by (simp add: cons)
    then show ?thesis using k(2,3) True by (intro exI [of _ "Suc k"] exI [of _ tail]) (auto simp: cons)
  next
    case False
    then have "take n (events_text w (ev # evs)) = events_text w (take 0 (ev # evs)) @ take n (event_body w ev)"
      by (simp add: cons) (simp add: events_text_def line_def)
    moreover have "\<forall>c \<in> set (take n (event_body w ev)). \<not> is_eol c"
      using event_body_plain(1) [OF assms, of ev] by (auto dest: in_set_takeD)
    moreover have "\<not> length (events_text w (ev # evs)) \<le> n" using False by (simp add: cons)
    ultimately show ?thesis by blast
  qed
qed (simp add: events_text_def)

subsection \<open>The follower stays a past state of the master\<close>

text \<open>The events a subscriber of the master may have seen, after the log \<open>l\<close>, while the master has the log \<open>R\<close>.\<close>

definition events_of :: "'e plog \<Rightarrow> 'e plog \<Rightarrow> 'e trace_event list \<Rightarrow> bool" where
  "events_of R l evs \<longleftrightarrow> sorted_wrt (<) (map trace_us evs) \<and>
     (\<exists>m. trace_entries evs = take m (drop (length (plog_entries l)) (plog_records R)) \<and>
          (\<forall>ev \<in> set evs. trace_us ev \<le> plog_head R \<and>
            (\<forall>r \<in> set (drop (length (plog_entries l) + m) (plog_records R)). trace_us ev < idx_us (fst r))))"

lemma extends_entry:
  assumes inv: "plog_inv R" and ext: "plog_extends l R" and n: "length (plog_entries l) < length (plog_entries R)"
    and r: "plog_records R ! length (plog_entries l) = (i, e)"
  shows "idx_index i = length (plog_entries l)" "plog_head l < idx_us i"
    "plog_extends \<lparr>plog_entries = plog_entries l @ [(idx_us i, e)], plog_head = idx_us i\<rparr> R"
proof -
  let ?n = "length (plog_entries l)"
  obtain rs where rs: "plog_records R = plog_records l @ rs" "\<And>r. r \<in> set rs \<Longrightarrow> plog_head l < idx_us (fst r)"
    using ext by (auto simp: plog_extends_def)
  have drop: "rs = drop ?n (plog_records R)" using rs(1) by simp
  have cons: "rs = (i, e) # drop (Suc ?n) (plog_records R)"
    unfolding drop using n r Cons_nth_drop_Suc [of ?n "plog_records R"] by simp
  show i: "idx_index i = ?n" using plog_records_nth [OF n] r by (auto simp: prod_eq_iff)
  show "plog_head l < idx_us i" using rs(2) [of "(i, e)"] cons by simp
  have sorted: "sorted_wrt (<) (map (\<lambda>r. idx_us (fst r)) (plog_records R))"
    using inv unfolding map_idx_us_records by (simp add: plog_inv_def)
  have "map (\<lambda>r. idx_us (fst r)) rs = drop ?n (map (\<lambda>r. idx_us (fst r)) (plog_records R))" by (simp add: drop drop_map)
  then have "sorted_wrt (<) (map (\<lambda>r. idx_us (fst r)) rs)" using sorted_wrt_drop [OF sorted] by simp
  then have later: "\<forall>r \<in> set (drop (Suc ?n) (plog_records R)). idx_us i < idx_us (fst r)" unfolding cons by simp
  have "idx_us i \<in> set (plog_timestamps R)"
    using nth_mem [of ?n "plog_records R"] n r unfolding map_idx_us_records [symmetric] by force
  then have "idx_us i \<le> plog_head R" using inv by (simp add: plog_inv_def)
  moreover have "plog_records R = plog_records \<lparr>plog_entries = plog_entries l @ [(idx_us i, e)], plog_head = idx_us i\<rparr> @
      drop (Suc ?n) (plog_records R)"
  proof -
    have "\<lparr>idx_index = ?n, idx_us = idx_us i\<rparr> = i" using i by (cases i) simp
    then show ?thesis unfolding plog_records_snoc using rs(1) cons by simp
  qed
  ultimately show "plog_extends \<lparr>plog_entries = plog_entries l @ [(idx_us i, e)], plog_head = idx_us i\<rparr> R"
    using later unfolding plog_extends_def by auto
qed

lemma extends_head:
  assumes ext: "plog_extends l R" and u: "u \<le> plog_head R" "\<forall>r \<in> set (drop (length (plog_entries l)) (plog_records R)). u < idx_us (fst r)"
  shows "plog_extends (l\<lparr>plog_head := u\<rparr>) R"
proof -
  obtain rs where rs: "plog_records R = plog_records l @ rs" by (rule plog_extendsE [OF ext])
  then have "rs = drop (length (plog_entries l)) (plog_records R)" by simp
  then show ?thesis using rs u unfolding plog_extends_def by (auto simp: plog_records_def)
qed

lemma in_take_or_drop: "x \<in> set xs \<Longrightarrow> x \<in> set (take m xs) \<or> x \<in> set (drop m xs)"
  by (metis Un_iff append_take_drop_id set_append)

lemma replay_extends:
  assumes "plog_inv R" "plog_extends l R" "events_of R l evs"
  shows "plog_extends (fst (replay_events evs l)) R"
  using assms(2,3)
proof (induction evs arbitrary: l)
  case (Cons ev evs)
  from Cons.prems(2) obtain m where
    m: "trace_entries (ev # evs) = take m (drop (length (plog_entries l)) (plog_records R))"
      "\<forall>x \<in> set (ev # evs). trace_us x \<le> plog_head R \<and>
        (\<forall>r \<in> set (drop (length (plog_entries l) + m) (plog_records R)). trace_us x < idx_us (fst r))"
    and sorted: "sorted_wrt (<) (map trace_us (ev # evs))"
    by (auto simp: events_of_def)
  show ?case
  proof (cases ev)
    case (TraceEntry i e)
    then obtain m' where m': "m = Suc m'" using m(1) by (cases m) auto
    have n: "length (plog_entries l) < length (plog_entries R)"
    proof -
      have "drop (length (plog_entries l)) (plog_records R) \<noteq> []" using m(1) by (auto simp: TraceEntry m')
      then show ?thesis by simp
    qed
    have drop: "drop (length (plog_entries l)) (plog_records R) =
        plog_records R ! length (plog_entries l) # drop (Suc (length (plog_entries l))) (plog_records R)"
      using n by (simp add: Cons_nth_drop_Suc)
    have r: "plog_records R ! length (plog_entries l) = (i, e)"
      and rest: "trace_entries evs = take m' (drop (Suc (length (plog_entries l))) (plog_records R))"
      using m(1) unfolding drop m' TraceEntry by simp_all
    note entry = extends_entry [OF assms(1) Cons.prems(1) n r]
    have "events_of R \<lparr>plog_entries = plog_entries l @ [(idx_us i, e)], plog_head = idx_us i\<rparr> evs"
      using sorted rest m(2) by (auto simp: events_of_def m' intro!: exI [of _ m'])
    from Cons.IH [OF entry(3) this] show ?thesis using entry(1,2) by (simp add: TraceEntry)
  next
    case (TraceHead u)
    show ?thesis
    proof (cases "plog_head l < u")
      case True
      have "\<forall>r \<in> set (drop (length (plog_entries l)) (plog_records R)). u < idx_us (fst r)"
      proof
        fix r assume "r \<in> set (drop (length (plog_entries l)) (plog_records R))"
        then have "r \<in> set (trace_entries evs) \<or> r \<in> set (drop (length (plog_entries l) + m) (plog_records R))"
          using m(1) in_take_or_drop [of r "drop (length (plog_entries l)) (plog_records R)" m]
          by (simp add: TraceHead add.commute)
        then show "u < idx_us (fst r)"
        proof
          assume r: "r \<in> set (trace_entries evs)"
          have "TraceEntry (fst r) (snd r) \<in> set evs" using r by (induction evs rule: trace_entries.induct) auto
          moreover have "\<forall>x \<in> set evs. u < trace_us x" using sorted by (simp add: TraceHead)
          ultimately show ?thesis by fastforce
        qed (use m(2) in \<open>simp add: TraceHead\<close>)
      qed
      then have ext: "plog_extends (l\<lparr>plog_head := u\<rparr>) R"
        using extends_head [OF Cons.prems(1)] m(2) by (simp add: TraceHead)
      have "events_of R (l\<lparr>plog_head := u\<rparr>) evs"
        using sorted m by (auto simp: events_of_def TraceHead intro!: exI [of _ m])
      from Cons.IH [OF ext this] show ?thesis using True by (simp add: TraceHead)
    qed (use Cons.prems(1) in \<open>simp add: TraceHead\<close>)
  qed
qed simp

subsection \<open>What the master sends\<close>

text \<open>
  A request for entries from an index on, and no more: what \<^verbatim>\<open>GetURLToSubscribe\<close> asks for.
\<close>

definition plain_request :: "pubsub_params \<Rightarrow> bool" where
  "plain_request p \<longleftrightarrow> pp_recent p = 0 \<and> pp_tail p = 0 \<and> pp_n p = 0 \<and> pp_period p = 0 \<and> \<not> pp_no_wait p \<and>
     pp_stop_after_bytes p = 0 \<and> \<not> pp_entries_only p \<and> \<not> pp_array p"

text \<open>The endpoint starts to serve with the first entry at the index and time requested, or the first head at the time.\<close>

fun event_starts :: "pubsub_params \<Rightarrow> 'e trace_event \<Rightarrow> bool" where
  "event_starts p (TraceEntry i e) \<longleftrightarrow> \<not> 0 < pp_since p \<or> pp_i p \<le> idx_index i \<and> pp_since p \<le> idx_us i"
| "event_starts p (TraceHead u) \<longleftrightarrow> \<not> 0 < pp_since p \<or> pp_since p \<le> u"

definition served_events :: "pubsub_params \<Rightarrow> 'e trace_event list \<Rightarrow> 'e trace_event list" where
  "served_events p tr = dropWhile (\<lambda>ev. \<not> event_starts p ev) tr"

lemma served_events_snoc:
  "served_events p (tr @ [ev]) =
     (if served_events p tr \<noteq> [] \<or> event_starts p ev then served_events p tr @ [ev] else [])"
  by (auto simp: served_events_def dropWhile_append dropWhile_eq_Nil_conv)

text \<open>The state of the endpoint after the calls of a trace, on a connection that stays up.\<close>

definition endpoint_sent :: "'e wire \<Rightarrow> string \<Rightarrow> pubsub_params \<Rightarrow> endpoint \<Rightarrow> 'e trace_event list \<Rightarrow> bool" where
  "endpoint_sent w t0 p ep tr \<longleftrightarrow> ep_params ep = p \<and> ep_from_timestamp ep = (if 0 < pp_since p then pp_since p else 0) \<and>
     ep_n ep = 0 \<and> ep_to_timestamp ep = 0 \<and>
     ep_serving ep = (\<not> 0 < pp_since p \<or> served_events p tr \<noteq> []) \<and>
     (\<exists>ps. healthy t0 ep ps \<and> concat ps = events_text w (served_events p tr))"

lemma events_text_append [simp]: "events_text w (xs @ ys) = events_text w xs @ events_text w ys"
  by (simp add: events_text_def)

lemma endpoint_sent_entry:
  assumes wire: "wire_ok w" and req: "plain_request p" and sent: "endpoint_sent w t0 p ep tr"
    and call: "sub_entry (endpoint_subscriber w checked) e i l ep = (r, ep')"
  shows "r = ResponseMore \<and> endpoint_sent w t0 p ep' (tr @ [TraceEntry i e])"
proof -
  obtain ps where ps: "healthy t0 ep ps" "concat ps = events_text w (served_events p tr)"
    and ep: "ep_params ep = p" "ep_from_timestamp ep = (if 0 < pp_since p then pp_since p else 0)" "ep_n ep = 0" "ep_to_timestamp ep = 0"
      "ep_serving ep = (\<not> 0 < pp_since p \<or> served_events p tr \<noteq> [])"
    using sent by (auto simp: endpoint_sent_def)
  let ?v = "view_of ep" and ?ev = "TraceEntry i e"
  let ?serves = "ep_serving ep \<or> event_starts p ?ev"
  have starts: "starts_serving p (ep_from_timestamp ep) (idx_index l) i \<longleftrightarrow>
      (if 0 < pp_since p then event_starts p ?ev else pp_i p \<le> idx_index i)"
    using req ep(2) by (auto simp: starts_serving_def index_in_range_def plain_request_def)
  have view: "with_closing p (view_entry w p (ep_from_timestamp ep) (idx_index l) (i, e) ?v) =
      (if ?serves then (ResponseMore, event_body w ?ev @ [newline], ?v\<lparr>sv_serving := True,
           sv_size := sv_size ?v + length (event_body w ?ev @ [newline])\<rparr>)
       else (ResponseMore, [], ?v))"
  proof -
    have serves: "sv_serving ?v \<or> starts_serving p (ep_from_timestamp ep) (idx_index l) i \<longleftrightarrow> ?serves"
      using ep(5) starts by (cases "0 < pp_since p") simp_all
    have req': "pp_n p = 0" "pp_period p = 0" "\<not> pp_no_wait p" "pp_stop_after_bytes p = 0" "\<not> pp_entries_only p" "\<not> pp_array p"
      using req by (simp_all add: plain_request_def)
    have "view_serve w p (idx_index l) (i, e) (?v\<lparr>sv_serving := True\<rparr>) = (ResponseMore, event_body w ?ev @ [newline],
        ?v\<lparr>sv_serving := True, sv_size := sv_size ?v + length (event_body w ?ev @ [newline])\<rparr>)"
      using req' ep(3,4)
      by (simp add: view_serve_def view_send_def not_serving_response_def entry_text_def separator_text_def Let_def view_of_def)
    then show ?thesis
      using req' serves by (simp add: view_entry_def with_closing_def not_serving_response_def)
  qed
  have "behaves t0 ep ps (sub_entry (endpoint_subscriber w checked) e i l ep)
      (with_closing p (view_entry w p (ep_from_timestamp ep) (idx_index l) (i, e) ?v))"
    using entry_checked_behaves [OF ps(1), of w e i l] entry_raw_behaves [OF wire ps(1), of i e l] ep(1)
    by (simp add: endpoint_subscriber_def)
  then obtain qs where r: "r = ResponseMore" and b: "view_of ep' = (if ?serves then ?v\<lparr>sv_serving := True,
           sv_size := sv_size ?v + length (event_body w ?ev @ [newline])\<rparr> else ?v)"
    "ep_params ep' = p" "ep_from_timestamp ep' = ep_from_timestamp ep" "healthy t0 ep' (ps @ qs)"
    "concat qs = (if ?serves then event_body w ?ev @ [newline] else [])"
    unfolding call view by (cases ?serves) (auto simp: behaves_def ep(1))
  have served: "served_events p (tr @ [?ev]) = (if ?serves then served_events p tr @ [?ev] else served_events p tr)"
    using ep(5) by (auto simp: served_events_snoc)
  have fields: "ep_n ep' = 0" "ep_to_timestamp ep' = 0" "ep_serving ep' = (ep_serving ep \<or> ?serves)"
    using arg_cong [OF b(1), of sv_n] arg_cong [OF b(1), of sv_to] arg_cong [OF b(1), of sv_serving] ep(3,4) by auto
  show ?thesis
    unfolding endpoint_sent_def served
    using r b(2-5) ep(2,5) fields ps(2) by (auto intro!: exI [of _ "ps @ qs"] simp: events_text_def)
qed

lemma endpoint_sent_head:
  fixes w :: "'e wire"
  assumes req: "plain_request p" and sent: "endpoint_sent w t0 p ep tr"
    and call: "sub_head (endpoint_subscriber w checked) u ep = (r, ep')"
  shows "r = ResponseMore \<and> endpoint_sent w t0 p ep' (tr @ [TraceHead u])"
proof -
  obtain ps where ps: "healthy t0 ep ps" "concat ps = events_text w (served_events p tr)"
    and ep: "ep_params ep = p" "ep_from_timestamp ep = (if 0 < pp_since p then pp_since p else 0)" "ep_n ep = 0" "ep_to_timestamp ep = 0"
      "ep_serving ep = (\<not> 0 < pp_since p \<or> served_events p tr \<noteq> [])"
    using sent by (auto simp: endpoint_sent_def)
  let ?ev = "TraceHead u :: 'e trace_event" and ?ep = "ep\<lparr>ep_serving := True\<rparr>"
  let ?serves = "ep_serving ep \<or> event_starts p ?ev"
  have run: "\<not> ep_time_to_terminate ep" using ps(1) by (simp add: healthy_def)
  have served: "served_events p (tr @ [?ev]) = (if ?serves then served_events p tr @ [?ev] else served_events p tr)"
    using ep(5) by (auto simp: served_events_snoc)
  show ?thesis
  proof (cases ?serves)
    case True
    have "healthy t0 ?ep ps" using ps(1) by simp
    then obtain s where s: "unguarded_response (JSON_ts_only w u @ [newline]) ResponseMore ?ep = (ResponseMore, ?ep\<lparr>ep_response := s\<rparr>)"
      "healthy t0 (?ep\<lparr>ep_response := s\<rparr>) (ps @ [JSON_ts_only w u @ [newline]])" by (rule unguarded_healthy)
    have same: "(if \<not> ep_serving ep \<and> ep_from_timestamp ep > 0 \<and> u \<ge> ep_from_timestamp ep then ?ep else ep) = ?ep"
      using True ep(2,5) by auto
    have "head_update w u ep = (ResponseMore, ?ep\<lparr>ep_response := s\<rparr>)"
      using run req ep(1,4) s(1) unfolding head_update_def Let_def same by (simp add: plain_request_def set_to_timestamp_def)
    then have "r = ResponseMore" "ep' = ?ep\<lparr>ep_response := s\<rparr>" using call by (simp_all add: endpoint_subscriber_def)
    then show ?thesis
      using True s(2) ep ps(2) unfolding endpoint_sent_def served
      by (auto intro!: exI [of _ "ps @ [JSON_ts_only w u @ [newline]]"] simp: events_text_def)
  next
    case False
    then have "head_update w u ep = (ResponseMore, ep)" using run ep(2) by (auto simp: head_update_def Let_def)
    then show ?thesis using call sent False served by (simp add: endpoint_subscriber_def endpoint_sent_def)
  qed
qed

text \<open>An invariant of the user of a subscription, while no termination is requested.\<close>

lemma reachable_user:
  assumes "subscription_reachable ops sub b w0 w" "sn_thread w0 = thread_init b from_us u0" "P u0 []"
    and all: "\<And>e. sub_matches sub e"
    and entry: "\<And>u tr e i l r u'. P u tr \<Longrightarrow> sub_entry sub e i l u = (r, u') \<Longrightarrow> P u' (tr @ [TraceEntry i e])"
    and head: "\<And>u tr us r u'. P u tr \<Longrightarrow> sub_head sub us u = (r, u') \<Longrightarrow> P u' (tr @ [TraceHead us])"
  shows "\<not> sn_signal w \<Longrightarrow> P (th_user (sn_thread w)) (th_trace (sn_thread w))"
  using assms(1)
proof induction
  case reachable_init
  then show ?case using assms(2,3) by (simp add: thread_init_def)
next
  case (reachable_step w w')
  from reachable_step.hyps(2) show ?case
  proof cases
    case (step_thread th)
    let ?t = "sn_thread w"
    have quiet: "\<not> sn_signal w" using reachable_step.prems step_thread(1) by simp
    then have IH: "P (th_user ?t) (th_trace ?t)" using reachable_step.IH by simp
    have ct: "check_terminate sub (sn_signal w) ?t = (False, ?t)" using quiet by (simp add: check_terminate_def)
    have "P (th_user th) (th_trace th)"
    proof (cases "th_pc ?t")
      case AtLoop
      then show ?thesis
        using step_thread(2) IH ct
        by (auto simp: thread_step_def loop_step_def Let_def split: option.splits sum.splits if_splits)
    next
      case (Passing es sz last_us hd)
      show ?thesis
      proof (cases es)
        case Nil
        then show ?thesis using step_thread(2) IH Passing by (auto simp: thread_step_def)
      next
        case (Cons x xs)
        obtain r u' where call: "hoi_idxts (PersisterHeadAndLast ops (sn_persister w)) = Some l \<Longrightarrow>
            sub_entry sub (snd x) (fst x) l (th_user ?t) = (r l, u' l)" for l
          using that [of "\<lambda>l. fst (sub_entry sub (snd x) (fst x) l (th_user ?t))"
              "\<lambda>l. snd (sub_entry sub (snd x) (fst x) l (th_user ?t))"] by simp
        show ?thesis
          using step_thread(2) IH ct Passing Cons all call entry [OF IH, of "snd x" "fst x"]
          by (auto simp: thread_step_def pass_step_def PassEntryToSubscriberIfTypeMatches_def split: option.splits)
      qed
    next
      case (Notifying sz hd)
      then show ?thesis
        using step_thread(2) IH head [OF IH, of hd]
        by (cases "sub_head sub hd (th_user ?t)") (auto simp: thread_step_def notify_step_def split: if_splits)
    qed (use step_thread(2) IH in \<open>auto simp: thread_step_def split: if_splits\<close>)
    then show ?thesis using step_thread(1) by simp
  qed (use reachable_step in auto)
qed

subsection \<open>Properties\<close>

text \<open>
  C35: Chunks.  However the body of a response is cut into chunks, the subscriber gets the same lines in the same order
  and ends in the same state, with the same exception if there is one, as if the body came in one chunk.
\<close>

theorem chunks_cut_anywhere:
  "settle (pass_chunks w rm user cs s) = settle (PassChunkToSubscriber w rm user (concat cs) s)"
  by (simp add: pass_chunks_feed PassChunk_feed)

end
