(* ===== verification/FollowerLog.thy ===== *)
theory FollowerLog
  imports Replicator
begin

text \<open>
  What a follower makes of the text that a subscription of the master has sent: the events a subscriber sees, relative to
  the log the follower has; the effect of one iteration of the follower's thread on that log; and the replicators into
  memory and into a file as instances of the interface \<open>replica\<close>.
\<close>

subsection \<open>Logs that grow\<close>

lemma plog_extends_refl [simp]: "plog_extends l l"
  by (simp add: plog_extends_def)

lemma plog_extends_trans:
  assumes "plog_extends a b" "plog_extends b c"
  shows "plog_extends a c"
proof -
  obtain rs where rs: "plog_records b = plog_records a @ rs" "plog_head a \<le> plog_head b"
    "\<And>r. r \<in> set rs \<Longrightarrow> plog_head a < idx_us (fst r)" using assms(1) by (auto simp: plog_extends_def)
  obtain rs' where rs': "plog_records c = plog_records b @ rs'" "plog_head b \<le> plog_head c"
    "\<And>r. r \<in> set rs' \<Longrightarrow> plog_head b < idx_us (fst r)" using assms(2) by (auto simp: plog_extends_def)
  have "plog_head a < idx_us (fst r)" if "r \<in> set (rs @ rs')" for r
    using that rs(2,3) rs'(3) by fastforce
  then show ?thesis using rs(1,2) rs'(1,2) unfolding plog_extends_def by (auto intro: exI [of _ "rs @ rs'"])
qed

lemma plog_extends_rest:
  assumes "plog_extends l R"
  shows "r \<in> set (drop (length (plog_entries l)) (plog_records R)) \<Longrightarrow> plog_head l < idx_us (fst r)"
    "plog_records R = plog_records l @ drop (length (plog_entries l)) (plog_records R)"
    "length (plog_entries l) \<le> length (plog_entries R)" "plog_head l \<le> plog_head R"
proof -
  obtain rs where rs: "plog_records R = plog_records l @ rs" "plog_head l \<le> plog_head R"
    "\<And>r. r \<in> set rs \<Longrightarrow> plog_head l < idx_us (fst r)" using assms by (auto simp: plog_extends_def)
  have len: "length (plog_records l) = length (plog_entries l)" "length (plog_records R) = length (plog_entries R)" by simp_all
  show "r \<in> set (drop (length (plog_entries l)) (plog_records R)) \<Longrightarrow> plog_head l < idx_us (fst r)"
    using rs(3) [of r] by (simp add: rs(1))
  show "plog_records R = plog_records l @ drop (length (plog_entries l)) (plog_records R)" by (simp add: rs(1))
  show "length (plog_entries l) \<le> length (plog_entries R)" using arg_cong [OF rs(1), of length] len by simp
qed (rule plog_extendsE [OF assms])

lemma lower_bound_extends:
  assumes "plog_inv l" "plog_extends l R"
  shows "lower_bound (plog_timestamps R) (plog_head l + 1) = length (plog_entries l)"
proof -
  have ts: "plog_timestamps R = plog_timestamps l @ map (\<lambda>r. idx_us (fst r)) (drop (length (plog_entries l)) (plog_records R))"
    using arg_cong [OF plog_extends_rest(2) [OF assms(2)], of "map (\<lambda>r. idx_us (fst r))"] by (simp only: map_append map_idx_us_records)
  have old: "\<forall>t \<in> set (plog_timestamps l). t < plog_head l + 1" using assms(1) by (auto simp: plog_inv_def)
  have new: "takeWhile (\<lambda>t. t < plog_head l + 1) (map (\<lambda>r. idx_us (fst r)) rs) = []"
    if "\<And>r. r \<in> set rs \<Longrightarrow> plog_head l < idx_us (fst r)" for rs :: "(idxts \<times> 'a) list"
    using that by (cases rs) fastforce+
  have "takeWhile (\<lambda>t. t < plog_head l + 1) (plog_timestamps R) = plog_timestamps l"
    unfolding ts using old new [OF plog_extends_rest(1) [OF assms(2)]] by (subst takeWhile_append2) simp_all
  then show ?thesis by (simp add: lower_bound_def plog_timestamps_def)
qed

context persister
begin

text \<open>A follower that has the log \<open>l\<close> is served from the first record it lacks.\<close>

lemma begin_follower:
  assumes "invar s" "plog_inv l" "plog_extends l (absl s)" "plain_request p" "pp_i p = length (plog_entries l)"
    "pp_since p = (if from_us > 0 then from_us else 0)" "from_us \<le> 0 \<or> from_us = plog_head l + 1"
    "PersisterSize ops s \<le> uint64_npos"
  shows "subscription_begin ops s timestamp p = (p, length (plog_entries l), if from_us > 0 then from_us else 0)"
proof (cases "from_us > 0")
  case True
  then have from_us: "from_us = plog_head l + 1" using assms(7) by simp
  have "min (fst (PersisterIndexRange ops from_us 0 s)) (PersisterSize ops s) = length (plog_entries l)"
    using lower_bound_extends [OF assms(2,3)] plog_extends_rest(3) [OF assms(3)]
      assms(8)
    unfolding index_range [OF assms(1)] size [OF assms(1)] from_us
    by (auto simp: plog_index_range_def Let_def plog_timestamps_def)
  then show ?thesis
    using True assms(4-6) by (simp add: subscription_begin_def plain_request_def Let_def)
next
  case False
  then show ?thesis using assms(4-6) by (simp add: subscription_begin_def plain_request_def Let_def)
qed

end

context subscribable
begin

lemma reachable_extends:
  assumes "subscription_reachable ops sub b w0 w" "invar (sn_persister w0)"
  shows "invar (sn_persister w) \<and> plog_extends (absl (sn_persister w0)) (absl (sn_persister w))"
  using assms(1)
proof induction
  case (reachable_step w w')
  note IH = reachable_step.IH
  from reachable_step.hyps(2) show ?case
  proof cases
    case (step_publish e u i s)
    then have "invar s" "plog_extends (absl (sn_persister w)) (absl s)"
      using IH publish_ok [of "sn_persister w" e u i s] plog_publish_extends [of e u _ i] by auto
    then show ?thesis using step_publish(1) IH plog_extends_trans by fastforce
  next
    case (step_update_head u s)
    then have "invar s" "plog_extends (absl (sn_persister w)) (absl s)"
      using IH update_head_ok [of "sn_persister w" u s] plog_update_head_extends by auto
    then show ?thesis using step_update_head(1) IH plog_extends_trans by fastforce
  qed (use IH in simp_all)
qed (use assms(2) in simp)

end

text \<open>All that a thread reports is after the moment \<open>h\<close>, if it starts there or the log is ahead of it.\<close>

fun pc_after :: "microseconds \<Rightarrow> 'e thread_pc \<Rightarrow> bool" where
  "pc_after h (Passing es sz last_us head) \<longleftrightarrow> h < last_us \<and> h < head"
| "pc_after h (Notifying sz head) \<longleftrightarrow> h < head"
| "pc_after h pc \<longleftrightarrow> True"

definition thread_after :: "microseconds \<Rightarrow> bool \<Rightarrow> ('u, 'e) subscriber_thread \<Rightarrow> bool" where
  "thread_after h ahead th \<longleftrightarrow> (ahead \<or> h \<le> th_head th) \<and> pc_after h (th_pc th) \<and> (\<forall>ev \<in> set (th_trace th). h < trace_us ev)"

lemma check_terminate_after:
  "check_terminate sub signal th = (r, th') \<Longrightarrow> thread_after h ahead th \<Longrightarrow> thread_after h ahead th' \<and> th_index th' = th_index th"
  by (auto simp: check_terminate_def thread_after_def split: if_splits prod.splits)

context subscribable
begin

lemma loop_after:
  assumes "invar s" "plog_extends l (absl s)" "length (plog_entries l) \<le> th_index th"
    "thread_after (plog_head l) ahead th" "ahead \<longrightarrow> plog_head l < plog_head (absl s)"
  shows "thread_after (plog_head l) ahead (loop_step ops sub s signal th)"
proof -
  obtain stop th' where ct: "check_terminate sub signal th = (stop, th')" by fastforce
  have th': "thread_after (plog_head l) ahead th'" "th_index th' = th_index th"
    using check_terminate_after [OF ct assms(4)] by simp_all
  have head: "plog_head l < plog_head (absl s)" if "plog_head (absl s) > th_head th'"
    using that th'(1) assms(5) by (auto simp: thread_after_def)
  have last_us: "plog_head l < idx_us i" if "plog_last (absl s) = Some i" "th_index th' < idx_index i + 1" for i
  proof -
    note i = last_record [OF assms(1) that(1)]
    let ?R = "plog_records (absl s)" and ?n = "length (plog_entries l)"
    have lt: "?n \<le> length ?R - 1" "0 < length ?R" using i(1) that(2) th'(2) assms(3) by linarith+
    then have "length ?R - 1 - ?n < length (drop ?n ?R)" unfolding length_drop by linarith
    from nth_mem [OF this] have "?R ! (?n + (length ?R - 1 - ?n)) \<in> set (drop ?n ?R)" using lt by simp
    then have "?R ! (length ?R - 1) \<in> set (drop ?n ?R)" using le_add_diff_inverse [OF lt(1)] by simp
    from plog_extends_rest(1) [OF assms(2) this] show ?thesis using i(2) by simp
  qed
  show ?thesis
    using th' head last_us
    by (cases stop) (auto simp: loop_step_def ct Let_def head_and_last [OF assms(1)] thread_after_def
        split: option.split sum.split)
qed

lemma thread_step_after:
  assumes inv: "invar s" and ext: "plog_extends l (absl s)" and ok: "pc_ok (length (plog_entries l)) M (absl s) th (th_pc th)"
    and after: "thread_after (plog_head l) ahead th" "ahead \<longrightarrow> plog_head l < plog_head (absl s)"
    and step: "thread_step ops sub b s signal th = Some th'"
  shows "thread_after (plog_head l) ahead th'"
proof (cases "th_pc th")
  case AtLoop
  then have "length (plog_entries l) \<le> th_index th" using ok by (simp add: seen_upto_def)
  from loop_after [OF inv ext this after] show ?thesis using step AtLoop by (auto simp: thread_step_def)
next
  case (Passing es sz last_us hd)
  show ?thesis
  proof (cases es)
    case Nil
    then show ?thesis using step after(1) Passing by (auto simp: thread_step_def thread_after_def)
  next
    case (Cons x xs)
    obtain stop th1 where ct: "check_terminate sub signal th = (stop, th1)" by fastforce
    have th1: "thread_after (plog_head l) ahead th1" using check_terminate_after [OF ct after(1)] by simp
    have "es = drop (sz - length es) (take sz (plog_records (absl s)))" "length (plog_entries l) \<le> sz - length es"
      using ok by (simp_all add: Passing)
    then have "set es \<subseteq> set (drop (length (plog_entries l)) (plog_records (absl s)))"
      using set_drop_subset_set_drop [of "length (plog_entries l)" "sz - length es" "take sz (plog_records (absl s))"]
      by (auto simp: drop_take dest: in_set_takeD)
    then have x: "plog_head l < idx_us (fst x)" using plog_extends_rest(1) [OF ext] Cons by auto
    have pcs: "plog_head l < last_us" "plog_head l < hd" using after(1) by (simp_all add: Passing thread_after_def)
    show ?thesis
      using step th1 x pcs unfolding thread_step_def Passing Cons
      by (cases stop) (auto simp: pass_step_def ct thread_after_def split: option.splits prod.splits if_splits)
  qed
next
  case (Notifying sz hd)
  then show ?thesis
    using step after(1) by (cases "sub_head sub hd (th_user th)") (auto simp: thread_step_def notify_step_def thread_after_def split: if_splits)
qed (use step after(1) in \<open>auto simp: thread_step_def thread_after_def split: if_splits\<close>)

lemma reachable_after:
  assumes reach: "subscription_reachable ops sub (length (plog_entries l)) w0 w" and inv: "invar (sn_persister w0)"
    and init: "sn_thread w0 = thread_init (length (plog_entries l)) from_us u"
    and ext: "plog_extends l (absl (sn_persister w0))" and start: "plog_head l < from_us \<or> plog_head l < plog_head (absl (sn_persister w0))"
  shows "\<forall>ev \<in> set (th_trace (sn_thread w)). plog_head l < trace_us ev"
proof -
  let ?ahead = "\<not> plog_head l < from_us"
  have "thread_after (plog_head l) ?ahead (sn_thread w)"
    using reach
  proof induction
    case reachable_init
    then show ?case by (auto simp: init thread_init_def thread_after_def)
  next
    case (reachable_step w w')
    note now = reachable_extends [OF reachable_step.hyps(1) inv]
    have ext': "plog_extends l (absl (sn_persister w))" using plog_extends_trans [OF ext] now by blast
    have ahead: "?ahead \<longrightarrow> plog_head l < plog_head (absl (sn_persister w))"
      using start plog_extends_rest(4) [OF conjunct2 [OF now]] by auto
    from reachable_step.hyps(2) show ?case
    proof cases
      case (step_thread th)
      note ok = reachable_ok [OF reachable_step.hyps(1) inv init]
      show ?thesis
        using thread_step_after [OF conjunct1 [OF now] ext' conjunct2 [OF ok] reachable_step.IH ahead step_thread(2)] step_thread(1) by simp
    qed (use reachable_step.IH in simp_all)
  qed
  then show ?thesis by (simp add: thread_after_def)
qed

text \<open>What such a subscriber has been given, in terms of the log it started from.\<close>

lemma reachable_events:
  assumes reach: "subscription_reachable ops sub (length (plog_entries l)) w0 w" and inv: "invar (sn_persister w0)"
    and init: "sn_thread w0 = thread_init (length (plog_entries l)) from_us u" and all: "\<And>e. sub_matches sub e"
  shows "events_of (absl (sn_persister w)) l (th_trace (sn_thread w))"
proof -
  from reachable_ok [OF reach inv init] pc_ok_returned
  obtain pos where "seen_upto (length (plog_entries l)) (sub_matches sub) (absl (sn_persister w)) pos (th_trace (sn_thread w))"
    by fastforce
  note seen = this [unfolded seen_upto_def]
  have "length (plog_entries l) + (pos - length (plog_entries l)) = pos" using seen by simp
  then show ?thesis
    using seen all unfolding events_of_def by (intro conjI exI [of _ "pos - length (plog_entries l)"]) simp_all
qed

end

subsection \<open>A part of the events\<close>

lemma trace_entry_in: "r \<in> set (trace_entries evs) \<Longrightarrow> TraceEntry (fst r) (snd r) \<in> set evs"
  by (induction evs rule: trace_entries.induct) auto

lemma events_of_prefix:
  assumes "events_of R l evs"
  shows "events_of R l (take k evs)"
proof -
  let ?D = "drop (length (plog_entries l)) (plog_records R)" and ?m = "length (trace_entries (take k evs))"
  from assms obtain m where
    m: "trace_entries evs = take m ?D"
      "\<forall>x \<in> set evs. trace_us x \<le> plog_head R \<and> (\<forall>r \<in> set (drop (length (plog_entries l) + m) (plog_records R)). trace_us x < idx_us (fst r))"
    and sorted: "sorted_wrt (<) (map trace_us evs)"
    by (auto simp: events_of_def)
  have split: "trace_entries evs = trace_entries (take k evs) @ trace_entries (drop k evs)"
    by (simp flip: trace_entries_append)
  have D: "?D = trace_entries (take k evs) @ trace_entries (drop k evs) @ drop m ?D"
    using append_take_drop_id [of m ?D] split m(1) by simp
  have tk: "trace_entries (take k evs) = take ?m ?D" by (subst D) simp
  have rest: "drop (length (plog_entries l) + ?m) (plog_records R) = trace_entries (drop k evs) @ drop m ?D"
    using arg_cong [OF D, of "drop ?m"] by (simp add: add.commute)
  have cut: "sorted_wrt (<) (map trace_us (take k evs))" "\<forall>x \<in> set (take k evs). \<forall>y \<in> set (drop k evs). trace_us x < trace_us y"
    using sorted append_take_drop_id [of k evs] sorted_wrt_append [of "(<)" "map trace_us (take k evs)" "map trace_us (drop k evs)"]
    by (auto simp flip: map_append)
  have "trace_us x \<le> plog_head R \<and> (\<forall>r \<in> set (drop (length (plog_entries l) + ?m) (plog_records R)). trace_us x < idx_us (fst r))"
    if x: "x \<in> set (take k evs)" for x
  proof (intro conjI ballI)
    show "trace_us x \<le> plog_head R" using m(2) x by (auto dest: in_set_takeD)
    fix r assume "r \<in> set (drop (length (plog_entries l) + ?m) (plog_records R))"
    then consider "r \<in> set (trace_entries (drop k evs))" | "r \<in> set (drop m ?D)" unfolding rest by auto
    then show "trace_us x < idx_us (fst r)"
    proof cases
      case 1
      from trace_entry_in [OF this] show ?thesis using cut(2) x by fastforce
    next
      case 2
      then show ?thesis using m(2) x by (auto simp: add.commute dest: in_set_takeD)
    qed
  qed
  then show ?thesis unfolding events_of_def using cut(1) tk by blast
qed

text \<open>Events that are all new are all accepted.\<close>

lemma replay_all:
  assumes "sorted_wrt (<) (map trace_us evs)" "\<forall>ev \<in> set evs. plog_head l < trace_us ev"
    "map (\<lambda>r. idx_index (fst r)) (trace_entries evs) = [length (plog_entries l)..<length (plog_entries l) + length (trace_entries evs)]"
  shows "snd (replay_events evs l) \<and> plog_records (fst (replay_events evs l)) = plog_records l @ trace_entries evs"
  using assms
proof (induction evs arbitrary: l)
  case (Cons ev evs)
  show ?case
  proof (cases ev)
    case (TraceEntry i e)
    let ?l = "\<lparr>plog_entries = plog_entries l @ [(idx_us i, e)], plog_head = idx_us i\<rparr>"
    have i: "idx_index i = length (plog_entries l)"
      and rest: "map (\<lambda>r. idx_index (fst r)) (trace_entries evs) =
        [length (plog_entries ?l)..<length (plog_entries ?l) + length (trace_entries evs)]"
      using Cons.prems(3) by (simp_all add: TraceEntry upt_conv_Cons del: upt_Suc)
    have rec: "plog_records ?l = plog_records l @ [(i, e)]"
      using i by (cases i) (simp add: plog_records_snoc)
    have "snd (replay_events evs ?l) \<and> plog_records (fst (replay_events evs ?l)) = plog_records ?l @ trace_entries evs"
      using Cons.prems(1) rest by (intro Cons.IH) (simp_all add: TraceEntry)
    then show ?thesis using i Cons.prems(2) rec by (simp add: TraceEntry)
  next
    case (TraceHead u)
    let ?l = "l\<lparr>plog_head := u\<rparr>"
    have "snd (replay_events evs ?l) \<and> plog_records (fst (replay_events evs ?l)) = plog_records ?l @ trace_entries evs"
      using Cons.prems by (intro Cons.IH) (simp_all add: TraceHead)
    then show ?thesis using Cons.prems(2) by (simp add: TraceHead plog_records_def)
  qed
qed simp

subsection \<open>A subscription that is left alone\<close>

text \<open>A subscriber that always wants more, as long as \<open>P\<close> holds of its state and of what it has seen.\<close>

definition wants_more :: "('u, 'e) subscriber \<Rightarrow> ('u \<Rightarrow> 'e trace_event list \<Rightarrow> bool) \<Rightarrow> bool" where
  "wants_more sub P \<longleftrightarrow> (\<forall>e. sub_matches sub e) \<and>
     (\<forall>u tr e i l r u'. P u tr \<longrightarrow> sub_entry sub e i l u = (r, u') \<longrightarrow> r = ResponseMore \<and> P u' (tr @ [TraceEntry i e])) \<and>
     (\<forall>u tr us r u'. P u tr \<longrightarrow> sub_head sub us u = (r, u') \<longrightarrow> r = ResponseMore \<and> P u' (tr @ [TraceHead us]))"

lemma pass_step_more:
  assumes "wants_more sub P" "P (th_user th) (th_trace th)" "hoi_idxts (PersisterHeadAndLast ops s) = Some l"
  shows "\<exists>u tr. pass_step ops sub s False e pc th = th\<lparr>th_user := u, th_trace := tr, th_pc := pc\<rparr> \<and> P u tr"
proof -
  obtain r u where call: "sub_entry sub (snd e) (fst e) l (th_user th) = (r, u)" by fastforce
  then have "r = ResponseMore" "P u (th_trace th @ [TraceEntry (fst e) (snd e)])" "sub_matches sub (snd e)"
    using assms(1,2) unfolding wants_more_def by blast+
  then show ?thesis
    using assms(3) call by (auto simp: pass_step_def check_terminate_def PassEntryToSubscriberIfTypeMatches_def)
qed

lemma notify_step_more:
  assumes "wants_more sub P" "P (th_user th) (th_trace th)"
  shows "\<exists>u tr. notify_step sub b sz h th = th\<lparr>th_user := u, th_trace := tr, th_head := h, th_pc := AtLoop\<rparr> \<and> P u tr"
proof (cases "b \<le> sz \<and> th_head th < h")
  case True
  obtain r u where call: "sub_head sub h (th_user th) = (r, u)" by fastforce
  then have "r = ResponseMore" "P u (th_trace th @ [TraceHead h])"
    using assms unfolding wants_more_def by blast+
  then show ?thesis using True call by (auto simp: notify_step_def)
next
  case False
  have "th = th\<lparr>th_user := th_user th, th_trace := th_trace th\<rparr>" by simp
  then have "notify_step sub b sz h th = th\<lparr>th_user := th_user th, th_trace := th_trace th, th_head := h, th_pc := AtLoop\<rparr>"
    using False by (auto simp: notify_step_def)
  then show ?thesis using assms(2) by blast
qed

text \<open>The subscription \<open>w\<close> as it continues while nothing is published.\<close>

definition quiet_run ::
  "('s, 'e) persister_ops \<Rightarrow> ('u, 'e) subscriber \<Rightarrow> nat \<Rightarrow> 's \<Rightarrow> ('u, 'e) subscriber_thread \<Rightarrow> ('u, 'e) subscriber_thread \<Rightarrow> bool" where
  "quiet_run ops sub b s = (\<lambda>th th'. thread_step ops sub b s False th = Some th')\<^sup>*\<^sup>*"

lemma quiet_run_step:
  "thread_step ops sub b s False th = Some th1 \<Longrightarrow> quiet_run ops sub b s th1 th2 \<Longrightarrow> quiet_run ops sub b s th th2"
  unfolding quiet_run_def by (rule converse_rtranclp_into_rtranclp)

lemma quiet_run_refl [simp]: "quiet_run ops sub b s th th"
  by (simp add: quiet_run_def)

lemma quiet_run_reachable:
  assumes "quiet_run ops sub b s th th'"
  shows "subscription_reachable ops sub b \<lparr>sn_persister = s, sn_signal = False, sn_thread = th\<rparr>
    \<lparr>sn_persister = s, sn_signal = False, sn_thread = th'\<rparr>"
  using assms unfolding quiet_run_def
proof induction
  case (step th1 th2)
  then have "subscription_step ops sub b \<lparr>sn_persister = s, sn_signal = False, sn_thread = th1\<rparr>
      (\<lparr>sn_persister = s, sn_signal = False, sn_thread = th1\<rparr>\<lparr>sn_thread := th2\<rparr>)"
    by (intro step_thread) simp
  then show ?case using reachable_step [OF step.IH] by simp
qed (rule reachable_init)

lemma pass_run:
  assumes more: "wants_more sub P" and l: "hoi_idxts (PersisterHeadAndLast ops s) = Some l"
    and "P (th_user th) (th_trace th)" "th_pc th = Passing es sz last_us h"
  shows "\<exists>u tr. quiet_run ops sub b s th (th\<lparr>th_user := u, th_trace := tr, th_pc := Passing [] sz last_us h\<rparr>) \<and> P u tr"
  using assms(3,4)
proof (induction es arbitrary: th)
  case Nil
  have "th\<lparr>th_user := th_user th, th_trace := th_trace th, th_pc := Passing [] sz last_us h\<rparr> = th" using Nil(2) by simp
  then show ?case using Nil(1) by (metis quiet_run_refl)
next
  case (Cons e es)
  obtain u tr where step: "pass_step ops sub s False e (Passing es sz last_us h) th =
      th\<lparr>th_user := u, th_trace := tr, th_pc := Passing es sz last_us h\<rparr>" "P u tr"
    using pass_step_more [OF more Cons.prems(1) l] by blast
  let ?th = "th\<lparr>th_user := u, th_trace := tr, th_pc := Passing es sz last_us h\<rparr>"
  obtain u' tr' where "quiet_run ops sub b s ?th (?th\<lparr>th_user := u', th_trace := tr', th_pc := Passing [] sz last_us h\<rparr>)" "P u' tr'"
    using Cons.IH [of ?th] step(2) by auto
  moreover have "thread_step ops sub b s False th = Some ?th" using step(1) Cons.prems(2) by (simp add: thread_step_def)
  ultimately show ?case using quiet_run_step by fastforce
qed

context subscribable
begin

text \<open>From the report of the head on, the thread goes to its wait and is blocked there.\<close>

lemma notify_run:
  assumes inv: "invar s" and more: "wants_more sub P" and th: "P (th_user th) (th_trace th)" "th_pc th = Notifying sz (plog_head (absl s))"
    and idx: "length (plog_entries (absl s)) \<le> th_index th"
  shows "\<exists>th'. quiet_run ops sub b s th th' \<and> th_pc th' = Waiting \<and> \<not> wait_predicate ops b s False th'"
proof -
  obtain u tr where "notify_step sub b sz (plog_head (absl s)) th =
      th\<lparr>th_user := u, th_trace := tr, th_head := plog_head (absl s), th_pc := AtLoop\<rparr>"
    using notify_step_more [OF more th(1)] by blast
  then have s1: "thread_step ops sub b s False th = Some (th\<lparr>th_user := u, th_trace := tr, th_head := plog_head (absl s), th_pc := AtLoop\<rparr>)"
    (is "_ = Some ?th") using th(2) by (simp add: thread_step_def)
  have s2: "thread_step ops sub b s False ?th = Some (?th\<lparr>th_pc := Waiting\<rparr>)"
    by (simp add: thread_step_def loop_step_def check_terminate_def head_and_last [OF inv])
  have "\<not> wait_predicate ops b s False (?th\<lparr>th_pc := Waiting\<rparr>)"
    using idx by (simp add: wait_predicate_def size [OF inv] head [OF inv])
  then show ?thesis
    using quiet_run_step [OF s1 quiet_run_step [OF s2 quiet_run_refl]] by force
qed

lemma blocked_run:
  assumes inv: "invar s" and more: "wants_more sub P" and th: "P (th_user th) (th_trace th)" "th_pc th = AtLoop" "th_index th = b"
    and b: "b \<le> length (plog_entries (absl s))" "b < length (plog_entries (absl s)) \<Longrightarrow> th_head th < plog_head (absl s)"
  shows "\<exists>th'. quiet_run ops sub b s th th' \<and> th_pc th' = Waiting \<and> \<not> wait_predicate ops b s False th'"
proof -
  let ?n = "length (plog_entries (absl s))" and ?h = "plog_head (absl s)"
  consider (ahead) "?h \<le> th_head th" | (entries) i where "th_head th < ?h" "plog_last (absl s) = Some i" "b < ?n"
    | (head) "th_head th < ?h" "b = ?n"
    using b(1) by (cases "plog_last (absl s)") (force simp: plog_last_def split: if_splits)+
  then show ?thesis
  proof cases
    case ahead
    then have "b = ?n" using b by force
    have "thread_step ops sub b s False th = Some (th\<lparr>th_pc := Waiting\<rparr>)"
      using th(2) ahead by (simp add: thread_step_def loop_step_def check_terminate_def head_and_last [OF inv])
    moreover have "\<not> wait_predicate ops b s False (th\<lparr>th_pc := Waiting\<rparr>)"
      using th(3) \<open>b = ?n\<close> by (simp add: wait_predicate_def size [OF inv])
    ultimately show ?thesis using quiet_run_step [OF _ quiet_run_refl] by force
  next
    case entries
    note i = last_record [OF inv entries(2)]
    have sz: "idx_index i + 1 = ?n" using i(1) by simp
    let ?pc = "Passing (drop b (plog_records (absl s))) ?n (idx_us i) ?h"
    have s1: "thread_step ops sub b s False th = Some (th\<lparr>th_pc := ?pc\<rparr>)"
      using th(2,3) entries sz
      by (simp add: thread_step_def loop_step_def check_terminate_def head_and_last [OF inv] iterate [OF inv] plog_iterate_def Let_def)
    have l: "hoi_idxts (PersisterHeadAndLast ops s) = Some i" using entries(2) by (simp add: head_and_last [OF inv])
    obtain u tr where run: "quiet_run ops sub b s (th\<lparr>th_pc := ?pc\<rparr>) (th\<lparr>th_user := u, th_trace := tr, th_pc := Passing [] ?n (idx_us i) ?h\<rparr>)" "P u tr"
      using pass_run [OF more l, of "th\<lparr>th_pc := ?pc\<rparr>" "drop b (plog_records (absl s))" ?n "idx_us i" ?h b] th(1) by auto
    let ?th = "th\<lparr>th_user := u, th_trace := tr, th_index := ?n, th_head := idx_us i, th_pc := Notifying ?n ?h\<rparr>"
    have s2: "thread_step ops sub b s False (th\<lparr>th_user := u, th_trace := tr, th_pc := Passing [] ?n (idx_us i) ?h\<rparr>) = Some ?th"
      by (simp add: thread_step_def)
    obtain th' where "quiet_run ops sub b s ?th th'" "th_pc th' = Waiting" "\<not> wait_predicate ops b s False th'"
      using notify_run [OF inv more, of ?th] run(2) by auto
    then show ?thesis
      using quiet_run_step [OF s1] run(1) quiet_run_step [OF s2] unfolding quiet_run_def by (meson rtranclp_trans)
  next
    case head
    let ?th = "th\<lparr>th_pc := Notifying ?n ?h\<rparr>"
    have s1: "thread_step ops sub b s False th = Some ?th"
      using th(2,3) head by (auto simp: thread_step_def loop_step_def check_terminate_def head_and_last [OF inv] plog_last_def Let_def)
    obtain th' where th': "quiet_run ops sub b s ?th th'" "th_pc th' = Waiting" "\<not> wait_predicate ops b s False th'"
      using notify_run [OF inv more, of ?th] th(1,3) head(2) by auto
    show ?thesis using quiet_run_step [OF s1 th'(1)] th'(2,3) by blast
  qed
qed

end

subsection \<open>One iteration of the thread\<close>

lemma on_chunks_pass:
  "\<exists>n. on_chunks w rm user False cs t =
    map_option (\<lambda>(s, x). (t\<lparr>rt_subscriber := s, rt_malformed_count := n\<rparr>, x)) (pass_chunks w rm user cs (rt_subscriber t))"
proof (induction cs arbitrary: t)
  case Nil
  have "t\<lparr>rt_subscriber := rt_subscriber t, rt_malformed_count := rt_malformed_count t\<rparr> = t" by simp
  then show ?case by (auto simp: finish_def intro!: exI [of _ "rt_malformed_count t"])
next
  case (Cons c cs)
  show ?case
  proof (cases "PassChunkToSubscriber w rm user c (rt_subscriber t)")
    case None
    then show ?thesis by (simp add: OnChunk_def)
  next
    case (Some r)
    obtain s x where r: "r = (s, x)" by (cases r)
    show ?thesis
    proof (cases x)
      case None
      obtain n where "on_chunks w rm user False cs (t\<lparr>rt_subscriber := s, rt_malformed_count := 0\<rparr>) =
          map_option (\<lambda>(s', x). (t\<lparr>rt_subscriber := s, rt_malformed_count := 0, rt_subscriber := s', rt_malformed_count := n\<rparr>, x))
            (pass_chunks w rm user cs s)"
        using Cons [of "t\<lparr>rt_subscriber := s, rt_malformed_count := 0\<rparr>"] by auto
      then show ?thesis using None r Some by (auto simp: OnChunk_def)
    next
      case (Some y)
      have "t\<lparr>rt_subscriber := s\<rparr> = t\<lparr>rt_subscriber := s, rt_malformed_count := rt_malformed_count t\<rparr>" by simp
      then show ?thesis using Some r \<open>_ = Some r\<close> by (auto simp: OnChunk_def throw_def intro!: exI [of _ "rt_malformed_count t"])
    qed
  qed
qed

lemma on_chunks_ignored: "on_chunks w rm user True cs t = finish t"
  by (induction cs) (simp_all add: OnChunk_def)

lemma fold_OnHeader [simp]: "rt_subscriber (fold OnHeader hs t) = rt_subscriber t"
  by (induction hs arbitrary: t) (simp_all add: OnHeader_def)

lemma iteration_cases:
  assumes ends: "\<And>st. ru_terminate user st = TerminationTerminate" and p: "pass_chunks w rm user (at_chunks a) (rt_subscriber t) = Some (s, x)"
    and x: "x \<noteq> Some StreamTerminatedBySubscriber"
  shows "\<exists>t' fin. thread_iteration w rm user same_schema a t = Some (t', fin) \<and>
    (rt_subscriber t' = rt_subscriber t \<or> rt_subscriber t' = (rt_subscriber t)\<lparr>rs_carried_over_data := []\<rparr> \<or>
     rt_subscriber t' = s\<lparr>rs_carried_over_data := []\<rparr>) \<and>
    (\<not> at_terminate_requested a \<longrightarrow> CheckSchema same_schema (at_schema_reply a) = SchemaOK \<longrightarrow>
       \<not> fin \<and> rt_subscriber t' = s\<lparr>rs_carried_over_data := []\<rparr>)"
proof (cases "at_terminate_requested a \<or> CheckSchema same_schema (at_schema_reply a) \<noteq> SchemaOK")
  case True
  then show ?thesis
    by (auto simp: thread_iteration_def Let_def ends on_chunks_ignored finish_def clear_connection_def)
next
  case False
  let ?t = "fold OnHeader (at_headers a) t"
  obtain n where "on_chunks w rm user False (at_chunks a) ?t =
      map_option (\<lambda>(s, x). (?t\<lparr>rt_subscriber := s, rt_malformed_count := n\<rparr>, x)) (pass_chunks w rm user (at_chunks a) (rt_subscriber t))"
    using on_chunks_pass [of w rm user "at_chunks a" ?t] by auto
  then have on: "on_chunks w rm user False (at_chunks a) ?t = Some (?t\<lparr>rt_subscriber := s, rt_malformed_count := n\<rparr>, x)"
    using p by simp
  show ?thesis
  proof (cases x)
    case None
    then show ?thesis using False on by (auto simp: thread_iteration_def Let_def on_chunks_ignored finish_def clear_connection_def)
  next
    case (Some y)
    then show ?thesis using False on x by (cases y) (auto simp: thread_iteration_def Let_def clear_connection_def)
  qed
qed

context replica
begin

lemma iteration_reads:
  assumes wire: "wire_ok w" and f: "following invar absl g (rt_subscriber t)" "rs_carried_over_data (rt_subscriber t) = []"
    and evs: "\<forall>ev \<in> set evs. trace_us ev \<le> int64_max" "concat (at_chunks a) = events_text w evs @ tail" "\<forall>c \<in> set tail. \<not> is_eol c"
    and run: "thread_iteration w rm (StreamReplicatorImpl ops unsafe g) same_schema a t = res"
  defines "l \<equiv> log_of absl (rt_subscriber t)"
  shows "\<exists>t' fin. res = Some (t', fin) \<and> following invar absl g (rt_subscriber t') \<and> rs_carried_over_data (rt_subscriber t') = [] \<and>
    (log_of absl (rt_subscriber t') = l \<or> log_of absl (rt_subscriber t') = fst (replay_events evs l)) \<and>
    (\<not> at_terminate_requested a \<longrightarrow> CheckSchema same_schema (at_schema_reply a) = SchemaOK \<longrightarrow>
       \<not> fin \<and> log_of absl (rt_subscriber t') = fst (replay_events evs l))"
proof -
  let ?user = "StreamReplicatorImpl ops unsafe g"
  have ends: "ru_terminate ?user st = TerminationTerminate" for st by (simp add: StreamReplicatorImpl_def)
  have "reads invar absl g (settle (pass_chunks w rm ?user (at_chunks a) (rt_subscriber t))) tail (replay_events evs l)"
    unfolding pass_chunks_feed evs(2) l_def by (rule feed_events [OF wire f(1) evs(1) f(2) evs(3)])
  then obtain s x where p: "pass_chunks w rm ?user (at_chunks a) (rt_subscriber t) = Some (s, x)"
    "following invar absl g (s\<lparr>rs_carried_over_data := []\<rparr>)" "log_of absl (s\<lparr>rs_carried_over_data := []\<rparr>) = fst (replay_events evs l)"
    "x \<noteq> Some StreamTerminatedBySubscriber"
    by (fastforce simp: reads_def settle_def following_def log_of_def split: option.splits)
  have clear: "(rt_subscriber t)\<lparr>rs_carried_over_data := []\<rparr> = rt_subscriber t" using f(2) by simp
  from iteration_cases [where user = ?user, OF ends p(1,4), of same_schema] obtain t' fin where
    it: "res = Some (t', fin)" "rt_subscriber t' = rt_subscriber t \<or> rt_subscriber t' = s\<lparr>rs_carried_over_data := []\<rparr>"
    "\<not> at_terminate_requested a \<Longrightarrow> CheckSchema same_schema (at_schema_reply a) = SchemaOK \<Longrightarrow>
       \<not> fin \<and> rt_subscriber t' = s\<lparr>rs_carried_over_data := []\<rparr>"
    unfolding run clear by auto
  from it(2) have "following invar absl g (rt_subscriber t') \<and> rs_carried_over_data (rt_subscriber t') = [] \<and>
      (log_of absl (rt_subscriber t') = l \<or> log_of absl (rt_subscriber t') = fst (replay_events evs l))"
    using p(2,3) f by (auto simp: l_def)
  moreover have "\<not> fin \<and> log_of absl (rt_subscriber t') = fst (replay_events evs l)"
    if "\<not> at_terminate_requested a" "CheckSchema same_schema (at_schema_reply a) = SchemaOK"
    using it(3) [OF that] p(3) by auto
  ultimately show ?thesis using it(1) by blast
qed

end

interpretation memory_replica: replica memory_ops mem_inv mem_plog w "mem_PublishUnsafeImpl (wire_codec w)" for w :: "'e wire"
proof
  fix s :: "'e memory" and i e
  assume cd: "codec_ok (wire_codec w)"
  note ok = codec_okD [OF cd]
  show "mem_PublishUnsafeImpl (wire_codec w) (log_line (wire_codec w) i e) s = PersisterPublish memory_ops e (idx_us i) s"
    if "idx_index i = PersisterSize memory_ops s"
    using that by (cases i) (simp add: mem_PublishUnsafeImpl_def mem_PublishImpl_def memory_ops_def mem_SizeImpl_def ok Let_def)
  show "\<exists>x. mem_PublishUnsafeImpl (wire_codec w) (log_line (wire_codec w) i e) s = Inl x" if "idx_index i \<noteq> PersisterSize memory_ops s"
    using that by (simp add: mem_PublishUnsafeImpl_def memory_ops_def mem_SizeImpl_def ok Let_def)
qed

interpretation file_replica: replica "file_ops (wire_codec w)" "fp_inv (wire_codec w) sig" "fp_plog (wire_codec w)" w
    "fp_PublishUnsafeImpl (wire_codec w)"
  for w :: "'e wire" and sig :: string
proof
  fix s and i and e :: 'e
  assume cd: "codec_ok (wire_codec w)" and inv: "fp_inv (wire_codec w) sig s"
  note ok = codec_okD [OF cd]
  have sz: "PersisterSize (file_ops (wire_codec w)) s = fp_next_index s"
    by (simp add: file_ops_def fp_SizeImpl_def)
  show "fp_PublishUnsafeImpl (wire_codec w) (log_line (wire_codec w) i e) s = PersisterPublish (file_ops (wire_codec w)) e (idx_us i) s"
    if "idx_index i = PersisterSize (file_ops (wire_codec w)) s"
    using that sz by (cases i) (simp add: fp_PublishUnsafeImpl_def fp_PublishImpl_def file_ops_def ok Let_def log_line_def [symmetric])
  show "\<exists>x. fp_PublishUnsafeImpl (wire_codec w) (log_line (wire_codec w) i e) s = Inl x"
    if "idx_index i \<noteq> PersisterSize (file_ops (wire_codec w)) s"
    using that sz by (simp add: fp_PublishUnsafeImpl_def ok Let_def)
qed

subsection \<open>The pieces of a chunked body\<close>

lemma chunk_text_inj:
  assumes "chunk_text d @ r = chunk_text d' @ r'"
  shows "d = d' \<and> r = r'"
proof -
  have line: "find_crlf (chunk_text d @ r) = Some (to_hex (length d), d @ kCRLF @ r)" for d r
    using find_crlf_line [of "to_hex (length d)" "d @ kCRLF @ r"] to_hex_facts [of "length d"] isxdigit_plain(6,7)
    by (auto simp: chunk_text_def chunk_header_def)
  have "to_hex (length d) = to_hex (length d')" and rest: "d @ kCRLF @ r = d' @ kCRLF @ r'"
    using line [of d r] line [of d' r'] assms by simp_all
  then have "length d = length d'" using to_hex_facts [of "length d"] to_hex_facts [of "length d'"] by metis
  then show ?thesis using rest by simp
qed

lemma chunk_texts_inj: "concat (map chunk_text ps) = concat (map chunk_text qs) \<Longrightarrow> ps = qs"
proof (induction ps arbitrary: qs)
  case Nil
  then show ?case by (cases qs) (simp_all add: chunk_text_def kCRLF_def)
next
  case (Cons d ps)
  show ?case
  proof (cases qs)
    case Nil
    then show ?thesis using Cons.prems by (simp add: chunk_text_def kCRLF_def)
  next
    case (Cons d' qs')
    then show ?thesis using Cons.IH [of qs'] Cons.prems chunk_text_inj [of d _ d'] by auto
  qed
qed

lemma chunk_encoding_inj: "chunk_encoding ps = chunk_encoding qs \<Longrightarrow> concat ps = concat qs"
proof -
  assume "chunk_encoding ps = chunk_encoding qs"
  then have "filter (\<lambda>d. d \<noteq> []) ps = filter (\<lambda>d. d \<noteq> []) qs" by (intro chunk_texts_inj) (simp add: chunk_encoding_def)
  moreover have "concat (filter (\<lambda>d. d \<noteq> []) xs) = concat xs" for xs :: "string list" by (induction xs) auto
  ultimately show ?thesis by metis
qed

end
