(* ===== verification/Replication.thy ===== *)
theory Replication
  imports FollowerLog
begin

text \<open>
  A master stream and a follower, connected by HTTP: the request of \<^verbatim>\<open>GetURLToSubscribe\<close> is parsed and served by the master
  (\<open>PubSub\<close>, \<open>Stream\<close>), the text reaches the follower in pieces and possibly only in part, and the thread of the
  follower publishes what it reads and connects again (\<open>Replicator\<close>).
\<close>

subsection \<open>The request\<close>

lemma split_pieces:
  assumes "\<forall>x \<in> set (q # qs). x \<noteq> [] \<and> CHR ''&'' \<notin> set x"
  shows "Split (Join (q # qs) ''&'') (match_char (CHR ''&'')) EmptyFields_Skip = q # qs"
proof -
  have "split_loop EmptyFields_Skip (match_char (CHR ''&'')) [] (q @ concat (map (\<lambda>c. ''&'' @ c) qs)) = q # qs"
    using assms
  proof (induction qs arbitrary: q)
    case Nil
    then show ?case by (subst split_loop_plain) (auto simp: match_char_def)
  next
    case (Cons q' qs)
    have plain: "\<forall>c \<in> set q. \<not> match_char (CHR ''&'') c" using Cons.prems by (auto simp: match_char_def)
    have "q \<noteq> []" using Cons.prems by simp
    then show ?case
      using Cons.IH [of q'] Cons.prems split_loop_field [OF plain, of "CHR ''&''" EmptyFields_Skip "[]" "q' @ concat (map (\<lambda>c. ''&'' @ c) qs)"]
      by (simp add: match_char_def)
  qed
  then show ?thesis by (simp add: Split_def Join_Cons)
qed

lemma extract_query:
  assumes "no_chars ''?#'' path" "\<forall>x \<in> set (q # qs). x \<noteq> [] \<and> CHR ''&'' \<notin> set x \<and> CHR ''#'' \<notin> set x"
  shows "ExtractURLParametersFromURL (path @ CHR ''?'' # Join (q # qs) ''&'') url_default =
    (url_default\<lparr>url_parameters := map (map_prod DecodeURIComponent DecodeURIComponent \<circ> split_parameter) (q # qs)\<rparr>, length path)"
proof -
  let ?t = "path @ CHR ''?'' # Join (q # qs) ''&''"
  have pieces: "\<forall>x \<in> set (q # qs). x \<noteq> [] \<and> CHR ''&'' \<notin> set x" using assms(2) by auto
  have "CHR ''#'' \<notin> set (Join (q # qs) ''&'')" using assms(2) by (auto simp: Join_Cons)
  then have pound: "find_char ?t (CHR ''#'') 0 = None"
    by (intro find_char_None) (use assms(1) in \<open>auto simp: no_chars_def\<close>)
  have "CHR ''?'' \<notin> set path" using assms(1) by (auto simp: no_chars_def)
  from find_char_at [OF this refl, of "[]" "Join (q # qs) ''&''"]
  have question: "find_char ?t (CHR ''?'') 0 = Some (length path)" by simp
  have cut: "take (length ?t - (length path + 1)) (drop (length path + 1) ?t) = Join (q # qs) ''&''" by simp
  show ?thesis
    unfolding ExtractURLParametersFromURL_def Let_def pound question option.case prod.case pos_before.simps if_True option.sel cut
      split_pieces [OF pieces]
    by (simp add: url_default_def)
qed

lemma to_string_nat_no_delimiter: "c \<in> set (to_string_nat n) \<Longrightarrow> c \<notin> set ''+%&=?#''"
  using to_string_nat_digits [of n] by (auto simp: isdigit_def)

lemma decode_digits: "DecodeURIComponent (to_string_nat n) = to_string_nat n"
proof -
  have "DecodeURIComponent (to_string_nat n @ []) = to_string_nat n @ DecodeURIComponent []"
    by (rule decode_plains) (use to_string_nat_no_delimiter [of _ n] in auto)
  then show ?thesis by simp
qed

lemma FromString_uint64_to_string: "n < 2 ^ 64 \<Longrightarrow> FromString_uint64 (to_string_nat n) = n"
proof -
  assume n: "n < 2 ^ 64"
  obtain c t where ds: "to_string_nat n = c # t" by (cases "to_string_nat n") auto
  have c: "isxdigit c" using to_string_nat_digits [of n] ds by (simp add: isdigit_isxdigit)
  have drop: "dropWhile isspace (to_string_nat n) = to_string_nat n" using isxdigit_plain(1) [OF c] by (simp add: ds)
  have hd: "hd (to_string_nat n) \<noteq> CHR ''-''" "hd (to_string_nat n) \<noteq> CHR ''+''"
    using isxdigit_plain(2,3) [OF c] by (simp_all add: ds)
  have tw: "takeWhile isdigit (to_string_nat n) = to_string_nat n" using to_string_nat_digits by simp
  show ?thesis using n unfolding FromString_uint64_def Let_def drop by (simp add: hd tw)
qed

text \<open>The request of a follower, as the server of the master receives it.\<close>

definition subscribe_request :: "string \<Rightarrow> nat \<Rightarrow> microseconds \<Rightarrow> bool \<Rightarrow> microseconds \<Rightarrow> http_request option" where
  "subscribe_request path index from_us checked now =
     map_option (\<lambda>u. \<lparr>rq_method = ''GET'', rq_url = u, rq_url_path_args = \<lparr>upa_base_path = path, upa_args = []\<rparr>, rq_timestamp = now\<rparr>)
       (URL (GetURLToSubscribe path index from_us checked))"

lemma ParseURL_keeps: "ParseURLWithoutParameters s u = Some u' \<Longrightarrow> url_parameters u' = url_parameters u"
  by (auto simp: ParseURLWithoutParameters_def parse_credentials_def parse_host_port_def Let_def split: if_splits prod.splits)

lemma ParseURL_Some: "s \<noteq> [] \<Longrightarrow> \<exists>u'. ParseURLWithoutParameters s u = Some u'"
  by (simp add: ParseURLWithoutParameters_def Let_def split: prod.split)

lemma subscribe_url_parameters:
  assumes "no_chars ''?#'' path" "path \<noteq> []"
  shows "\<exists>u. URL (GetURLToSubscribe path n from_us checked) = Some u \<and>
    url_parameters u = (''i'', to_string_nat n) # (if checked then [(''checked'', [])] else []) @
      (if from_us > 0 then [(''since'', to_string_nat (nat from_us))] else [])"
proof -
  let ?qs = "(if checked then [''checked''] else []) @ (if from_us > 0 then [''since='' @ to_string_nat (nat from_us)] else [])"
  let ?q = "''i='' @ to_string_nat n"
  have url: "GetURLToSubscribe path n from_us checked = path @ CHR ''?'' # Join (?q # ?qs) ''&''"
    by (auto simp: GetURLToSubscribe_def Join_Cons to_string_def)
  have ok: "\<forall>x \<in> set (?q # ?qs). x \<noteq> [] \<and> CHR ''&'' \<notin> set x \<and> CHR ''#'' \<notin> set x"
    using to_string_nat_no_delimiter [of _ n] to_string_nat_no_delimiter [of _ "nat from_us"] by (fastforce split: if_splits)
  have split1: "split_parameter (a @ CHR ''='' # d) = (a, d)" if "CHR ''='' \<notin> set a" for a d
    using find_char_at [OF that refl, of "[]" d] by (simp add: split_parameter_def)
  have split2: "split_parameter ''checked'' = (''checked'', [])"
    by (simp add: split_parameter_def find_char_def)
  have ps: "map (map_prod DecodeURIComponent DecodeURIComponent \<circ> split_parameter) (?q # ?qs) =
      (''i'', to_string_nat n) # (if checked then [(''checked'', [])] else []) @
      (if from_us > 0 then [(''since'', to_string_nat (nat from_us))] else [])"
    using split1 [of "''i''" "to_string_nat n"] split1 [of "''since''" "to_string_nat (nat from_us)"] split2
    by (auto simp: decode_digits)
  obtain u where u: "ParseURLWithoutParameters path (url_default\<lparr>url_parameters :=
      map (map_prod DecodeURIComponent DecodeURIComponent \<circ> split_parameter) (?q # ?qs)\<rparr>) = Some u"
    using ParseURL_Some [OF assms(2)] by blast
  have "URL (GetURLToSubscribe path n from_us checked) = Some u"
    unfolding url URL_def extract_query [OF assms(1) ok] prod.case using u by simp
  moreover have "url_parameters u = map (map_prod DecodeURIComponent DecodeURIComponent \<circ> split_parameter) (?q # ?qs)"
    using ParseURL_keeps [OF u] by simp
  ultimately show ?thesis using ps by auto
qed

lemma subscribe_request_params:
  assumes "no_chars ''?#'' path" "path \<noteq> []" "n < 2 ^ 64" "from_us < 2 ^ 63" "subscribe_request path n from_us checked now = Some r"
  defines "p \<equiv> ParsePubSubHTTPRequest r"
  shows "plain_request p" "pp_i p = n" "pp_since p = (if from_us > 0 then from_us else 0)" "pp_checked p = checked"
    "\<not> pp_terminate_requested p \<and> \<not> pp_size_only p \<and> \<not> pp_schema_requested p" "rq_timestamp r = now" "rq_method r = ''GET''"
proof -
  obtain u where u: "URL (GetURLToSubscribe path n from_us checked) = Some u"
    "url_parameters u = (''i'', to_string_nat n) # (if checked then [(''checked'', [])] else []) @
      (if from_us > 0 then [(''since'', to_string_nat (nat from_us))] else [])"
    using subscribe_url_parameters [OF assms(1,2)] by blast
  have r: "r = \<lparr>rq_method = ''GET'', rq_url = u, rq_url_path_args = \<lparr>upa_base_path = path, upa_args = []\<rparr>, rq_timestamp = now\<rparr>"
    using assms(5) u(1) by (simp add: subscribe_request_def)
  have us: "us_of_uint64 (FromString_uint64 (to_string_nat (nat from_us))) = from_us" if "from_us > 0"
  proof -
    have small: "nat from_us < 2 ^ 64" using assms(4) by simp
    have "(from_us + 2 ^ 63) mod 2 ^ 64 = from_us + 2 ^ 63" using that assms(4) by (intro mod_pos_pos_trivial) auto
    then show ?thesis using that FromString_uint64_to_string [OF small] by (simp add: us_of_uint64_def)
  qed
  show "plain_request p" "pp_i p = n" "pp_since p = (if from_us > 0 then from_us else 0)" "pp_checked p = checked"
    "\<not> pp_terminate_requested p \<and> \<not> pp_size_only p \<and> \<not> pp_schema_requested p" "rq_timestamp r = now" "rq_method r = ''GET''"
    using us FromString_uint64_to_string [OF assms(3)] unfolding p_def r plain_request_def ParsePubSubHTTPRequest_def Let_def
      query_has_def query_get_def
    by (cases checked; cases "from_us > 0"; simp add: u(2))+
qed

subsection \<open>Master and follower\<close>

text \<open>
  A connection: the request of the follower \<open>s\<close> is served by a master with the persister \<open>m\<close>, the subscription runs, with
  anything published meanwhile, up to \<open>sn\<close>, and the data of the chunks written by then, those in the cache included, is \<open>ps\<close>.
\<close>

definition sent_pieces :: "connection \<Rightarrow> endpoint \<Rightarrow> string list \<Rightarrow> bool" where
  "sent_pieces c ep ps \<longleftrightarrow>
     co_sent (cs_connection (ep_response ep)) @ cs_cache (ep_response ep) = co_sent c @ chunk_encoding ps"

inductive served_connection ::
  "('m, 'e) persister_ops \<Rightarrow> 'e wire \<Rightarrow> replication_mode \<Rightarrow> string \<Rightarrow> 'u remote_subscriber \<Rightarrow> 'm \<Rightarrow>
   ('m, endpoint, 'e) subscription \<Rightarrow> string list \<Rightarrow> bool"
  for mops w rm path s m where
  served: "subscribe_request path (rs_next_expected_index s) (rs_from_us s) (rm = ReplicationMode_Checked) now = Some r \<Longrightarrow>
     ServeDataViaHTTP mops sch live False m r = ServeSubscription p b from_us \<Longrightarrow>
     co_left c = None \<Longrightarrow>
     subscription_reachable mops (endpoint_subscriber w (pp_checked p)) b
       \<lparr>sn_persister = m, sn_signal = False, sn_thread = thread_init b from_us (PubSubHTTPEndpointImpl p (rq_timestamp r) (sender_of c))\<rparr> sn \<Longrightarrow>
     \<not> sn_signal sn \<Longrightarrow>
     sent_pieces c (th_user (sn_thread sn)) ps \<Longrightarrow>
     served_connection mops w rm path s m sn ps"

text \<open>The numbers are within their types: 64-bit indexes, and microseconds of a signed 64-bit clock.\<close>

definition in_types :: "('m, 'e) persister_ops \<Rightarrow> 'u remote_subscriber \<Rightarrow> 'm \<Rightarrow> 'm \<Rightarrow> bool" where
  "in_types mops s m m' \<longleftrightarrow> rs_next_expected_index s < 2 ^ 64 \<and> rs_from_us s < 2 ^ 63 \<and> PersisterSize mops m \<le> uint64_npos \<and>
     PersisterCurrentHead mops m' \<le> int64_max"

record ('m, 's) replication =
  rep_master :: 'm
  rep_follower :: "'s stream_state remote_thread"
  rep_done :: bool

text \<open>
  The steps of the pair: the master publishes; or a connection is made, carries a part of the text, cut into any chunks, and is
  lost, while the thread of the follower runs an iteration.
\<close>

inductive replication_step ::
  "('m, 'e) persister_ops \<Rightarrow> ('s stream_state, 'e) remote_user \<Rightarrow> 'e wire \<Rightarrow> replication_mode \<Rightarrow> string \<Rightarrow> (string \<Rightarrow> bool) \<Rightarrow>
   ('m, 's) replication \<Rightarrow> ('m, 's) replication \<Rightarrow> bool"
  for mops user w rm path same_schema where
  rep_publish: "PersisterPublish mops e u (rep_master x) = Inr (i, m) \<Longrightarrow>
     replication_step mops user w rm path same_schema x (x\<lparr>rep_master := m\<rparr>)"
| rep_update_head: "PersisterUpdateHead mops u (rep_master x) = Inr m \<Longrightarrow> u \<le> int64_max \<Longrightarrow>
     replication_step mops user w rm path same_schema x (x\<lparr>rep_master := m\<rparr>)"
| rep_connection: "\<not> rep_done x \<Longrightarrow>
     served_connection mops w rm path (rt_subscriber (rep_follower x)) (rep_master x) sn ps \<Longrightarrow>
     in_types mops (rt_subscriber (rep_follower x)) (rep_master x) (sn_persister sn) \<Longrightarrow>
     concat (at_chunks a) = take n (concat ps) \<Longrightarrow>
     thread_iteration w rm user same_schema a (rep_follower x) = Some (t, fin) \<Longrightarrow>
     replication_step mops user w rm path same_schema x \<lparr>rep_master = sn_persister sn, rep_follower = t, rep_done = fin\<rparr>"

inductive replication_reachable ::
  "('m, 'e) persister_ops \<Rightarrow> ('s stream_state, 'e) remote_user \<Rightarrow> 'e wire \<Rightarrow> replication_mode \<Rightarrow> string \<Rightarrow> (string \<Rightarrow> bool) \<Rightarrow>
   ('m, 's) replication \<Rightarrow> ('m, 's) replication \<Rightarrow> bool"
  for mops user w rm path same_schema x0 where
  replication_init: "replication_reachable mops user w rm path same_schema x0 x0"
| replication_next: "replication_reachable mops user w rm path same_schema x0 x \<Longrightarrow>
     replication_step mops user w rm path same_schema x x' \<Longrightarrow> replication_reachable mops user w rm path same_schema x0 x'"

lemma healthy_pieces: "healthy (co_sent c) ep ps \<Longrightarrow> sent_pieces c ep ps"
  by (simp add: healthy_def sender_inv_def sent_pieces_def)

lemma endpoint_sent_init:
  assumes "plain_request p" "co_left c = None"
  shows "endpoint_sent w (co_sent c) p (PubSubHTTPEndpointImpl p now (sender_of c)) []"
proof -
  have "healthy (co_sent c) (PubSubHTTPEndpointImpl p now (sender_of c)) []"
    using assms(2) sender_of_inv [of kChunkCacheSize c] by (simp add: healthy_def PubSubHTTPEndpointImpl_def sender_of_def)
  then show ?thesis
    using assms(1) by (auto simp: endpoint_sent_def PubSubHTTPEndpointImpl_def plain_request_def requested_from_def
        served_events_def events_text_def intro!: exI [of _ "[]"])
qed

lemma endpoint_sent_text:
  assumes "endpoint_sent w (co_sent c) p ep tr" "sent_pieces c ep ps"
  shows "concat ps = events_text w (served_events p tr)"
proof -
  obtain qs where "healthy (co_sent c) ep qs" "concat qs = events_text w (served_events p tr)"
    using assms(1) by (auto simp: endpoint_sent_def)
  then show ?thesis
    using healthy_pieces [of c ep qs] assms(2) chunk_encoding_inj [of ps qs] by (simp add: sent_pieces_def)
qed

lemma all_served: "(\<And>ev. ev \<in> set tr \<Longrightarrow> event_starts p ev) \<Longrightarrow> served_events p tr = tr"
  by (auto simp: served_events_def dropWhile_eq_self_iff)

lemma endpoint_more:
  assumes "wire_ok w" "plain_request p"
  shows "wants_more (endpoint_subscriber w checked) (endpoint_sent w t0 p)"
  unfolding wants_more_def
proof (intro conjI allI impI)
  show "sub_matches (endpoint_subscriber w checked) e" for e by (simp add: endpoint_subscriber_def)
qed (use endpoint_sent_entry [OF assms] endpoint_sent_head [OF assms(2)] in blast)+

lemma reachable_more:
  assumes "wants_more sub P" "subscription_reachable ops sub b w0 w" "sn_thread w0 = thread_init b from_us u0" "P u0 []" "\<not> sn_signal w"
  shows "P (th_user (sn_thread w)) (th_trace (sn_thread w))"
  by (rule reachable_user [where P = P, OF assms(2,3,4) _ _ _ assms(5)]) (use assms(1) in \<open>auto simp: wants_more_def\<close>)

lemma trace_entry_mem: "TraceEntry i e \<in> set tr \<Longrightarrow> (i, e) \<in> set (trace_entries tr)"
  by (induction tr rule: trace_entries.induct) auto

lemma events_served:
  assumes "events_of R l tr" "pp_i p = length (plog_entries l)" "\<And>ev. 0 < pp_since p \<Longrightarrow> ev \<in> set tr \<Longrightarrow> pp_since p \<le> trace_us ev"
  shows "served_events p tr = tr"
proof (rule all_served)
  fix ev assume ev: "ev \<in> set tr"
  show "event_starts p ev"
  proof (cases ev)
    case (TraceEntry i e)
    have "(i, e) \<in> set (drop (length (plog_entries l)) (plog_records R))"
      using trace_entry_mem [of i e tr] ev assms(1) by (auto simp: TraceEntry events_of_def dest: in_set_takeD)
    from drop_index [OF this] show ?thesis using assms(2) assms(3) [OF _ ev] by (auto simp: TraceEntry)
  qed (use assms(3) [OF _ ev] in auto)
qed

text \<open>A head that is not new to the follower is refused, and nothing changes.\<close>

context replica
begin

lemma stale_head:
  assumes wire: "wire_ok w" and f: "following invar absl g s" and u: "u \<le> plog_head (log_of absl s)" "u \<le> int64_max"
  shows "\<exists>x. PassEntryToSubscriber w rm (StreamReplicatorImpl ops unsafe g) (JSON_ts_only w u) s = throw x s \<and> x \<noteq> StreamTerminatedBySubscriber"
proof -
  let ?user = "StreamReplicatorImpl ops unsafe g"
  have st: "str_generation (rs_subscriber s) = g" "invar (str_persister (rs_subscriber s))" using f by (simp_all add: following_def)
  obtain y where head: "ru_head ?user u (rs_subscriber s) = Some (rs_subscriber s, Inl y)"
    using head_call(2) [OF st u(2)] u(1) by (auto simp: log_of_def)
  have s: "s\<lparr>rs_subscriber := rs_subscriber s\<rparr> = s" by simp
  have opt: "ParseJSON_ts_optidx w (JSON_ts_only w u) = Some (None, u)" "ParseJSON_ts_only w (JSON_ts_only w u) = Some u"
    using wire by (simp_all add: wire_ok_def)
  show ?thesis
    using head opt s by (cases rm)
      (auto simp: throw_def PassEntryToSubscriber_def PassEntryToSubscriber_Checked_def PassEntryToSubscriber_Unchecked_def
        wire_split [OF wire] Let_def call_subscriber_def)
qed

lemma stale_iteration:
  assumes wire: "wire_ok w" and f: "following invar absl g (rt_subscriber t)" "rs_carried_over_data (rt_subscriber t) = []"
    and evs: "\<forall>ev \<in> set evs. \<exists>u. ev = TraceHead u \<and> u \<le> plog_head (log_of absl (rt_subscriber t)) \<and> u \<le> int64_max"
    and body: "concat (at_chunks a) = events_text w evs @ tail" "\<forall>c \<in> set tail. \<not> is_eol c"
    and run: "thread_iteration w rm (StreamReplicatorImpl ops unsafe g) same_schema a t = Some (t', fin)"
  shows "rt_subscriber t' = rt_subscriber t"
proof -
  let ?user = "StreamReplicatorImpl ops unsafe g" and ?s = "rt_subscriber t"
  have same: "?s\<lparr>rs_carried_over_data := []\<rparr> = ?s" using f(2) by simp
  have "\<exists>s x. settle (feed w rm ?user (events_text w evs @ tail) ?s) = Some (s, x) \<and> s\<lparr>rs_carried_over_data := []\<rparr> = ?s \<and>
      x \<noteq> Some StreamTerminatedBySubscriber"
  proof (cases evs)
    case Nil
    then show ?thesis using body(2) same by (auto simp: events_text_def feed_line_part finish_def)
  next
    case (Cons ev evs')
    then obtain u where u: "ev = TraceHead u" "u \<le> plog_head (log_of absl ?s)" "u \<le> int64_max" using evs by auto
    obtain x where "PassEntryToSubscriber w rm ?user (JSON_ts_only w u) ?s = throw x ?s" "x \<noteq> StreamTerminatedBySubscriber"
      using stale_head [OF wire f(1) u(2,3)] by blast
    moreover have "settle (feed w rm ?user (events_text w evs @ tail) ?s) =
        settle (and_then (PassEntryToSubscriber w rm ?user (JSON_ts_only w u) ?s)
          (\<lambda>s. feed w rm ?user (events_text w evs' @ tail) (s\<lparr>rs_carried_over_data := []\<rparr>)))"
      using feed_complete [OF event_body_plain(1) [OF wire], of newline ?s ev w rm ?user "events_text w evs' @ tail"]
        event_body_plain(2) [OF wire, of ev] f(2) by (simp add: events_text_def is_eol_def Cons u(1))
    ultimately show ?thesis using same by (auto simp: throw_def settle_def)
  qed
  then obtain s x where p: "pass_chunks w rm ?user (at_chunks a) ?s = Some (s, x)" "s\<lparr>rs_carried_over_data := []\<rparr> = ?s"
    "x \<noteq> Some StreamTerminatedBySubscriber"
    unfolding body(1) [symmetric] pass_chunks_feed [symmetric] by (auto simp: settle_def split: option.splits)
  have ends: "ru_terminate ?user st = TerminationTerminate" for st by (simp add: StreamReplicatorImpl_def)
  from iteration_cases [where user = ?user, OF ends p(1,3), of same_schema] show ?thesis
    using run p(2) same by auto
qed

end

text \<open>The follower is in the past of the master.\<close>

definition behind ::
  "('m \<Rightarrow> bool) \<Rightarrow> ('m \<Rightarrow> 'e plog) \<Rightarrow> ('s \<Rightarrow> bool) \<Rightarrow> ('s \<Rightarrow> 'e plog) \<Rightarrow> nat \<Rightarrow> ('m, 's) replication \<Rightarrow> bool" where
  "behind minvar mabsl invar absl g x \<longleftrightarrow> minvar (rep_master x) \<and> following invar absl g (rt_subscriber (rep_follower x)) \<and>
     rs_carried_over_data (rt_subscriber (rep_follower x)) = [] \<and>
     plog_extends (log_of absl (rt_subscriber (rep_follower x))) (mabsl (rep_master x))"

text \<open>A thread of a follower as it starts, to follow from the end of the stream it has.\<close>

definition fresh_follower :: "('s, 'e) persister_ops \<Rightarrow> 's stream_state remote_thread \<Rightarrow> bool" where
  "fresh_follower ops t \<longleftrightarrow> rt_subscriber t =
     RemoteStreamSubscriber (rs_subscriber (rt_subscriber t)) (PersisterSize ops (str_persister (rs_subscriber (rt_subscriber t)))) 0"

definition follower_persister :: "('m, 's) replication \<Rightarrow> 's" where
  "follower_persister x = str_persister (rs_subscriber (rt_subscriber (rep_follower x)))"

lemma fresh_followerD:
  assumes "fresh_follower ops t"
  shows "rs_next_expected_index (rt_subscriber t) = PersisterSize ops (str_persister (rs_subscriber (rt_subscriber t)))"
    "rs_from_us (rt_subscriber t) = 0" "rs_carried_over_data (rt_subscriber t) = []"
  using assms unfolding fresh_follower_def RemoteStreamSubscriber_def by (metis remote_subscriber.select_convs)+

text \<open>A master and a follower, each over a persister of its own.\<close>

locale replicated_pair = m: subscribable mops minvar mabsl + replica ops invar absl w unsafe
  for mops :: "('m, 'e) persister_ops" and minvar :: "'m \<Rightarrow> bool" and mabsl :: "'m \<Rightarrow> 'e plog"
    and ops :: "('s, 'e) persister_ops" and invar :: "'s \<Rightarrow> bool" and absl :: "'s \<Rightarrow> 'e plog"
    and w :: "'e wire" and unsafe :: "string \<Rightarrow> 's \<Rightarrow> ss_exception + idxts \<times> 's"
begin

text \<open>The subscription that serves a follower is one for the records it lacks.\<close>

lemma connection_start:
  assumes path: "no_chars ''?#'' path" "path \<noteq> []" and inv: "minvar m" "following invar absl g s"
    and ext: "plog_extends (log_of absl s) (mabsl m)" and small: "in_types mops s m m'"
    and req: "subscribe_request path (rs_next_expected_index s) (rs_from_us s) (rm = ReplicationMode_Checked) now = Some r"
  defines "p \<equiv> ParsePubSubHTTPRequest r"
  shows "plain_request p" "pp_i p = length (plog_entries (log_of absl s))" "pp_since p = (if rs_from_us s > 0 then rs_from_us s else 0)"
    "ServeDataViaHTTP mops sch live False m r =
      ServeSubscription p (length (plog_entries (log_of absl s))) (if rs_from_us s > 0 then rs_from_us s else 0)"
proof -
  let ?l = "log_of absl s"
  have f: "rs_next_expected_index s = length (plog_entries ?l)" "rs_from_us s \<le> 0 \<or> rs_from_us s = plog_head ?l + 1" "plog_inv ?l"
    using inv(2) invar_plog by (auto simp: following_def log_of_def)
  have bounds: "rs_next_expected_index s < 2 ^ 64" "rs_from_us s < 2 ^ 63" "PersisterSize mops m \<le> uint64_npos"
    using small by (simp_all add: in_types_def)
  note q = subscribe_request_params [OF path bounds(1,2) req, folded p_def]
  show plain: "plain_request p" by (rule q(1))
  show i: "pp_i p = length (plog_entries ?l)" using q(2) f(1) by simp
  show since: "pp_since p = (if rs_from_us s > 0 then rs_from_us s else 0)" by (rule q(3))
  note bgn = m.begin_follower [OF inv(1) f(3) ext plain i since f(2) bounds(3)]
  show "ServeDataViaHTTP mops sch live False m r =
      ServeSubscription p (length (plog_entries ?l)) (if rs_from_us s > 0 then rs_from_us s else 0)"
    using q(5,7) plain unfolding ServeDataViaHTTP_def Let_def p_def [symmetric] bgn by (simp add: plain_request_def)
qed

lemma connection_cases:
  assumes path: "no_chars ''?#'' path" "path \<noteq> []" and inv: "minvar m" "following invar absl g s"
    and ext: "plog_extends (log_of absl s) (mabsl m)" and small: "in_types mops s m (sn_persister sn)"
    and conn: "served_connection mops w rm path s m sn ps"
  obtains p c u0 checked where "plain_request p" "pp_i p = length (plog_entries (log_of absl s))"
    "pp_since p = (if rs_from_us s > 0 then rs_from_us s else 0)"
    "subscription_reachable mops (endpoint_subscriber w checked) (length (plog_entries (log_of absl s)))
       \<lparr>sn_persister = m, sn_signal = False, sn_thread = thread_init (length (plog_entries (log_of absl s)))
          (if rs_from_us s > 0 then rs_from_us s else 0) u0\<rparr> sn"
    "endpoint_sent w (co_sent c) p u0 []" "\<not> sn_signal sn" "sent_pieces c (th_user (sn_thread sn)) ps"
proof -
  from conn obtain now r sch live p b from_us c where
    req: "subscribe_request path (rs_next_expected_index s) (rs_from_us s) (rm = ReplicationMode_Checked) now = Some r"
    and serve: "ServeDataViaHTTP mops sch live False m r = ServeSubscription p b from_us" and up: "co_left c = None"
    and rest: "subscription_reachable mops (endpoint_subscriber w (pp_checked p)) b
       \<lparr>sn_persister = m, sn_signal = False, sn_thread = thread_init b from_us (PubSubHTTPEndpointImpl p (rq_timestamp r) (sender_of c))\<rparr> sn"
      "\<not> sn_signal sn" "sent_pieces c (th_user (sn_thread sn)) ps"
    by (auto elim!: served_connection.cases)
  note start = connection_start [OF path inv ext small req]
  have p: "p = ParsePubSubHTTPRequest r" "b = length (plog_entries (log_of absl s))" "from_us = (if rs_from_us s > 0 then rs_from_us s else 0)"
    using start(4) [of sch live] serve by simp_all
  show ?thesis
    using that [of p _ "PubSubHTTPEndpointImpl p (rq_timestamp r) (sender_of c)" c] start(1-3) rest endpoint_sent_init [OF start(1) up]
    unfolding p by blast
qed

lemma connection_log:
  assumes path: "no_chars ''?#'' path" "path \<noteq> []" and inv: "minvar m" "following invar absl g s"
    and ext: "plog_extends (log_of absl s) (mabsl m)" and small: "in_types mops s m (sn_persister sn)"
    and conn: "served_connection mops w rm path s m sn ps"
  shows "minvar (sn_persister sn)" "plog_extends (mabsl m) (mabsl (sn_persister sn))"
    "events_of (mabsl (sn_persister sn)) (log_of absl s) (th_trace (sn_thread sn))"
    "\<forall>ev \<in> set (th_trace (sn_thread sn)). trace_us ev \<le> int64_max"
    "rs_from_us s > 0 \<or> plog_head (log_of absl s) < plog_head (mabsl m) \<Longrightarrow>
      \<forall>ev \<in> set (th_trace (sn_thread sn)). plog_head (log_of absl s) < trace_us ev"
proof -
  let ?l = "log_of absl s" and ?tr = "th_trace (sn_thread sn)"
  from connection_cases [OF path inv ext small conn] obtain u0 checked where
    reach: "subscription_reachable mops (endpoint_subscriber w checked) (length (plog_entries ?l))
       \<lparr>sn_persister = m, sn_signal = False, sn_thread = thread_init (length (plog_entries ?l))
          (if rs_from_us s > 0 then rs_from_us s else 0) u0\<rparr> sn" by metis
  have all: "sub_matches (endpoint_subscriber w checked) e" for e by (simp add: endpoint_subscriber_def)
  show inv': "minvar (sn_persister sn)" and "plog_extends (mabsl m) (mabsl (sn_persister sn))"
    using m.reachable_extends [OF reach] inv(1) by simp_all
  show ev: "events_of (mabsl (sn_persister sn)) ?l ?tr"
    using m.reachable_events [OF reach _ _ all] inv(1) by fastforce
  show "\<forall>ev \<in> set ?tr. trace_us ev \<le> int64_max"
    using ev small m.head [OF inv'] by (fastforce simp: events_of_def in_types_def)
  show "\<forall>ev \<in> set ?tr. plog_head ?l < trace_us ev" if "rs_from_us s > 0 \<or> plog_head ?l < plog_head (mabsl m)"
    using that inv ext by (intro m.reachable_after [OF reach]) (auto simp: following_def)
qed

lemma connection_text:
  assumes path: "no_chars ''?#'' path" "path \<noteq> []" and inv: "minvar m" "following invar absl g s"
    and ext: "plog_extends (log_of absl s) (mabsl m)" and small: "in_types mops s m (sn_persister sn)"
    and conn: "served_connection mops w rm path s m sn ps" and wire: "wire_ok w"
  shows "concat ps = events_text w (th_trace (sn_thread sn))"
proof -
  let ?tr = "th_trace (sn_thread sn)"
  from connection_cases [OF path inv ext small conn] obtain p c u0 checked where
    p: "plain_request p" "pp_i p = length (plog_entries (log_of absl s))" "pp_since p = (if rs_from_us s > 0 then rs_from_us s else 0)"
    and reach: "subscription_reachable mops (endpoint_subscriber w checked) (length (plog_entries (log_of absl s)))
       \<lparr>sn_persister = m, sn_signal = False, sn_thread = thread_init (length (plog_entries (log_of absl s)))
          (if rs_from_us s > 0 then rs_from_us s else 0) u0\<rparr> sn"
    and u0: "endpoint_sent w (co_sent c) p u0 []" and quiet: "\<not> sn_signal sn" and pieces: "sent_pieces c (th_user (sn_thread sn)) ps" .
  note log = connection_log [OF path inv ext small conn]
  have since: "pp_since p \<le> trace_us ev" if "0 < pp_since p" "ev \<in> set ?tr" for ev
    using log(5) that p(3) inv(2) by (fastforce simp: following_def split: if_splits)
  have "endpoint_sent w (co_sent c) p (th_user (sn_thread sn)) ?tr"
    by (rule reachable_more [OF endpoint_more [OF wire p(1)] reach _ u0 quiet]) simp
  from endpoint_sent_text [OF this pieces] show ?thesis
    using events_served [OF log(3) p(2) since] by simp
qed

lemma connection_blocked:
  assumes path: "no_chars ''?#'' path" "path \<noteq> []" and inv: "minvar m" "following invar absl g s"
    and ext: "plog_extends (log_of absl s) (mabsl m)" and small: "in_types mops s m (sn_persister sn)"
    and conn: "served_connection mops w rm path s m sn ps"
    and blocked: "th_pc (sn_thread sn) = Waiting" "\<not> wait_predicate mops (length (plog_entries (log_of absl s))) (sn_persister sn) False (sn_thread sn)"
  shows "trace_entries (th_trace (sn_thread sn)) = drop (length (plog_entries (log_of absl s))) (plog_records (mabsl (sn_persister sn)))"
proof -
  from connection_cases [OF path inv ext small conn] obtain u0 checked where
    reach: "subscription_reachable mops (endpoint_subscriber w checked) (length (plog_entries (log_of absl s)))
       \<lparr>sn_persister = m, sn_signal = False, sn_thread = thread_init (length (plog_entries (log_of absl s)))
          (if rs_from_us s > 0 then rs_from_us s else 0) u0\<rparr> sn" "\<not> sn_signal sn" by metis
  have "thread_step mops (endpoint_subscriber w checked) (length (plog_entries (log_of absl s))) (sn_persister sn) (sn_signal sn) (sn_thread sn) = None"
    using blocked reach(2) by (simp add: thread_step_def)
  from m.blocked_complete [OF reach(1) _ _ this] show ?thesis
    using inv(1) blocked(1) by (simp add: endpoint_subscriber_def)
qed

text \<open>A connection that is left alone, and its thread.\<close>

lemma connection_run:
  assumes path: "no_chars ''?#'' path" "path \<noteq> []" and inv: "minvar m" "following invar absl g s"
    and ext: "plog_extends (log_of absl s) (mabsl m)" and small: "in_types mops s m m" and wire: "wire_ok w"
  shows "\<exists>sub P u0. wants_more sub P \<and> P u0 [] \<and>
    (\<forall>th. quiet_run mops sub (length (plog_entries (log_of absl s))) m
        (thread_init (length (plog_entries (log_of absl s))) (if rs_from_us s > 0 then rs_from_us s else 0) u0) th \<longrightarrow>
      (\<exists>ps. served_connection mops w rm path s m \<lparr>sn_persister = m, sn_signal = False, sn_thread = th\<rparr> ps))"
proof -
  let ?l = "log_of absl s" and ?from = "if rs_from_us s > 0 then rs_from_us s else 0"
  obtain r where req: "subscribe_request path (rs_next_expected_index s) (rs_from_us s) (rm = ReplicationMode_Checked) 0 = Some r"
    using subscribe_url_parameters [OF path, of "rs_next_expected_index s" "rs_from_us s" "rm = ReplicationMode_Checked"]
    by (auto simp: subscribe_request_def)
  note start = connection_start [OF path inv ext small req]
  let ?p = "ParsePubSubHTTPRequest r" and ?c = "\<lparr>co_sent = [], co_left = None\<rparr>"
  let ?sub = "endpoint_subscriber w (pp_checked ?p)" and ?u = "PubSubHTTPEndpointImpl ?p (rq_timestamp r) (sender_of ?c)"
  let ?th = "thread_init (length (plog_entries ?l)) ?from ?u"
  have more: "wants_more ?sub (endpoint_sent w (co_sent ?c) ?p)" by (rule endpoint_more [OF wire start(1)])
  have u0: "endpoint_sent w (co_sent ?c) ?p ?u []" by (rule endpoint_sent_init [OF start(1)]) simp
  have "\<exists>ps. served_connection mops w rm path s m \<lparr>sn_persister = m, sn_signal = False, sn_thread = th\<rparr> ps"
    if run: "quiet_run mops ?sub (length (plog_entries ?l)) m ?th th" for th
  proof -
    let ?sn = "\<lparr>sn_persister = m, sn_signal = False, sn_thread = th\<rparr>"
    note reach = quiet_run_reachable [OF run]
    have "endpoint_sent w (co_sent ?c) ?p (th_user (sn_thread ?sn)) (th_trace (sn_thread ?sn))"
      by (rule reachable_more [OF more reach _ u0]) simp_all
    then obtain ps where "sent_pieces ?c (th_user (sn_thread ?sn)) ps"
      using healthy_pieces [of ?c] by (auto simp: endpoint_sent_def)
    with reach start(4) req have "served_connection mops w rm path s m ?sn ps"
      by (intro served [where c = ?c]) auto
    then show ?thesis by blast
  qed
  with more u0 show ?thesis by blast
qed

lemma extends_ahead:
  assumes "plog_inv R" "plog_extends l R" "length (plog_entries l) < length (plog_entries R)"
  shows "plog_head l < plog_head R"
proof -
  let ?x = "plog_records R ! length (plog_entries l)"
  have x: "plog_head l < idx_us (fst ?x)"
    using assms(3) by (intro plog_extends_rest(1) [OF assms(2)]) (simp flip: Cons_nth_drop_Suc)
  have "idx_us (fst ?x) \<in> set (plog_timestamps R)" using assms(3) by (simp flip: map_idx_us_records)
  then show ?thesis using x assms(1) by (fastforce simp: plog_inv_def)
qed

lemma connection_exists:
  assumes path: "no_chars ''?#'' path" "path \<noteq> []" and inv: "minvar m" "following invar absl g s"
    and ext: "plog_extends (log_of absl s) (mabsl m)" and small: "in_types mops s m m" and wire: "wire_ok w"
  shows "\<exists>sn ps. served_connection mops w rm path s m sn ps \<and> sn_persister sn = m \<and> th_pc (sn_thread sn) = Waiting \<and>
    \<not> wait_predicate mops (length (plog_entries (log_of absl s))) (sn_persister sn) False (sn_thread sn)"
proof -
  let ?n = "length (plog_entries (log_of absl s))" and ?from = "if rs_from_us s > 0 then rs_from_us s else 0"
  obtain sub :: "(endpoint, 'e) subscriber" and P u0 where more: "wants_more sub P" and u0: "P u0 []"
    and conn: "\<And>th. quiet_run mops sub ?n m (thread_init ?n ?from u0) th \<Longrightarrow>
      \<exists>ps. served_connection mops w rm path s m \<lparr>sn_persister = m, sn_signal = False, sn_thread = th\<rparr> ps"
    using connection_run [OF path inv ext small wire, of rm] by blast
  have late: "th_head (thread_init ?n ?from u0) < plog_head (mabsl m)" if "?n < length (plog_entries (mabsl m))"
    using extends_ahead [OF m.invar_plog [OF inv(1)] ext that] inv(2) invar_plog [of "str_persister (rs_subscriber s)"]
    by (auto simp: thread_init_def following_def log_of_def plog_inv_def)
  have "\<exists>th'. quiet_run mops sub ?n m (thread_init ?n ?from u0) th' \<and> th_pc th' = Waiting \<and> \<not> wait_predicate mops ?n m False th'"
    using late plog_extends_rest(3) [OF ext] u0
    by (intro m.blocked_run [OF inv(1) more]) (simp_all add: thread_init_def)
  then show ?thesis using conn by force
qed

text \<open>A follower that has everything, asks for no moment, and is told the head that it knows.\<close>

lemma stale_connection_exists:
  assumes path: "no_chars ''?#'' path" "path \<noteq> []" and inv: "minvar m" "following invar absl g s"
    and ext: "plog_extends (log_of absl s) (mabsl m)" and small: "in_types mops s m m" and wire: "wire_ok w"
    and stale: "rs_from_us s \<le> 0" "plog_head (log_of absl s) = plog_head (mabsl m)" "0 \<le> plog_head (mabsl m)"
  shows "\<exists>sn ps. served_connection mops w rm path s m sn ps \<and> sn_persister sn = m \<and>
    concat ps = JSON_ts_only w (plog_head (mabsl m)) @ [newline]"
proof -
  let ?n = "length (plog_entries (log_of absl s))" and ?h = "plog_head (mabsl m)"
  have n: "?n = length (plog_entries (mabsl m))"
    using extends_ahead [OF m.invar_plog [OF inv(1)] ext] plog_extends_rest(3) [OF ext] stale(2) by fastforce
  obtain sub :: "(endpoint, 'e) subscriber" and P u0 where more: "wants_more sub P" and u0: "P u0 []"
    and conn: "\<And>th. quiet_run mops sub ?n m (thread_init ?n 0 u0) th \<Longrightarrow>
      \<exists>ps. served_connection mops w rm path s m \<lparr>sn_persister = m, sn_signal = False, sn_thread = th\<rparr> ps"
    using connection_run [OF path inv ext small wire, of rm] stale(1) by auto
  let ?th = "thread_init ?n 0 u0 :: (endpoint, 'e) subscriber_thread"
  obtain u where "sub_head sub ?h u0 = (ResponseMore, u)"
    using more u0 unfolding wants_more_def by (metis surj_pair)
  then have s2: "thread_step mops sub ?n m False (?th\<lparr>th_pc := Notifying ?n ?h\<rparr>) =
      Some (?th\<lparr>th_user := u, th_trace := [TraceHead ?h], th_head := ?h\<rparr>)"
    using stale(3) by (simp add: thread_step_def notify_step_def thread_init_def)
  have s1: "thread_step mops sub ?n m False ?th = Some (?th\<lparr>th_pc := Notifying ?n ?h\<rparr>)"
    using stale(3) n by (auto simp: thread_step_def loop_step_def check_terminate_def m.head_and_last [OF inv(1)] plog_last_def Let_def thread_init_def)
  obtain ps where ps: "served_connection mops w rm path s m
      \<lparr>sn_persister = m, sn_signal = False, sn_thread = ?th\<lparr>th_user := u, th_trace := [TraceHead ?h], th_head := ?h\<rparr>\<rparr> ps" (is "served_connection _ _ _ _ _ _ ?sn _")
    using conn [OF quiet_run_step [OF s1 quiet_run_step [OF s2 quiet_run_refl]]] by blast
  have "in_types mops s m (sn_persister ?sn)" using small by simp
  from connection_text [OF path inv ext this ps wire] have "concat ps = JSON_ts_only w ?h @ [newline]" by (simp add: events_text_def)
  with ps show ?thesis by (intro exI [of _ ?sn] exI [of _ ps]) simp
qed

lemma stale_connection:
  assumes path: "no_chars ''?#'' path" "path \<noteq> []" and inv: "minvar m" "following invar absl g (rt_subscriber t)"
    "rs_carried_over_data (rt_subscriber t) = []"
    and ext: "plog_extends (log_of absl (rt_subscriber t)) (mabsl m)" and small: "in_types mops (rt_subscriber t) m m" and wire: "wire_ok w"
    and stale: "plog_head (log_of absl (rt_subscriber t)) = plog_head (mabsl m)"
    and conn: "served_connection mops w rm path (rt_subscriber t) m sn ps" "sn_persister sn = m"
    and part: "concat (at_chunks a) = take n (concat ps)"
    and run: "thread_iteration w rm (StreamReplicatorImpl ops unsafe g) same_schema a t = Some (t', fin)"
  shows "rt_subscriber t' = rt_subscriber t"
proof -
  let ?l = "log_of absl (rt_subscriber t)" and ?tr = "th_trace (sn_thread sn)"
  have small': "in_types mops (rt_subscriber t) m (sn_persister sn)" using small conn(2) by simp
  note log = connection_log [OF path inv(1,2) ext small' conn(1)]
  have "length (plog_entries ?l) = length (plog_entries (mabsl m))"
    using extends_ahead [OF m.invar_plog [OF inv(1)] ext] plog_extends_rest(3) [OF ext] stale by fastforce
  then have none: "trace_entries ?tr = []" using log(3) by (auto simp: events_of_def conn(2))
  have heads: "\<exists>u. ev = TraceHead u \<and> u \<le> plog_head ?l \<and> u \<le> int64_max" if "ev \<in> set ?tr" for ev
  proof (cases ev)
    case (TraceEntry i e)
    then show ?thesis using trace_entry_mem [of i e ?tr] that none by simp
  next
    case (TraceHead u)
    then show ?thesis using log(3,4) that stale by (force simp: events_of_def conn(2))
  qed
  obtain k tail where cut: "take n (concat ps) = events_text w (take k ?tr) @ tail" "\<forall>c \<in> set tail. \<not> is_eol c"
    using text_prefix [OF wire, of n ?tr] unfolding connection_text [OF path inv(1,2) ext small' conn(1) wire] by blast
  show ?thesis
    by (rule stale_iteration [OF wire inv(2,3) _ part [unfolded cut(1)] cut(2) run]) (use heads in \<open>blast dest: in_set_takeD\<close>)
qed

lemma behind_step:
  assumes path: "no_chars ''?#'' path" "path \<noteq> []" and wire: "wire_ok w" and x: "behind minvar mabsl invar absl g x"
    and step: "replication_step mops (StreamReplicatorImpl ops unsafe g) w rm path same_schema x x'"
  shows "behind minvar mabsl invar absl g x'"
  using step
proof cases
  case (rep_publish e u i m)
  then have "minvar m" "plog_extends (mabsl (rep_master x)) (mabsl m)"
    using x m.publish_ok [of "rep_master x" e u i m] plog_publish_extends [of e u _ i] by (auto simp: behind_def)
  then show ?thesis using x rep_publish(1) plog_extends_trans by (auto simp: behind_def)
next
  case (rep_update_head u m)
  then have "minvar m" "plog_extends (mabsl (rep_master x)) (mabsl m)"
    using x m.update_head_ok [of "rep_master x" u m] plog_update_head_extends by (auto simp: behind_def)
  then show ?thesis using x rep_update_head(1) plog_extends_trans by (auto simp: behind_def)
next
  case (rep_connection sn ps a n t fin)
  let ?s = "rt_subscriber (rep_follower x)"
  have inv: "minvar (rep_master x)" "following invar absl g ?s" "rs_carried_over_data ?s = []"
    and ext: "plog_extends (log_of absl ?s) (mabsl (rep_master x))" using x by (simp_all add: behind_def)
  note log = connection_log [OF path inv(1,2) ext rep_connection(4,3)]
  have ext': "plog_extends (log_of absl ?s) (mabsl (sn_persister sn))" by (rule plog_extends_trans [OF ext log(2)])
  obtain k tail where cut: "take n (concat ps) = events_text w (take k (th_trace (sn_thread sn))) @ tail" "\<forall>c \<in> set tail. \<not> is_eol c"
    using text_prefix [OF wire, of n "th_trace (sn_thread sn)"]
    unfolding connection_text [OF path inv(1,2) ext rep_connection(4,3) wire] by blast
  have "\<forall>ev \<in> set (take k (th_trace (sn_thread sn))). trace_us ev \<le> int64_max" using log(4) by (auto dest: in_set_takeD)
  from iteration_reads [OF wire inv(2,3) this rep_connection(5) [unfolded cut(1)] cut(2) rep_connection(6)]
  have "following invar absl g (rt_subscriber t)" "rs_carried_over_data (rt_subscriber t) = []"
    "log_of absl (rt_subscriber t) = log_of absl ?s \<or>
     log_of absl (rt_subscriber t) = fst (replay_events (take k (th_trace (sn_thread sn))) (log_of absl ?s))" by auto
  then show ?thesis
    using ext' replay_extends [OF m.invar_plog [OF log(1)] ext' events_of_prefix [OF log(3)]] log(1) rep_connection(1)
    by (auto simp: behind_def)
qed

lemma behind_fresh:
  assumes "minvar (rep_master x)" "invar (follower_persister x)" "fresh_follower ops (rep_follower x)"
    "str_generation (rs_subscriber (rt_subscriber (rep_follower x))) = g" "plog_extends (absl (follower_persister x)) (mabsl (rep_master x))"
  shows "behind minvar mabsl invar absl g x"
  using assms fresh_followerD [OF assms(3)] size [OF assms(2)]
  by (simp add: behind_def following_def log_of_def follower_persister_def)

lemma behind_reachable:
  assumes "no_chars ''?#'' path" "path \<noteq> []" "wire_ok w" "behind minvar mabsl invar absl g x0"
    "replication_reachable mops (StreamReplicatorImpl ops unsafe g) w rm path same_schema x0 x"
  shows "behind minvar mabsl invar absl g x"
  using assms(5) by induction (use assms(4) behind_step [OF assms(1-3)] in blast)+

text \<open>A connection over which everything arrives brings all records.\<close>

lemma catches_up:
  assumes path: "no_chars ''?#'' path" "path \<noteq> []" and wire: "wire_ok w" and x: "behind minvar mabsl invar absl g x"
    and new: "rs_from_us (rt_subscriber (rep_follower x)) > 0 \<or>
      plog_head (log_of absl (rt_subscriber (rep_follower x))) < plog_head (mabsl (rep_master x))"
    and conn: "served_connection mops w rm path (rt_subscriber (rep_follower x)) (rep_master x) sn ps"
    and small: "in_types mops (rt_subscriber (rep_follower x)) (rep_master x) (sn_persister sn)"
    and blocked: "th_pc (sn_thread sn) = Waiting"
      "\<not> wait_predicate mops (length (plog_entries (log_of absl (rt_subscriber (rep_follower x))))) (sn_persister sn) False (sn_thread sn)"
    and a: "concat (at_chunks a) = concat ps" "\<not> at_terminate_requested a" "CheckSchema same_schema (at_schema_reply a) = SchemaOK"
  shows "\<exists>t. thread_iteration w rm (StreamReplicatorImpl ops unsafe g) same_schema a (rep_follower x) = Some (t, False) \<and>
    plog_records (log_of absl (rt_subscriber t)) = plog_records (mabsl (sn_persister sn))"
proof -
  let ?s = "rt_subscriber (rep_follower x)" and ?tr = "th_trace (sn_thread sn)"
  let ?l = "log_of absl (rt_subscriber (rep_follower x))"
  have inv: "minvar (rep_master x)" "following invar absl g ?s" "rs_carried_over_data ?s = []"
    and ext: "plog_extends ?l (mabsl (rep_master x))" using x by (simp_all add: behind_def)
  note log = connection_log [OF path inv(1,2) ext small conn]
  note entries = connection_blocked [OF path inv(1,2) ext small conn blocked]
  have records: "plog_records (mabsl (sn_persister sn)) = plog_records ?l @ trace_entries ?tr"
    using plog_extends_rest(2) [OF plog_extends_trans [OF ext log(2)]] entries by simp
  have "map (\<lambda>r. idx_index (fst r)) (trace_entries ?tr) = [length (plog_entries ?l)..<length (plog_entries ?l) + length (trace_entries ?tr)]"
    using records_indexes [of "length (plog_entries ?l)" "mabsl (sn_persister sn)"] arg_cong [OF records, of length] entries by simp
  then have all: "plog_records (fst (replay_events ?tr ?l)) = plog_records ?l @ trace_entries ?tr"
    using replay_all [of ?tr ?l] log(3) log(5) [OF new] by (simp add: events_of_def)
  have "concat (at_chunks a) = events_text w ?tr @ []" using a(1) connection_text [OF path inv(1,2) ext small conn wire] by simp
  from iteration_reads [OF wire inv(2,3) log(4) this _ refl, of rm same_schema] show ?thesis
    using a(2,3) all records by auto
qed

end

interpretation file_to_file: replicated_pair "file_ops (wire_codec w)" "fp_inv (wire_codec w) msig" "fp_plog (wire_codec w)"
    "file_ops (wire_codec w)" "fp_inv (wire_codec w) sig" "fp_plog (wire_codec w)" w "fp_PublishUnsafeImpl (wire_codec w)"
  for w :: "'e wire" and msig sig :: string
  by unfold_locales

interpretation memory_to_file: replicated_pair memory_ops mem_inv mem_plog
    "file_ops (wire_codec w)" "fp_inv (wire_codec w) sig" "fp_plog (wire_codec w)" w "fp_PublishUnsafeImpl (wire_codec w)"
  for w :: "'e wire" and sig :: string
  by unfold_locales

subsection \<open>Properties\<close>

text \<open>
  C27: A replica is a past state of its master.  However often the connection is lost, wherever the text is cut, whatever
  the master publishes meanwhile and in both modes, at any moment the log of a follower in a file is an initial part of the log
  of the master, the entries it lacks are all later than its head, and its head is not ahead of the master's.
\<close>

theorem replica_is_past_of_master:
  assumes "wire_ok w" "no_chars ''?#'' path" "path \<noteq> []"
    "fp_inv (wire_codec w) msig (rep_master x0)" "fp_inv (wire_codec w) sig (follower_persister x0)"
    "fresh_follower (file_ops (wire_codec w)) (rep_follower x0)" "str_generation (rs_subscriber (rt_subscriber (rep_follower x0))) = g"
    "plog_extends (fp_plog (wire_codec w) (follower_persister x0)) (fp_plog (wire_codec w) (rep_master x0))"
    "replication_reachable (file_ops (wire_codec w))
      (StreamReplicatorImpl (file_ops (wire_codec w)) (fp_PublishUnsafeImpl (wire_codec w)) g) w rm path same_schema x0 x"
  shows "plog_extends (fp_plog (wire_codec w) (follower_persister x)) (fp_plog (wire_codec w) (rep_master x))"
proof -
  from file_to_file.behind_reachable [OF assms(2,3,1) file_to_file.behind_fresh [OF assms(4-8)] assms(9)] show ?thesis
    by (simp add: behind_def log_of_def follower_persister_def)
qed

theorem replica_is_past_of_master_witness:
  "\<exists>x0 x. fp_plog nat_codec (rep_master x) = \<lparr>plog_entries = [(5, 7)], plog_head = 5\<rparr> \<and>
    replication_reachable (file_ops nat_codec) (StreamReplicatorImpl (file_ops nat_codec) (fp_PublishUnsafeImpl nat_codec) 0)
      nat_wire ReplicationMode_Checked ''/log'' (\<lambda>s. True) x0 x \<and>
    plog_extends (fp_plog nat_codec (follower_persister x)) (fp_plog nat_codec (rep_master x))"
proof -
  have cd: "wire_codec nat_wire = nat_codec" by (simp add: nat_wire_def)
  obtain fp where fp: "fp_inv nat_codec ''{}'' fp" "fp_plog nat_codec fp = plog_empty"
    using fp_inv_open_empty [OF nat_codec_ok, of "''{}''"] by (auto simp: signature_ok_def isspace_def)
  have "plog_head (fp_plog nat_codec fp) < 5" by (simp add: fp(2) plog_empty_def)
  from fp.publish_succeeds [OF fp(1) this, of 7] obtain m where
    m: "PersisterPublish (file_ops nat_codec) 7 5 fp = Inr (\<lparr>idx_index = 0, idx_us = 5\<rparr>, m)"
      "fp_plog nat_codec m = \<lparr>plog_entries = [(5, 7)], plog_head = 5\<rparr>" by (auto simp: fp(2) plog_empty_def)
  let ?t = "\<lparr>rt_subscriber = RemoteStreamSubscriber (CreateStream fp) (PersisterSize (file_ops nat_codec) fp) 0,
      rt_terminate_sent = False, rt_subscription_id = [], rt_malformed_count = 0\<rparr>"
  let ?x0 = "\<lparr>rep_master = fp, rep_follower = ?t, rep_done = False\<rparr>"
  have path: "no_chars ''?#'' ''/log''" by (simp add: no_chars_def)
  have x0: "follower_persister ?x0 = fp" "fresh_follower (file_ops nat_codec) ?t" "str_generation (rs_subscriber (rt_subscriber ?t)) = 0"
    by (simp_all add: follower_persister_def fresh_follower_def RemoteStreamSubscriber_def CreateStream_def)
  have "replication_step (file_ops nat_codec) user nat_wire rm path same ?x0 (?x0\<lparr>rep_master := m\<rparr>)" for user rm path same
    by (rule rep_publish) (use m(1) in simp)
  from replication_next [OF replication_init this]
  have reach: "replication_reachable (file_ops nat_codec) (StreamReplicatorImpl (file_ops nat_codec) (fp_PublishUnsafeImpl nat_codec) 0)
      nat_wire ReplicationMode_Checked ''/log'' (\<lambda>s. True) ?x0 (?x0\<lparr>rep_master := m\<rparr>)" .
  have "plog_extends (fp_plog nat_codec (follower_persister (?x0\<lparr>rep_master := m\<rparr>))) (fp_plog nat_codec (rep_master (?x0\<lparr>rep_master := m\<rparr>)))"
    using replica_is_past_of_master [OF nat_wire_ok path, of "''{}''" ?x0 "''{}''" 0 ReplicationMode_Checked "\<lambda>s. True" "?x0\<lparr>rep_master := m\<rparr>"]
      fp x0 reach unfolding cd by simp
  with reach m(2) show ?thesis by (intro exI [of _ ?x0] exI [of _ "?x0\<lparr>rep_master := m\<rparr>"]) simp
qed

text \<open>The subscription has nothing left to send; and everything sent arrives at a thread that reads it.\<close>

definition drained :: "('m, 'e) persister_ops \<Rightarrow> 'u remote_subscriber \<Rightarrow> ('m, endpoint, 'e) subscription \<Rightarrow> bool" where
  "drained mops s sn \<longleftrightarrow> th_pc (sn_thread sn) = Waiting \<and>
     \<not> wait_predicate mops (rs_next_expected_index s) (sn_persister sn) False (sn_thread sn)"

definition delivers_all :: "(string \<Rightarrow> bool) \<Rightarrow> attempt \<Rightarrow> string list \<Rightarrow> bool" where
  "delivers_all same_schema a ps \<longleftrightarrow> concat (at_chunks a) = concat ps \<and> \<not> at_terminate_requested a \<and>
     CheckSchema same_schema (at_schema_reply a) = SchemaOK"

text \<open>
  C28: A replica catches up.  At any moment of a replication from memory into a file, if the follower's last read line was a
  head or the master is ahead of it, one connection is enough: the subscription sends until it is blocked, and whenever
  everything it sent by then arrives, in any chunks, the follower has exactly the entries that the master had when it blocked.
\<close>

theorem replica_catches_up:
  assumes "wire_ok w" "no_chars ''?#'' path" "path \<noteq> []" "mem_inv (rep_master x0)" "fp_inv (wire_codec w) sig (follower_persister x0)"
    "fresh_follower (file_ops (wire_codec w)) (rep_follower x0)" "str_generation (rs_subscriber (rt_subscriber (rep_follower x0))) = g"
    "plog_extends (fp_plog (wire_codec w) (follower_persister x0)) (mem_plog (rep_master x0))"
    "replication_reachable memory_ops (StreamReplicatorImpl (file_ops (wire_codec w)) (fp_PublishUnsafeImpl (wire_codec w)) g)
      w rm path same_schema x0 x"
    "s = rt_subscriber (rep_follower x)" "in_types memory_ops s (rep_master x) (rep_master x)"
    "rs_from_us s > 0 \<or> plog_head (fp_plog (wire_codec w) (follower_persister x)) < mem_head (rep_master x)"
  shows "(\<exists>sn ps. served_connection memory_ops w rm path s (rep_master x) sn ps \<and> sn_persister sn = rep_master x \<and> drained memory_ops s sn) \<and>
    (\<forall>sn ps a. served_connection memory_ops w rm path s (rep_master x) sn ps \<longrightarrow> drained memory_ops s sn \<longrightarrow>
       in_types memory_ops s (rep_master x) (sn_persister sn) \<longrightarrow> delivers_all same_schema a ps \<longrightarrow>
       (\<exists>t. thread_iteration w rm (StreamReplicatorImpl (file_ops (wire_codec w)) (fp_PublishUnsafeImpl (wire_codec w)) g) same_schema a
            (rep_follower x) = Some (t, False) \<and>
          plog_records (fp_plog (wire_codec w) (str_persister (rs_subscriber (rt_subscriber t)))) = plog_records (mem_plog (sn_persister sn))))"
proof -
  have x: "behind mem_inv mem_plog (fp_inv (wire_codec w) sig) (fp_plog (wire_codec w)) g x"
    by (rule memory_to_file.behind_reachable [OF assms(2,3,1) memory_to_file.behind_fresh [OF assms(4-8)] assms(9)])
  then have inv: "mem_inv (rep_master x)" "following (fp_inv (wire_codec w) sig) (fp_plog (wire_codec w)) g s"
    "plog_extends (log_of (fp_plog (wire_codec w)) s) (mem_plog (rep_master x))" by (simp_all add: behind_def assms(10))
  have idx: "rs_next_expected_index s = length (plog_entries (log_of (fp_plog (wire_codec w)) s))"
    using inv(2) by (simp add: following_def)
  have new: "0 < rs_from_us s \<or> plog_head (log_of (fp_plog (wire_codec w)) s) < plog_head (mem_plog (rep_master x))"
    using assms(10,12) by (simp add: log_of_def follower_persister_def mem_plog_def)
  show ?thesis
    unfolding drained_def idx delivers_all_def
    using memory_to_file.connection_exists [OF assms(2,3) inv assms(11,1)]
      memory_to_file.catches_up [OF assms(2,3,1) x, folded assms(10), OF new]
    by (auto simp: log_of_def)
qed

theorem replica_catches_up_witness:
  "\<exists>x0 t. fp_plog nat_codec (follower_persister x0) = plog_empty \<and> rep_master x0 = example_memory \<and>
    (\<exists>a. thread_iteration nat_wire ReplicationMode_Unchecked
        (StreamReplicatorImpl (file_ops nat_codec) (fp_PublishUnsafeImpl nat_codec) 0) (\<lambda>s. True) a (rep_follower x0) = Some (t, False)) \<and>
    plog_records (fp_plog nat_codec (str_persister (rs_subscriber (rt_subscriber t)))) = plog_records (mem_plog example_memory)"
proof -
  have cd: "wire_codec nat_wire = nat_codec" by (simp add: nat_wire_def)
  obtain fp where fp: "fp_inv nat_codec ''{}'' fp" "fp_plog nat_codec fp = plog_empty"
    using fp_inv_open_empty [OF nat_codec_ok, of "''{}''"] by (auto simp: signature_ok_def isspace_def)
  have sz: "PersisterSize (file_ops nat_codec) fp = 0" using fp.size [OF fp(1)] by (simp add: fp(2) plog_empty_def)
  define t0 where "t0 = \<lparr>rt_subscriber = RemoteStreamSubscriber (CreateStream fp) (PersisterSize (file_ops nat_codec) fp) 0,
      rt_terminate_sent = False, rt_subscription_id = [], rt_malformed_count = 0\<rparr>"
  define x0 where "x0 = \<lparr>rep_master = example_memory, rep_follower = t0, rep_done = False\<rparr>"
  let ?user = "StreamReplicatorImpl (file_ops nat_codec) (fp_PublishUnsafeImpl nat_codec) 0"
  have path: "no_chars ''?#'' ''/log''" "''/log'' \<noteq> []" by (simp_all add: no_chars_def)
  have x0: "rep_master x0 = example_memory" "rep_follower x0 = t0" "follower_persister x0 = fp" "fresh_follower (file_ops nat_codec) (rep_follower x0)"
    "str_generation (rs_subscriber (rt_subscriber (rep_follower x0))) = 0"
    by (simp_all add: follower_persister_def fresh_follower_def RemoteStreamSubscriber_def CreateStream_def x0_def t0_def)
  have mem: "mem_inv (rep_master x0)" "plog_extends (fp_plog nat_codec (follower_persister x0)) (mem_plog (rep_master x0))"
    unfolding x0 fp(2)
    by (simp_all add: mem_inv_def plog_inv_def example_memory_def plog_timestamps_def mem_plog_def plog_extends_def plog_empty_def plog_records_def)
  have types: "in_types memory_ops (rt_subscriber (rep_follower x0)) (rep_master x0) (rep_master x0)"
    unfolding x0 by (simp add: t0_def in_types_def sz RemoteStreamSubscriber_def memory_ops_def mem_SizeImpl_def mem_CurrentHeadImpl_def
        example_memory_def uint64_npos_def int64_max_def)
  have new: "rs_from_us (rt_subscriber (rep_follower x0)) > 0 \<or> plog_head (fp_plog nat_codec (follower_persister x0)) < mem_head (rep_master x0)"
    unfolding x0 fp(2) by (simp add: plog_empty_def example_memory_def)
  note both = replica_catches_up [of nat_wire, unfolded cd, OF nat_wire_ok path mem(1) fp(1) [folded x0(3)] x0(4,5) mem(2) replication_init refl types new,
      of ReplicationMode_Unchecked "\<lambda>s. True", unfolded x0(1,2)]
  then obtain sn ps where conn: "served_connection memory_ops nat_wire ReplicationMode_Unchecked ''/log'' (rt_subscriber t0) example_memory sn ps"
    "sn_persister sn = example_memory" "drained memory_ops (rt_subscriber t0) sn" by blast
  let ?a = "\<lparr>at_terminate_requested = False, at_schema_reply = Some (200, []), at_headers = [], at_chunks = ps, at_chunks_after_termination = []\<rparr>"
  have all: "delivers_all (\<lambda>s. True) ?a ps" by (simp add: delivers_all_def CheckSchema_def)
  have "in_types memory_ops (rt_subscriber t0) example_memory (sn_persister sn)" using types conn(2) x0 by simp
  with both conn all obtain t where t: "thread_iteration nat_wire ReplicationMode_Unchecked ?user (\<lambda>s. True) ?a t0 = Some (t, False)"
    "plog_records (fp_plog nat_codec (str_persister (rs_subscriber (rt_subscriber t)))) = plog_records (mem_plog example_memory)"
    by metis
  then show ?thesis using fp(2) x0 by (intro exI [of _ x0] exI [of _ t]) auto
qed



end
