(* ===== verification/Spec2Isabelle.thy ===== *)
theory Spec2Isabelle
  imports Chrono Mmq CompactTsv Base64 Replication
begin

text \<open>
  A verification library of Current, a C++ library whose core is an append-only stream of timestamped
  entries and a transactional in-memory storage kept as such a stream.

  \<^bold>\<open>The parts of the program.\<close>  A storage (\<^verbatim>\<open>src/storage\<close>) is a set of containers that log every mutation,
  with its inverse, in a journal.  A transaction runs a user's body over the containers; its journal is
  rolled back, or published as one entry of a stream.  A stream (\<^verbatim>\<open>src/stream\<close>) appends entries to a
  persister, in memory or in a text file (\<^verbatim>\<open>src/blocks/persistence\<close>), and passes them on to subscribers, each
  a thread of its own; a storage that follows a stream is such a subscriber.  Timestamps come from a clock
  that never repeats a value (\<^verbatim>\<open>src/bricks/time\<close>).

  \<^bold>\<open>The theories.\<close>
  \<^item> \<open>Prelude\<close>: type synonyms, collections of rules, generic lemmas.
  \<^item> \<open>Chrono\<close> (\<^verbatim>\<open>bricks/time/chrono.h\<close>): the clock for one caller (\<open>Now\<close>), the compare-exchange loop under any
    interleaving of threads (\<open>cas_step\<close>), the mock clock.
  \<^item> \<open>Journal\<close> (\<^verbatim>\<open>storage/base.h\<close>, \<^verbatim>\<open>storage/transaction.h\<close>): commit log, rollback closures, metadata; the locale
    \<open>journaled_field\<close> is what a container promises: each operation can be undone and replayed.
  \<^item> \<open>Dictionary\<close>, \<open>Elements\<close>, \<open>OneToOne\<close>, \<open>OneToMany\<close>, \<open>ManyToMany\<close> (\<^verbatim>\<open>storage/container\<close>): the containers.
    \<open>Elements\<close> is the heap of entries and the indexes of bare pointers that the three matrix containers share,
    with the locale \<open>matrix_container\<close>.
  \<^item> \<open>Transaction\<close> (\<^verbatim>\<open>storage/transaction_policy.h\<close>, \<^verbatim>\<open>storage/transaction_result.h\<close>): the six ways to run a
    transaction; locales \<open>journal_persister\<close> and \<open>transactional\<close>.
  \<^item> \<open>StorageFields\<close> (the macros of \<^verbatim>\<open>storage/storage.h\<close>): a storage's fields as a list of containers.
  \<^item> \<open>Strings\<close>, \<open>Split\<close> (\<^verbatim>\<open>bricks/strings\<close>): decimal printing and reading, lines, splitting and joining.
  \<^item> \<open>Persister\<close>, \<open>MemoryPersister\<close>, \<open>FilePersister\<close> (\<^verbatim>\<open>blocks/ss\<close>, \<^verbatim>\<open>blocks/persistence\<close>): the abstract log \<open>plog\<close>, the
    locale \<open>persister\<close> that says an implementation refines it, and the two implementations.
  \<^item> \<open>Stream\<close> (\<^verbatim>\<open>stream/stream.h\<close>, \<^verbatim>\<open>stream/stream_impl.h\<close>, \<^verbatim>\<open>blocks/ss/pubsub.h\<close>): publishers, subscriber threads.
  \<^item> \<open>StoragePersister\<close>, \<open>Storage\<close> (\<^verbatim>\<open>storage/persister/stream.h\<close>, \<^verbatim>\<open>storage/storage.h\<close>): a storage over a stream.
  \<^item> \<open>EntryCodec\<close>: a concrete encoding of entries that satisfies the hypotheses on JSON, and a small storage,
    for the witnesses.
  \<^item> \<open>Headers\<close>, \<open>Http\<close>, \<open>HttpParser\<close> (\<^verbatim>\<open>bricks/net/http\<close>): headers with their owned objects and bare pointers, whole and
    chunked responses, and the parser of requests and responses.
  \<^item> \<open>Url\<close> (\<^verbatim>\<open>blocks/url/url.h\<close>): parsing and composing of URLs, percent encoding.
  \<^item> \<open>PubSub\<close> (\<^verbatim>\<open>stream/pubsub.h\<close>, \<^verbatim>\<open>ServeDataViaHTTP\<close> of \<^verbatim>\<open>stream/stream.h\<close>): a stream served over HTTP, the endpoint being a
    subscriber; locale \<open>entry_overload\<close> for its two ways to read an entry.
  \<^item> \<open>Replicator\<close>, \<open>FollowerLog\<close> (\<^verbatim>\<open>stream/replicator.h\<close>): a remote subscriber, its thread, and the replicator into a local
    stream; locale \<open>replica\<close> for the persister it publishes into.
  \<^item> \<open>Replication\<close>: a master served over HTTP and its follower together; locale \<open>replicated_pair\<close>, for masters in memory and in
    a file.
  \<^item> \<open>Mmq\<close> (\<^verbatim>\<open>blocks/mmq\<close>): the circular buffer between publishing threads and a consumer, step by step, and the
    queue ordered by timestamp.
  \<^item> \<open>CompactTsv\<close> (\<^verbatim>\<open>compact_tsv/compact_tsv.h\<close>), \<open>Base64\<close> (\<^verbatim>\<open>bricks/util/base64.h\<close>): packed tables, and Base64.

  \<^bold>\<open>How code is represented.\<close>  A class is a record and its methods are functions from the record to the
  record; an exception is a value of a sum type; undefined behaviour (a read through a dangling pointer, a
  dereferenced \<^verbatim>\<open>end()\<close>) is \<^const>\<open>None\<close>, and the theorems show where it cannot occur.  \<^verbatim>\<open>CURRENT_ASSERT\<close> only prints
  to the standard error stream and continues, so it has no effect on the state.  Critical sections are
  single steps; threads interleave between them.  Microseconds and indexes are unbounded integers, except
  where the text is read back into 64 bits, and in the byte formats of \<open>CompactTsv\<close> and \<open>Base64\<close>, whose widths are those of the
  code.  Loops are structural recursion, or \<open>function\<close> with a termination proof.  The only fuel is that of the loop
  over the columns of a packed row, which need not end; \<open>pack_row_ends\<close> shows that 257 steps are enough whenever any
  number is.

  \<^bold>\<open>Parameters.\<close>  The JSON encoding of entries is an argument (\<open>codec\<close>), since it depends on the user's entry
  type; what is asked of it (\<open>codec_ok\<close>) is that reading back what was printed gives the value and that the
  text has no control characters.  Patches of entries, keys of entries, transaction bodies and subscribers
  are arguments too.

  \<^bold>\<open>What is shown.\<close>  A storage restarted from its file is the storage before (\<open>storage_survives_restart\<close>);
  transactions are atomic (\<open>transaction_atomic\<close>); a follower flipped to master misses nothing
  (\<open>follower_becomes_master\<close>); the two persisters are interchangeable (\<open>persisters_agree\<close>) and a log file can be
  reopened at any moment (\<open>file_reopens\<close>); a subscriber sees the log in order and without gaps
  (\<open>subscriber_sees_the_log\<close>) and is never blocked while there is something to see
  (\<open>blocked_subscriber_has_everything\<close>); every container does what its interface says.  Two properties record
  defects: \<open>two_step_rollback_keeps_changes\<close> and \<open>future_subscription_spins\<close>.
  An HTTP message is parsed the same however the network cuts it (\<open>http_cut_independent\<close>), and responses are read
  back as they were sent (\<open>chunked_response_roundtrip\<close>, \<open>response_roundtrip\<close>); the chunk cache is never overrun
  (\<open>chunked_sender_correct\<close>).  Further defects: \<open>headers_dangle\<close>, \<open>bad_chunk_size_escapes\<close>.
  A request for a range gets exactly the entries of the range (\<open>request_serves_range\<close>); a follower reads the same lines
  however the text is cut (\<open>chunks_cut_anywhere\<close>); \<open>uri_component_roundtrip\<close> and \<open>endpoint_exception_escapes\<close> record two
  more defects.
  A replica is always a past state of its master (\<open>replica_is_past_of_master\<close>) and catches up over one connection
  (\<open>replica_catches_up\<close>), but a reconnect without news makes no progress (\<open>reconnect_makes_no_progress\<close>).  The message queue
  delivers in order under any interleaving (\<open>mmq_delivers_in_order\<close>) and its priority version sorts (\<open>mmpq_sorts\<close>);
  \<open>mmq_blocking_races\<close> and \<open>pack_row_ends\<close> record what goes wrong.  Packed tables and Base64 are read back as written
  (\<open>compact_tsv_roundtrip\<close>, \<open>base64_roundtrip\<close>).

  \<^bold>\<open>Not modelled.\<close>  The type system (reflection, schemas, JSON serialization) is template code instantiated per
  user type.  Sockets, files and processes of the operating system are arguments or strings.  The REST
  interface of a storage, the Karl service, the exchange of roles of two running services
  (\<^verbatim>\<open>MasterFlipController\<close>), RipCurrent flows, the function differentiation library, the
  mobile clients and the examples are applications of the parts above or separate programs.
\<close>

section \<open>A storage over a file\<close>

text \<open>
  C1: Durability.  A master storage started on a new file, after any sequence of read-write transactions
  (some of which may throw and be rolled back), leaves a file from which a storage can be started again, and
  that storage holds the same contents in every field: every committed transaction survives, no
  rolled back one leaves a trace.  The start, every transaction and the restart all complete.
\<close>

theorem storage_survives_restart:
  assumes "codec_ok cd" "signature_ok sig" "-1 \<le> monotonic_now_us k"
    and "\<forall>f \<in> set fs. tx_valid (fields_valid schema) f"
  shows "\<exists>st0 st st'. start_from_file cd sig schema k [] = Some st0 \<and>
    run_transactions (file_ops cd) schema fs st0 = Some st \<and>
    start_from_file cd sig schema k' (storage_file st) = Some st' \<and>
    fields_view (storage_fields st') = fields_view (storage_fields st)"
proof -
  obtain st0 where 0: "start_from_file cd sig schema k [] = Some st0"
    "storage_consistent (fp_inv cd sig) (fp_plog cd) schema st0"
    using start_from_new_file [OF assms(1-3)] by blast
  obtain st where 1: "run_transactions (file_ops cd) schema fs st0 = Some st"
    "storage_consistent (fp_inv cd sig) (fp_plog cd) schema st"
    using file_storage.run_transactions_ok [OF 0(2) assms(4)] by blast
  from restart_same [OF 1(2)] 0(1) 1(1) show ?thesis by blast
qed

theorem storage_survives_restart_witness:
  "\<exists>st0 st st'. start_from_file storage_codec ''{}'' four_fields clock_at_zero [] = Some st0 \<and>
    run_transactions (file_ops storage_codec) four_fields [tx_commits, tx_throws] st0 = Some st \<and>
    start_from_file storage_codec ''{}'' four_fields clock_at_zero (storage_file st) = Some st' \<and>
    fields_view (storage_fields st') = fields_view (storage_fields st)"
  by (rule storage_survives_restart)
    (simp_all add: storage_codec_ok four_fields_valid clock_at_zero_def signature_ok_def isspace_def)

text \<open>The concrete storage that the witnesses below start from.\<close>

lemma example_storage:
  obtains st where "storage_consistent (fp_inv storage_codec ''{}'') (fp_plog storage_codec) four_fields st"
  using start_from_new_file [of storage_codec "''{}''" clock_at_zero four_fields]
  by (auto simp: storage_codec_ok clock_at_zero_def signature_ok_def isspace_def)

text \<open>
  C2: Atomicity.  On a consistent master storage a read-write transaction completes, and leaves the
  storage consistent: the fields hold the replay of the published log.  If it reports a commit then at
  most one transaction was appended to the log; otherwise the contents of the fields and the log,
  down to the bytes of the file, are what they were.
\<close>

theorem transaction_atomic:
  assumes "storage_consistent (fp_inv cd sig) (fp_plog cd) schema st" "tx_valid (fields_valid schema) f"
  shows "\<exists>p st'. ReadWriteTransaction (file_ops cd) schema f st = Inr (Some (Completed p st')) \<and>
    storage_consistent (fp_inv cd sig) (fp_plog cd) schema st' \<and>
    ((\<exists>r. p = PromiseValue (Committed r)) \<and>
       (\<exists>ts. length ts \<le> 1 \<and>
         master_txs (fp_plog cd) (pol_persister st') = master_txs (fp_plog cd) (pol_persister st) @ ts) \<or>
     fields_view (storage_fields st') = fields_view (storage_fields st) \<and> storage_file st' = storage_file st)"
  using file_storage.read_write_atomic [OF assms] by (auto simp: storage_file_def)

theorem transaction_atomic_witness:
  "\<exists>st p st'. ReadWriteTransaction (file_ops storage_codec) four_fields tx_throws st = Inr (Some (Completed p st')) \<and>
    storage_consistent (fp_inv storage_codec ''{}'') (fp_plog storage_codec) four_fields st'"
proof -
  obtain st where "storage_consistent (fp_inv storage_codec ''{}'') (fp_plog storage_codec) four_fields st"
    by (rule example_storage)
  from transaction_atomic [OF this four_fields_valid(2)] show ?thesis by blast
qed

text \<open>
  C3: Whatever a transaction body does with the fields of a storage, through any of the containers and in
  any order, it runs to its end without undefined behaviour and keeps every field well-formed.
  Rolling the journal back then restores the contents of every field, last-modified times included, and
  replaying the logged events on any storage with the same contents gives the contents the body left.
\<close>

theorem transaction_body_undo_redo:
  assumes "fields_inv schema (this c)" "journal c = empty_journal" "tx_valid (fields_valid schema) f"
  shows "\<exists>outcome c'. tx_exec (fields_run schema) f c = Some (outcome, c') \<and> fields_inv schema (this c') \<and>
    fields_view (this (Rollback c')) = fields_view (this c) \<and> journal (Rollback c') = empty_journal \<and>
    (\<forall>t. fields_inv schema t \<and> fields_view t = fields_view (this c) \<longrightarrow>
       fields_view (fold (fields_apply schema) (commit_log (journal c')) t) = fields_view (this c'))"
  using fields.exec_logged [OF assms(3,1)] assms(2)
  by (auto simp: logged_def Rollback_def Clear_eq undoes_def redoes_def empty_journal_def)

theorem transaction_body_undo_redo_witness:
  "\<exists>outcome c'. tx_exec (fields_run four_fields) tx_throws (fresh_ctx (fields_init four_fields)) = Some (outcome, c') \<and>
    fields_view (this (Rollback c')) = fields_view (fields_init four_fields)"
  using transaction_body_undo_redo [of four_fields "fresh_ctx (fields_init four_fields)" tx_throws]
    fields_inv_init [of four_fields] four_fields_valid by fastforce

text \<open>
  C11: The events of a transaction carry strictly increasing timestamps, and all of them lie strictly
  between the begin and the end time of the transaction's metadata.
\<close>

theorem transaction_timestamps:
  assumes "fields_inv schema (this c)" "journal c = empty_journal" "tx_valid (fields_valid schema) f"
    and exec: "tx_exec (fields_run schema) f (BeforeTransaction c) = Some (outcome, c')"
  shows "sorted_wrt (<) (map mutation_us (commit_log (journal (AfterTransaction c')))) \<and>
    (\<forall>m \<in> set (commit_log (journal (AfterTransaction c'))).
       begin_us (meta (journal (AfterTransaction c'))) < mutation_us m \<and>
       mutation_us m < end_us (meta (journal (AfterTransaction c'))))"
proof -
  obtain now c1 where now: "CtxNow c = (now, c1)" by (cases "CtxNow c")
  obtain now' c2 where now': "CtxNow c' = (now', c2)" by (cases "CtxNow c'")
  note s = CtxNow_simps [OF now] and s' = CtxNow_simps [OF now']
  have inv: "fields_inv schema (this (BeforeTransaction c))" using assms(1) by simp
  have log: "logged (fields_inv schema) fields_view (fields_apply schema) mutation_us (BeforeTransaction c) c'"
    using fields.exec_logged [OF assms(3) inv] exec by auto
  have "commit_log (journal (BeforeTransaction c)) = []" using assms(2) by (simp add: empty_journal_def)
  with log have st: "stamped mutation_us (clock (BeforeTransaction c)) (commit_log (journal c')) (clock c')"
    by (auto simp: logged_def)
  have "begin_us (meta (journal c')) = monotonic_now_us (clock (BeforeTransaction c))"
    using exec_begin_us [OF exec fields_run_meta] s by (simp add: BeforeTransaction_def now)
  then show ?thesis
    using st s' by (fastforce simp: AfterTransaction_def now' stamped_def)
qed

theorem transaction_timestamps_witness:
  "\<exists>outcome c'. tx_exec (fields_run four_fields) tx_commits
      (BeforeTransaction (fresh_ctx (fields_init four_fields))) = Some (outcome, c') \<and>
    sorted_wrt (<) (map mutation_us (commit_log (journal (AfterTransaction c'))))"
proof -
  have inv: "fields_inv four_fields (this (fresh_ctx (fields_init four_fields)))" by (simp add: fields_inv_init)
  then have "fields_inv four_fields (this (BeforeTransaction (fresh_ctx (fields_init four_fields))))" by simp
  from fields.exec_logged [OF four_fields_valid(1) this] obtain outcome c' where
    exec: "tx_exec (fields_run four_fields) tx_commits (BeforeTransaction (fresh_ctx (fields_init four_fields))) = Some (outcome, c')"
    by blast
  from transaction_timestamps [OF inv _ four_fields_valid(1) exec] exec show ?thesis by auto
qed

section \<open>Followers and shutdown\<close>

text \<open>
  C4: A following storage that has applied any number of the records of its stream and is then flipped to
  master holds exactly what a master storage created on that stream holds, and accepts writes: no
  record is lost and none is applied twice.
\<close>

theorem follower_becomes_master:
  assumes "mem_inv (str_persister stream)" "str_borrowed stream = 0"
    "n \<le> length (plog_records (mem_plog (str_persister stream)))"
  shows "\<exists>st m. FlipToMaster memory_ops schema (follow schema k stream n) = Some (Inr (Inr st)) \<and>
    CreateMasterStorageAtopExistingStream memory_ops schema k stream = Some (Inr m) \<and>
    IsMasterStorage st \<and> storage_fields st = storage_fields m"
proof -
  obtain fs sp where f: "BecomeMasterStorage memory_ops (fields_apply schema)
      (fold (subscriber_record (fields_apply schema)) (take n (plog_records (mem_plog (str_persister stream))))
        (construct_following (fields_init schema) stream)) = Some (Inr (Inr (fs, sp)))" "master_inv mem_inv sp"
      "fs = replay (fields_apply schema) (log_transactions (mem_plog (str_persister stream))) (fields_init schema)"
    using mem_storage.follow_then_master [OF assms, of "fields_apply schema" "fields_init schema"] by blast
  obtain fs' sp' where
    "CreateMasterStorageAtopExistingStream memory_ops schema k stream = Some (Inr (storage_of k (fs', sp')))"
    "fs' = replay (fields_apply schema) (log_transactions (mem_plog (str_persister stream))) (fields_init schema)"
    by (rule mem_storage.create_master [OF assms(1,2)])
  with f show ?thesis
    by (simp add: FlipToMaster_def follow_def storage_of_def IsMasterStorage_def IsMasterStoragePersister_def
        master_inv_def)
qed

definition two_records :: "(int, entry, int, nat) storage_entry memory stream_state" where
  "two_records = CreateStream
     \<lparr>mem_entries = [(5, TransactionEntry \<lparr>tx_meta = meta_cleared, tx_mutations = [(0, DictEvent (DictUpdated 4 (1, 0, 9)))]\<rparr>),
                     (8, OtherEntry 3)], mem_head = 8\<rparr>"

theorem follower_becomes_master_witness:
  "\<exists>st m. FlipToMaster memory_ops four_fields (follow four_fields clock_at_zero two_records 1) = Some (Inr (Inr st)) \<and>
    CreateMasterStorageAtopExistingStream memory_ops four_fields clock_at_zero two_records = Some (Inr m) \<and>
    IsMasterStorage st \<and> storage_fields st = storage_fields m"
  by (rule follower_becomes_master) (simp_all add: two_records_def CreateStream_def mem_inv_def plog_inv_def)



text \<open>
  A read-only transaction completes, and leaves the fields, the log and the consistency of the
  storage untouched, whether its body returns or throws.
\<close>

theorem read_only_keeps:
  assumes "storage_consistent (fp_inv cd sig) (fp_plog cd) schema st" "tx_const f"
  shows "\<exists>p st'. ReadOnlyTransaction schema f st = Some (Completed p st') \<and>
    storage_consistent (fp_inv cd sig) (fp_plog cd) schema st' \<and>
    storage_fields st' = storage_fields st \<and> pol_persister st' = pol_persister st"
  using file_storage.tx.consistent_RO [OF assms(1) [unfolded storage_consistent_def] assms(2)]
  by (simp add: ReadOnlyTransaction_def storage_consistent_def)

theorem read_only_keeps_witness:
  "\<exists>st p st'. ReadOnlyTransaction four_fields (TxRead (\<lambda>fs. TxReturn (length fs))) st = Some (Completed p st') \<and>
    storage_consistent (fp_inv storage_codec ''{}'') (fp_plog storage_codec) four_fields st'"
proof -
  obtain st where "storage_consistent (fp_inv storage_codec ''{}'') (fp_plog storage_codec) four_fields st"
    by (rule example_storage)
  from read_only_keeps [OF this, of "TxRead (\<lambda>fs. TxReturn (length fs))"] show ?thesis by auto
qed

text \<open>
  C18: The two-step read-write transaction publishes before it runs its second step.  When the second
  step throws \<^verbatim>\<open>StorageRollbackExceptionWithNoValue\<close>, the caller is told that the transaction was rolled back,
  but the changes of the first step stay in the fields and the transaction stays in the log.
\<close>

theorem two_step_rollback_keeps_changes:
  assumes "storage_consistent mem_inv mem_plog schema st" "\<not> pol_destructing st" "tx_valid (fields_valid schema) f1"
    and exec: "tx_exec (fields_run schema) f1 (BeforeTransaction (pol_ctx st)) = Some (Inr r, c)"
    and "commit_log (journal c) \<noteq> []" "f2 r = Some StorageRollbackExceptionWithNoValue"
  shows "\<exists>st' t. ReadWriteTransactionTwoStep memory_ops schema f1 f2 st =
      Inr (Some (Completed (PromiseValue (RolledBack None), [r]) st')) \<and>
    storage_fields st' = this c \<and>
    master_txs mem_plog (pol_persister st') = master_txs mem_plog (pol_persister st) @ [t] \<and>
    tx_mutations t = commit_log (journal c)"
proof -
  note cons = assms(1) [unfolded storage_consistent_def]
  obtain outcome c0 c' w' where t: "tx_exec (fields_run schema) f1 (BeforeTransaction (pol_ctx st)) = Some (outcome, c0)"
    "PersistJournalFromLockedSection memory_ops (AfterTransaction c0) (pol_persister st) = Inr (c', w')"
    "mem_storage.tx.consistent schema (fields_init schema) (st\<lparr>pol_ctx := c', pol_persister := w'\<rparr>)" "this c' = this c0"
    "master_txs mem_plog w' = master_txs mem_plog (pol_persister st) @ journal_transactions (journal (AfterTransaction c0))"
    by (rule mem_storage.tx.exec_transaction [OF cons assms(3)])
  have c0: "c0 = c" using t(1) exec by simp
  have j: "journal c' = empty_journal" using t(3) by (simp add: tx_consistent_def)
  then have rb: "Rollback c' = c'" by (simp add: Rollback_def Clear_eq) (simp add: empty_journal_def)
  have m: "IsMasterStorage st" using assms(1) by (rule mem_storage.consistent_master)
  let ?st = "st\<lparr>pol_ctx := c', pol_persister := w'\<rparr>"
  have "ReadWriteTransactionTwoStep memory_ops schema f1 f2 st =
      Inr (Some (Completed (PromiseValue (RolledBack None), [r]) ?st))"
    using m assms(2,6) t(2) exec rb
    by (simp add: ReadWriteTransactionTwoStep_def TransactionRWTwoStep_def PersistJournal_def handle_two_step_def c0)
  moreover have "journal_transactions (journal (AfterTransaction c)) =
      [\<lparr>tx_meta = meta (journal (AfterTransaction c)), tx_mutations = commit_log (journal c)\<rparr>]"
    using assms(5) by (simp add: journal_transactions_def)
  ultimately show ?thesis using t(4,5) c0 by simp
qed

theorem two_step_rollback_keeps_changes_witness:
  "\<exists>st' t. ReadWriteTransactionTwoStep memory_ops four_fields tx_one (\<lambda>r. Some StorageRollbackExceptionWithNoValue)
      example_master = Inr (Some (Completed (PromiseValue (RolledBack None), [7]) st')) \<and>
    master_txs mem_plog (pol_persister st') = [t] \<and> tx_mutations t = [(0, DictEvent (DictUpdated 2 (1, 0, 10)))]"
proof -
  obtain c where c: "tx_exec (fields_run four_fields) tx_one (BeforeTransaction (pol_ctx example_master)) = Some (Inr 7, c)"
    "commit_log (journal c) = [(0, DictEvent (DictUpdated 2 (1, 0, 10)))]"
    using example_master_exec by blast
  have "\<not> pol_destructing example_master" "tx_valid (fields_valid four_fields) tx_one"
    "master_txs mem_plog (pol_persister example_master) = []"
    by (simp_all add: example_master_def storage_of_def tx_one_def fields_valid_def four_fields_def entry_of_kind_def
        master_txs_def CreateStream_def mem_empty_def mem_plog_def log_transactions_def)
  with two_step_rollback_keeps_changes [OF example_master_consistent _ _ c(1),
      of "\<lambda>r. Some StorageRollbackExceptionWithNoValue"] c(2)
  show ?thesis by auto
qed

section \<open>Persisters\<close>

text \<open>
  C5: The file persister and the memory persister cannot be told apart.  Given the same calls in the same order,
  publishing, head updates, iteration by index and by time, the two return the same results one by one, the
  exceptions for bad timestamps and bad ranges included.
\<close>

theorem persisters_agree:
  assumes "codec_ok cd" "signature_ok sig" "list_all call_ok cs"
  shows "\<exists>fp. ValidateFileAndInitializeHead cd sig [] = Inr fp \<and>
    fst (run_calls (file_ops cd) cs fp) = fst (run_calls memory_ops cs mem_empty)"
proof -
  obtain fp where fp: "ValidateFileAndInitializeHead cd sig [] = Inr fp" "fp_inv cd sig fp" "fp_plog cd fp = plog_empty"
    using fp_inv_open_empty [OF assms(1,2)] by blast
  have "run_calls plog_ops cs plog_empty = (fst (run_calls (file_ops cd) cs fp), fp_plog cd (snd (run_calls (file_ops cd) cs fp)))"
    using fp.calls_refine [OF fp(2) assms(3) prod.collapse [symmetric]] fp(3) by simp
  moreover have "run_calls plog_ops cs plog_empty =
      (fst (run_calls memory_ops cs mem_empty), mem_plog (snd (run_calls memory_ops cs mem_empty)))"
    using memory.calls_refine [OF mem_inv_empty assms(3) prod.collapse [symmetric]]
    by (simp add: mem_plog_def mem_empty_def plog_empty_def)
  ultimately show ?thesis using fp(1) by simp
qed

theorem persisters_agree_witness:
  "\<exists>fp. ValidateFileAndInitializeHead nat_codec ''{}'' [] = Inr fp \<and>
    fst (run_calls (file_ops nat_codec) [CallPublish 7 5, CallUpdateHead 9, CallPublish 8 9, CallIterate 0 1] fp) =
    fst (run_calls memory_ops [CallPublish 7 5, CallUpdateHead 9, CallPublish 8 9, CallIterate 0 1] mem_empty)"
  by (rule persisters_agree) (simp_all add: nat_codec_ok signature_ok_def isspace_def int64_max_def)

text \<open>
  C6: Reopening.  After any calls on a file persister started on a new file, opening the file again
  gives back the whole state of the persister: the offsets and timestamps of all entries, the next
  index, the head and the place of the head directive.
\<close>

theorem file_reopens:
  assumes "codec_ok cd" "signature_ok sig" "list_all call_ok cs"
    and "ValidateFileAndInitializeHead cd sig [] = Inr fp"
  shows "ValidateFileAndInitializeHead cd sig (fp_file (snd (run_calls (file_ops cd) cs fp))) =
    Inr (snd (run_calls (file_ops cd) cs fp))"
proof (rule fp_inv_reopen)
  have "fp_inv cd sig fp" using fp_inv_open_empty [OF assms(1,2)] assms(4) by auto
  from fp.calls_refine [OF this assms(3) prod.collapse [symmetric]]
  show "fp_inv cd sig (snd (run_calls (file_ops cd) cs fp))" by simp
qed

theorem file_reopens_witness:
  "\<exists>fp. ValidateFileAndInitializeHead nat_codec ''{}'' [] = Inr fp \<and>
    ValidateFileAndInitializeHead nat_codec ''{}''
      (fp_file (snd (run_calls (file_ops nat_codec) [CallPublish 7 5, CallUpdateHead 9] fp))) =
    Inr (snd (run_calls (file_ops nat_codec) [CallPublish 7 5, CallUpdateHead 9] fp))"
proof -
  have ok: "signature_ok ''{}''" "list_all call_ok [CallPublish (7 :: nat) 5, CallUpdateHead 9]"
    by (simp_all add: signature_ok_def isspace_def int64_max_def)
  obtain fp where "ValidateFileAndInitializeHead nat_codec ''{}'' [] = Inr fp"
    using fp_inv_open_empty [OF nat_codec_ok ok(1)] by blast
  with file_reopens [OF nat_codec_ok ok this] show ?thesis by blast
qed

text \<open>
  C9: Iterating a file persister over a range of time yields exactly the entries with a timestamp in the
  range, both ends included, in order and with their indexes; a bound \<^verbatim>\<open>till\<close> that is not positive means no
  upper bound, and an inverted range is an error.
\<close>

theorem file_iterates_time_range:
  assumes "fp_inv cd sig s" "fp_SizeImpl s < uint64_npos"
  shows "PersisterIterateTime (file_ops cd) from till s =
    (if 0 < till \<and> till < from then Inl InvalidIterableRangeException
     else Inr (filter (\<lambda>(i, e). from \<le> idx_us i \<and> (0 < till \<longrightarrow> idx_us i \<le> till)) (plog_records (fp_plog cd s))))"
proof (cases "0 < till \<and> till < from")
  case False
  have "in_range from till = (\<lambda>(i, e :: 'a). from \<le> idx_us i \<and> (0 < till \<longrightarrow> idx_us i \<le> till))"
    by (auto simp: in_range_def fun_eq_iff)
  with False show ?thesis
    using fp.iterate_time [OF assms(1) _ False] assms(2) by (simp add: file_ops_def)
qed (simp add: PersisterIterateTime_def)

lemma example_file:
  obtains fp where "ValidateFileAndInitializeHead nat_codec ''{}'' [] = Inr fp" "fp_inv nat_codec ''{}'' fp"
    "fp_plog nat_codec fp = plog_empty"
  using fp_inv_open_empty [OF nat_codec_ok, of "''{}''"] by (auto simp: signature_ok_def isspace_def)

theorem file_iterates_time_range_witness:
  "\<exists>s. ValidateFileAndInitializeHead nat_codec ''{}'' [] = Inr s \<and>
     PersisterIterateTime (file_ops nat_codec) 3 0 s = Inr []"
proof -
  obtain fp where fp: "ValidateFileAndInitializeHead nat_codec ''{}'' [] = Inr fp" "fp_inv nat_codec ''{}'' fp"
    "fp_plog nat_codec fp = plog_empty" by (rule example_file)
  then have "fp_SizeImpl fp < uint64_npos" using fp.size [OF fp(2)]
    by (simp add: file_ops_def plog_empty_def uint64_npos_def)
  from file_iterates_time_range [OF fp(2) this, of 3 0] fp show ?thesis
    by (simp add: plog_records_def plog_empty_def)
qed

section \<open>Subscribers\<close>

text \<open>
  C7: What a subscriber of a file-backed stream sees, at any moment of any interleaving of the
  subscriber thread with publishers, head updates and the termination signal: the entries it was called with are
  the records of the log from its first index on, of the type it asked for, without a gap, a repetition or a
  reordering; and all its calls, for entries and for heads, carry strictly increasing timestamps.
\<close>

theorem subscriber_sees_the_log:
  assumes "subscription_reachable (file_ops cd) sub b w0 w" "fp_inv cd sig (sn_persister w0)"
    "sn_thread w0 = thread_init b from_us u"
  shows "(\<exists>n. trace_entries (th_trace (sn_thread w)) =
      filter (\<lambda>r. sub_matches sub (snd r)) (take n (drop b (plog_records (fp_plog cd (sn_persister w)))))) \<and>
    sorted_wrt (<) (map trace_us (th_trace (sn_thread w)))"
  using file_stream.reachable_trace [OF assms] by blast

text \<open>A subscriber that counts the entries it is given and never asks to stop.\<close>

definition counting :: "(nat, nat) subscriber" where
  "counting =
     \<lparr>sub_matches = \<lambda>e. True, sub_entry = \<lambda>e current last n. (ResponseMore, Suc n), sub_no_more = \<lambda>n. (ResponseMore, n),
      sub_head = \<lambda>us n. (ResponseMore, n), sub_terminate = \<lambda>n. (TerminationTerminate, n)\<rparr>"

definition subscribed :: "'s \<Rightarrow> ('s, nat, nat) subscription" where
  "subscribed s = \<lparr>sn_persister = s, sn_signal = False, sn_thread = thread_init 0 0 0\<rparr>"

theorem subscriber_sees_the_log_witness:
  "\<exists>fp n. fp_inv nat_codec ''{}'' fp \<and>
     trace_entries (th_trace (sn_thread (subscribed fp))) = take n (plog_records (fp_plog nat_codec fp))"
proof -
  obtain fp where fp: "fp_inv nat_codec ''{}'' fp" by (rule example_file)
  have "subscription_reachable (file_ops nat_codec) counting 0 (subscribed fp) (subscribed fp)"
    by (rule reachable_init)
  from subscriber_sees_the_log [OF this, of "''{}''" 0 0] fp show ?thesis
    by (auto simp: subscribed_def counting_def)
qed


definition blocked_thread :: "(nat, nat) subscriber_thread" where
  "blocked_thread = (thread_init 0 0 0)\<lparr>th_pc := Waiting\<rparr>"


text \<open>
  C19: A subscription that starts at a moment in the future, on a stream that already has entries at its
  index, burns the processor: with no change in the stream and no signal, the thread goes from the top of
  its loop to the wait and, the wait being satisfied at once, back to the very same state.
\<close>

theorem future_subscription_spins:
  assumes "mem_inv s" "mem_head s < from_us - 1" "b < length (mem_entries s)"
  shows "thread_step memory_ops sub b s False (thread_init b from_us u) = Some ((thread_init b from_us u)\<lparr>th_pc := Waiting\<rparr>) \<and>
    thread_step memory_ops sub b s False ((thread_init b from_us u)\<lparr>th_pc := Waiting\<rparr>) = Some (thread_init b from_us u)"
  using spin [of "thread_init b from_us u" memory_ops s sub b] assms
  by (simp add: thread_init_def memory_ops_def mem_HeadAndLastPublishedIndexAndTimestampImpl_def mem_SizeImpl_def)

theorem future_subscription_spins_witness:
  "thread_step memory_ops counting 0 \<lparr>mem_entries = [(5, 7)], mem_head = 5\<rparr> False ((thread_init 0 100 0)\<lparr>th_pc := Waiting\<rparr>) =
     Some (thread_init 0 100 0)"
  using future_subscription_spins [of "\<lparr>mem_entries = [(5, 7)], mem_head = 5\<rparr>" 100 0 counting 0]
  by (simp add: mem_inv_def plog_inv_def)

end
